(* ===== verification/Prelude.thy ===== *)
theory Prelude
  imports Main "HOL-Library.Word" "HOL-Library.Char_ord"
begin

text \<open>
  Shared vocabulary of the development: the theorem collections the component proofs use, the
  exception values of the C++ code, NUL-terminated buffers as character lists, the character
  classes of the C locale, decimal printing of integers (\<open>std::to_string\<close>), and the generic
  list lemmas about them.
\<close>

named_theorems cstring_simps \<open>evaluation of C string and character class functions\<close>

unbundle bit_operations_syntax

subsection \<open>Exceptions and undefined behaviour\<close>

text \<open>
  A C++ function that may throw returns a sum: \<open>Inl\<close> carries the exception. \<open>RuntimeError\<close> is
  \<open>std::runtime_error\<close>, \<open>BadRequest\<close> is \<open>crow::bad_request\<close>, \<open>StdError\<close> any other
  \<open>std::exception\<close> of the standard library; \<open>UB\<close> marks an execution whose behaviour the
  language leaves undefined (an indeterminate pointer is read, a null pointer is made a string).
\<close>

datatype exn = RuntimeError string | BadRequest string | StdError string | UB string

type_synonym 'a result = "exn + 'a"

definition bind_result :: "'a result \<Rightarrow> ('a \<Rightarrow> 'b result) \<Rightarrow> 'b result" where
  "bind_result r f = (case r of Inl e \<Rightarrow> Inl e | Inr x \<Rightarrow> f x)"

lemma bind_result_simps [simp]:
  "bind_result (Inl e) f = Inl e"
  "bind_result (Inr x) f = f x"
  by (simp_all add: bind_result_def)

lemma bind_result_eq_Inr:
  "bind_result r f = Inr y \<longleftrightarrow> (\<exists>x. r = Inr x \<and> f x = Inr y)"
  by (cases r) auto

text \<open>The same for computations that may not come to an end, which is \<open>None\<close>.\<close>

definition then_do :: "'a result option \<Rightarrow> ('a \<Rightarrow> 'b result option) \<Rightarrow> 'b result option" where
  "then_do x f = (case x of None \<Rightarrow> None | Some (Inl e) \<Rightarrow> Some (Inl e) | Some (Inr a) \<Rightarrow> f a)"

subsection \<open>Machine integers and characters\<close>

type_synonym u16 = "16 word"
type_synonym u32 = "32 word"
type_synonym i32 = "32 word"
type_synonym i64 = "64 word"
type_synonym u64 = "64 word"

abbreviation NUL :: char where "NUL \<equiv> CHR 0x00"
abbreviation QUOTE :: char where "QUOTE \<equiv> CHR 0x22"
abbreviation BSLASH :: char where "BSLASH \<equiv> CHR 0x5C"
abbreviation TAB :: char where "TAB \<equiv> CHR 0x09"
abbreviation LF :: char where "LF \<equiv> CHR 0x0A"
abbreviation CR :: char where "CR \<equiv> CHR 0x0D"
abbreviation BS :: char where "BS \<equiv> CHR 0x08"
abbreviation FF :: char where "FF \<equiv> CHR 0x0C"

definition code :: "char \<Rightarrow> nat" where
  "code c = of_char c"

text \<open>The value of a plain \<open>char\<close> as an integer: signed on the targets of the build.\<close>

definition schar :: "char \<Rightarrow> int" where
  "schar c = (if code c < 128 then int (code c) else int (code c) - 256)"

definition chr :: "nat \<Rightarrow> char" where
  "chr n = char_of n"

lemma code_less [simp]: "code c < 256"
  by (simp add: code_def)

lemma chr_code [simp]: "chr (code c) = c"
  by (simp add: chr_def code_def)

lemma code_chr: "code (chr n) = n mod 256"
  by (simp add: chr_def code_def of_char_of take_bit_eq_mod)

lemma chr_eq_CHR: "chr n = c \<longleftrightarrow> n mod 256 = code c"
  by (metis chr_code code_chr chr_def char_of_mod_256 chr_def)

lemma code_CHR [simp]:
  "code (Char b0 b1 b2 b3 b4 b5 b6 b7) = horner_sum of_bool 2 [b0, b1, b2, b3, b4, b5, b6, b7]"
  by (simp add: code_def)

lemma code_inject: "code c = code d \<longleftrightarrow> c = d"
  by (metis chr_code)

lemma schar_inject: "schar c = schar d \<longleftrightarrow> c = d"
proof
  assume "schar c = schar d"
  then have "int (code c) = int (code d)"
    using code_less [of c] code_less [of d] unfolding schar_def
    by (simp split: if_splits del: code_less)
  then show "c = d" by (simp add: code_inject)
qed simp

lemma char_le_code: "c \<le> d \<longleftrightarrow> code c \<le> code d"
  by (simp add: less_eq_char_def code_def)

subsection \<open>Character classes (C locale)\<close>

definition is_digit :: "char \<Rightarrow> bool" where
  "is_digit c \<longleftrightarrow> CHR ''0'' \<le> c \<and> c \<le> CHR ''9''"

definition digit_val :: "char \<Rightarrow> nat" where
  "digit_val c = code c - 48"

definition is_hex :: "char \<Rightarrow> bool" where
  "is_hex c \<longleftrightarrow> is_digit c \<or> (CHR ''a'' \<le> c \<and> c \<le> CHR ''f'') \<or> (CHR ''A'' \<le> c \<and> c \<le> CHR ''F'')"

definition c_toupper :: "char \<Rightarrow> char" where
  "c_toupper c = (if CHR ''a'' \<le> c \<and> c \<le> CHR ''z'' then chr (code c - 32) else c)"

definition c_tolower :: "char \<Rightarrow> char" where
  "c_tolower c = (if CHR ''A'' \<le> c \<and> c \<le> CHR ''Z'' then chr (code c + 32) else c)"

definition c_isspace :: "char \<Rightarrow> bool" where
  "c_isspace c \<longleftrightarrow> c = CHR '' '' \<or> (TAB \<le> c \<and> c \<le> CR)"

subsection \<open>NUL-terminated buffers\<close>

text \<open>
  A buffer that the code reads through a \<open>char*\<close> and that ends in a NUL byte is the list of
  the characters before the end; \<open>cur\<close> reads the character under the pointer and \<open>at\<close> one at
  an offset, giving the terminator at the end. Advancing the pointer is \<open>tl\<close> or \<open>drop\<close>.
\<close>

definition cur :: "string \<Rightarrow> char" where
  "cur s = (case s of [] \<Rightarrow> NUL | c # _ \<Rightarrow> c)"

definition at :: "string \<Rightarrow> nat \<Rightarrow> char" where
  "at s i = (if i < length s then s ! i else NUL)"

lemma cur_simps [simp]: "cur [] = NUL" "cur (c # s) = c"
  by (simp_all add: cur_def)

lemma at_Nil [simp]: "at [] i = NUL"
  by (simp add: at_def)

lemma at_Cons_0 [simp]: "at (c # s) 0 = c"
  by (simp add: at_def)

lemma at_Cons_Suc [simp]: "at (c # s) (Suc i) = at s i"
  by (simp add: at_def)

lemma at_Cons_numeral [simp]: "at (c # s) (numeral k) = at s (pred_numeral k)"
  by (simp add: at_def numeral_eq_Suc)

lemma cur_at_0: "cur s = at s 0"
  by (cases s) simp_all

text \<open>\<open>strcspn\<close>: the length of the initial segment without any of the stop characters.\<close>

definition strcspn :: "string \<Rightarrow> string \<Rightarrow> nat" where
  "strcspn s stop = length (takeWhile (\<lambda>c. c \<notin> set stop \<and> c \<noteq> NUL) s)"

lemma strcspn_le [simp]: "strcspn s stop \<le> length s"
  by (simp add: strcspn_def length_takeWhile_le)

text \<open>The C string held by a buffer: what is before the first NUL.\<close>

definition c_str :: "string \<Rightarrow> string" where
  "c_str s = takeWhile (\<lambda>c. c \<noteq> NUL) s"

lemma c_str_no_NUL: "NUL \<notin> set s \<Longrightarrow> c_str s = s"
  unfolding c_str_def by (induction s) auto

lemma NUL_notin_c_str [simp]: "NUL \<notin> set (c_str s)"
  unfolding c_str_def by (induction s) auto

lemma c_str_idem [simp]: "c_str (c_str s) = c_str s"
  by (simp add: c_str_no_NUL)

definition is_prefix :: "string \<Rightarrow> string \<Rightarrow> bool" where
  "is_prefix p s \<longleftrightarrow> take (length p) s = p"

lemma is_prefix_append [simp]: "is_prefix p (p @ s)"
  by (simp add: is_prefix_def)

lemma is_prefixD: "is_prefix p s \<Longrightarrow> s = p @ drop (length p) s"
  by (metis append_take_drop_id is_prefix_def)

lemmas [cstring_simps] = is_digit_def is_hex_def c_toupper_def c_tolower_def c_isspace_def
  strcspn_def is_prefix_def char_le_code

subsection \<open>Decimal printing\<close>

fun nat_to_string :: "nat \<Rightarrow> string" where
  "nat_to_string n =
     (if n < 10 then [chr (48 + n)] else nat_to_string (n div 10) @ [chr (48 + n mod 10)])"

declare nat_to_string.simps [simp del]

definition int_to_string :: "int \<Rightarrow> string" where
  "int_to_string i = (if i < 0 then CHR ''-'' # nat_to_string (nat (- i)) else nat_to_string (nat i))"

definition digits_val :: "string \<Rightarrow> nat" where
  "digits_val ds = foldl (\<lambda>v c. 10 * v + digit_val c) 0 ds"

lemma digits_val_snoc [simp]: "digits_val (ds @ [c]) = 10 * digits_val ds + digit_val c"
  by (simp add: digits_val_def)

lemma digits_val_Nil [simp]: "digits_val [] = 0"
  by (simp add: digits_val_def)

lemma digit_val_chr: "d < 10 \<Longrightarrow> digit_val (chr (48 + d)) = d"
  by (simp add: digit_val_def code_chr)

lemma is_digit_code: "is_digit c \<longleftrightarrow> 48 \<le> code c \<and> code c \<le> 57"
  by (simp add: is_digit_def char_le_code)

lemma is_digit_chr: "d < 10 \<Longrightarrow> is_digit (chr (48 + d))"
  by (simp add: is_digit_code code_chr)

lemma digits_val_nat_to_string [simp]: "digits_val (nat_to_string n) = n"
proof (induction n rule: nat_to_string.induct)
  case (1 n)
  show ?case
  proof (cases "n < 10")
    case True
    have "digits_val [chr (48 + n)] = digit_val (chr (48 + n))"
      by (simp add: digits_val_def)
    with True show ?thesis by (simp add: nat_to_string.simps [of n] digit_val_chr)
  next
    case False
    with 1 show ?thesis
      by (simp add: nat_to_string.simps [of n] digit_val_chr)
  qed
qed

lemma nat_to_string_digits: "\<forall>c \<in> set (nat_to_string n). is_digit c"
proof (induction n rule: nat_to_string.induct)
  case (1 n)
  then show ?case
    by (cases "n < 10") (auto simp: nat_to_string.simps [of n] is_digit_chr)
qed

lemma nat_to_string_not_Nil [simp]: "nat_to_string n \<noteq> []"
  by (subst nat_to_string.simps) simp

lemma nat_to_string_inject [simp]: "nat_to_string m = nat_to_string n \<longleftrightarrow> m = n"
  by (metis digits_val_nat_to_string)

lemma is_digit_not_minus: "is_digit c \<Longrightarrow> c \<noteq> CHR ''-''"
  by (auto simp: is_digit_code code_def)

lemma minus_notin_nat_to_string [simp]: "nat_to_string n \<noteq> CHR ''-'' # s"
proof
  assume "nat_to_string n = CHR ''-'' # s"
  then have "is_digit (CHR ''-'')" using nat_to_string_digits [of n] by auto
  then show False by (simp add: is_digit_code code_def)
qed

lemma int_to_string_inject [simp]: "int_to_string i = int_to_string j \<longleftrightarrow> i = j"
  by (auto simp: int_to_string_def split: if_splits)
    (metis minus_notin_nat_to_string)+

subsection \<open>Self-delimiting encodings\<close>

text \<open>
  An encoder that maps one symbol to a word, and a decoder that takes such a word off the front of
  its input whatever follows. Encoding a list symbol by symbol is then undone by the decoder.
\<close>

locale symbol_codec =
  fixes enc :: "'a \<Rightarrow> 'b list"
    and dec :: "'b list \<Rightarrow> 'a list"
  assumes dec_enc: "dec (enc x @ r) = x # dec r"
begin

lemma dec_concat: "dec (concat (map enc xs) @ r) = xs @ dec r"
  by (induction xs) (simp_all add: dec_enc)

lemma dec_all: "dec [] = [] \<Longrightarrow> dec (concat (map enc xs)) = xs"
  using dec_concat [of xs "[]"] by simp

lemma enc_inject: "dec [] = [] \<Longrightarrow> concat (map enc xs) = concat (map enc ys) \<Longrightarrow> xs = ys"
  by (metis dec_all)

end

subsection \<open>Invariants of step relations\<close>

locale transition_invariant =
  fixes step :: "'s \<Rightarrow> 's \<Rightarrow> bool"
    and inv :: "'s \<Rightarrow> bool"
  assumes preserved: "inv s \<Longrightarrow> step s s' \<Longrightarrow> inv s'"
begin

lemma reachable: "step\<^sup>*\<^sup>* s s' \<Longrightarrow> inv s \<Longrightarrow> inv s'"
  by (induction rule: rtranclp_induct) (auto intro: preserved)

end

end
