(* ===== verification/Numbers.thy ===== *)
theory Numbers
  imports Prelude
begin

text \<open>
  The numeric parts of the C and C++ standard library that the sources call, for the Linux build
  (libstdc++, binary64 doubles, 32-bit \<open>int\<close>, 64-bit \<open>long long\<close>): \<open>stoi\<close>, stream extraction
  of integers and doubles (\<open>utility::lexical_cast\<close>), \<open>strtoll\<close>/\<open>strtoull\<close>, the conversions
  \<open>%.*g\<close> and \<open>%f\<close>. A finite double is a sign, a significand below \<open>2 ^ 53\<close> and an exponent of
  two; every conversion computes on exact integers and rounds to nearest, ties to even.
\<close>

subsection \<open>Integers from text\<close>

text \<open>An optional sign and the digits that follow it.\<close>

definition scan_sign :: "string \<Rightarrow> bool \<times> string" where
  "scan_sign s = (if cur s = CHR ''-'' then (True, tl s)
                  else if cur s = CHR ''+'' then (False, tl s) else (False, s))"

definition scan_digits :: "string \<Rightarrow> string \<times> string" where
  "scan_digits s = (takeWhile is_digit s, dropWhile is_digit s)"

text \<open>
  \<open>strtol\<close> and its kin: the value, how many characters were consumed (0 when there is no
  number) and whether the value is out of the range \<open>lo..hi\<close> (\<open>ERANGE\<close>).
\<close>

definition strto_int :: "int \<Rightarrow> int \<Rightarrow> string \<Rightarrow> int \<times> nat \<times> bool" where
  "strto_int lo hi s =
     (let s1 = dropWhile c_isspace s; (neg, s2) = scan_sign s1; (ds, s3) = scan_digits s2;
          v = (if neg then - int (digits_val ds) else int (digits_val ds))
      in if ds = [] then (0, 0, False)
         else if v < lo then (lo, length s - length s3, True)
         else if hi < v then (hi, length s - length s3, True)
         else (v, length s - length s3, False))"

definition int_min :: int where "int_min = - (2 ^ 31)"
definition int_max :: int where "int_max = 2 ^ 31 - 1"
definition int64_min :: int where "int64_min = - (2 ^ 63)"
definition int64_max :: int where "int64_max = 2 ^ 63 - 1"
definition uint64_max :: int where "uint64_max = 2 ^ 64 - 1"

lemmas int_limits = int_min_def int_max_def int64_min_def int64_max_def uint64_max_def

text \<open>\<open>std::stoi\<close>: throws \<open>invalid_argument\<close> or \<open>out_of_range\<close>.\<close>

definition stoi :: "string \<Rightarrow> int result" where
  "stoi s = (case strto_int int_min int_max (c_str s) of
     (v, n, erange) \<Rightarrow>
       if n = 0 then Inl (StdError ''stoi: invalid_argument'')
       else if erange then Inl (StdError ''stoi: out_of_range'')
       else Inr v)"

lemma strto_int_range:
  assumes "lo \<le> 0" "0 \<le> hi" "strto_int lo hi s = (v, n, erange)"
  shows "lo \<le> v \<and> v \<le> hi"
  using assms by (auto simp: strto_int_def Let_def split: prod.splits if_splits)

lemma stoi_range: "stoi s = Inr v \<Longrightarrow> int_min \<le> v \<and> v \<le> int_max"
proof -
  assume v: "stoi s = Inr v"
  obtain w n erange where r: "strto_int int_min int_max (c_str s) = (w, n, erange)"
    by (metis prod_cases3)
  with v have "w = v" by (auto simp: stoi_def split: if_splits)
  moreover from r have "int_min \<le> w \<and> w \<le> int_max"
    by (rule strto_int_range [rotated 2]) (simp_all add: int_limits)
  ultimately show ?thesis by simp
qed

text \<open>
  Extraction of an integer from a string stream (\<open>num_get\<close>): a missing number gives 0, a value
  out of range the nearest limit. \<open>uint64_t\<close> extraction negates modulo \<open>2 ^ 64\<close> after a minus.
\<close>

definition extract_int64 :: "string \<Rightarrow> i64" where
  "extract_int64 s = word_of_int (fst (strto_int int64_min int64_max s))"

definition extract_uint64 :: "string \<Rightarrow> u64" where
  "extract_uint64 s =
     (let s1 = dropWhile c_isspace s; (neg, s2) = scan_sign s1; ds = fst (scan_digits s2);
          v = int (digits_val ds)
      in if ds = [] then 0
         else if uint64_max < v then word_of_int uint64_max
         else if neg then - word_of_int v else word_of_int v)"

subsection \<open>Doubles\<close>

datatype double = Fin bool nat int | Inf bool | NaN

definition dbl_isnan :: "double \<Rightarrow> bool" where
  "dbl_isnan x = (case x of NaN \<Rightarrow> True | _ \<Rightarrow> False)"

definition dbl_isinf :: "double \<Rightarrow> bool" where
  "dbl_isinf x = (case x of Inf _ \<Rightarrow> True | _ \<Rightarrow> False)"

text \<open>The comparison \<open>x > 0\<close>.\<close>

definition dbl_pos :: "double \<Rightarrow> bool" where
  "dbl_pos x = (case x of Fin s m e \<Rightarrow> \<not> s \<and> 0 < m | Inf s \<Rightarrow> \<not> s | NaN \<Rightarrow> False)"

definition dbl_max :: double where
  "dbl_max = Fin False (2 ^ 53 - 1) 971"

definition dbl_wf :: "double \<Rightarrow> bool" where
  "dbl_wf x = (case x of Fin s m e \<Rightarrow> m < 2 ^ 53 \<and> - 1074 \<le> e \<and> e \<le> 971 | _ \<Rightarrow> True)"

fun bitlen :: "nat \<Rightarrow> nat" where
  "bitlen n = (if n = 0 then 0 else Suc (bitlen (n div 2)))"

declare bitlen.simps [simp del]

text \<open>The quotient \<open>n / d\<close> rounded to the nearest natural number, ties to even.\<close>

definition div_rne :: "nat \<Rightarrow> nat \<Rightarrow> nat" where
  "div_rne n d = (let q = n div d; r = n mod d
     in if 2 * r < d \<or> (2 * r = d \<and> even q) then q else Suc q)"

definition scaled_rne :: "nat \<Rightarrow> nat \<Rightarrow> nat \<Rightarrow> int \<Rightarrow> nat" where
  "scaled_rne b n d e =
     (if 0 \<le> e then div_rne n (d * b ^ nat e) else div_rne (n * b ^ nat (- e)) d)"

text \<open>The double nearest to \<open>n / d\<close>, with its sign; infinite past the largest double.\<close>

definition round_double :: "bool \<Rightarrow> nat \<Rightarrow> nat \<Rightarrow> double" where
  "round_double s n d =
     (if n = 0 then Fin s 0 0
      else let k = int (bitlen n) - int (bitlen d);
               ge = (if 0 \<le> k then d * 2 ^ nat k \<le> n else d \<le> n * 2 ^ nat (- k));
               e = max ((if ge then k else k - 1) - 52) (- 1074);
               m = scaled_rne 2 n d e;
               (m', e') = (if m = 2 ^ 53 then (2 ^ 52, e + 1) else (m, e))
           in if 971 < e' then Inf s else Fin s m' e')"

text \<open>
  A decimal floating-point text \<open>[sign] digits [. digits] [e [sign] digits]\<close>: the sign, the
  digits without the point, the decimal exponent and the rest of the text. An exponent part
  without digits is not consumed, as \<open>strtod\<close> does.
\<close>

definition scan_exponent :: "string \<Rightarrow> int \<times> string" where
  "scan_exponent s =
     (if cur s = CHR ''e'' \<or> cur s = CHR ''E''
      then let (neg, s1) = scan_sign (tl s); (ds, s2) = scan_digits s1
           in if ds = [] then (0, s)
              else ((if neg then - int (digits_val ds) else int (digits_val ds)), s2)
      else (0, s))"

definition scan_decimal :: "string \<Rightarrow> (bool \<times> string \<times> int \<times> string) option" where
  "scan_decimal s =
     (let (neg, s1) = scan_sign s; (ip, s2) = scan_digits s1;
          (fp, s3) = (if cur s2 = CHR ''.'' then scan_digits (tl s2) else ([], s2))
      in if ip @ fp = [] then None
         else let (x, s4) = scan_exponent s3
              in Some (neg, ip @ fp, x - int (length fp), s4))"

definition decimal_to_double :: "bool \<Rightarrow> string \<Rightarrow> int \<Rightarrow> double" where
  "decimal_to_double neg ds x =
     (if 0 \<le> x then round_double neg (digits_val ds * 10 ^ nat x) 1
      else round_double neg (digits_val ds) (10 ^ nat (- x)))"

text \<open>
  \<open>stream >> res\<close> for a double, on a text all of whose characters the extraction accumulates:
  the whole text has to convert, otherwise the result is 0; an overflow gives the largest double.
\<close>

definition extract_double :: "string \<Rightarrow> double" where
  "extract_double s = (case scan_decimal s of
     None \<Rightarrow> Fin False 0 0
   | Some (neg, ds, x, rest) \<Rightarrow>
       if rest \<noteq> [] then Fin False 0 0
       else (case decimal_to_double neg ds x of
               Inf sg \<Rightarrow> (case dbl_max of Fin _ m e \<Rightarrow> Fin sg m e | y \<Rightarrow> y)
             | y \<Rightarrow> y))"

subsection \<open>Doubles to text\<close>

definition dbl_ratio :: "nat \<Rightarrow> int \<Rightarrow> nat \<times> nat" where
  "dbl_ratio m e = (if 0 \<le> e then (m * 2 ^ nat e, 1) else (m, 2 ^ nat (- e)))"

text \<open>The decimal exponent of \<open>n / d\<close>: \<open>10 ^ X \<le> n / d < 10 ^ (X + 1)\<close>.\<close>

definition dec_exp :: "nat \<Rightarrow> nat \<Rightarrow> int" where
  "dec_exp n d =
     (if d \<le> n then int (length (nat_to_string (n div d))) - 1
      else - int (hd (filter (\<lambda>k. d \<le> n * 10 ^ k) [1..<Suc (length (nat_to_string d))])))"

definition pad_left :: "nat \<Rightarrow> string \<Rightarrow> string" where
  "pad_left w s = replicate (w - length s) (CHR ''0'') @ s"

definition strip_zeros :: "string \<Rightarrow> string" where
  "strip_zeros s = rev (dropWhile (\<lambda>c. c = CHR ''0'') (rev s))"

text \<open>The significant digits and the exponent of the \<open>%e\<close> form with \<open>P\<close> digits.\<close>

definition sig_digits :: "nat \<Rightarrow> nat \<Rightarrow> nat \<Rightarrow> nat \<times> int" where
  "sig_digits P n d =
     (let X = dec_exp n d; D = scaled_rne 10 n d (X - int (P - 1))
      in if D = 10 ^ P then (10 ^ (P - 1), X + 1) else (D, X))"

definition exp_suffix :: "int \<Rightarrow> string" where
  "exp_suffix X = CHR ''e'' # (if X < 0 then CHR ''-'' else CHR ''+'')
     # pad_left 2 (nat_to_string (nat \<bar>X\<bar>))"

text \<open>\<open>printf\<close> with \<open>%.Pg\<close>.\<close>

definition fmt_g :: "nat \<Rightarrow> double \<Rightarrow> string" where
  "fmt_g prec x = (let P = (if prec = 0 then 1 else prec) in
     case x of
       NaN \<Rightarrow> ''nan''
     | Inf s \<Rightarrow> (if s then ''-inf'' else ''inf'')
     | Fin s m e \<Rightarrow> (if s then ''-'' else '''') @
         (if m = 0 then ''0''
          else let (n, d) = dbl_ratio m e; (D, X) = sig_digits P n d; ds = nat_to_string D
               in if - 4 \<le> X \<and> X < int P
                  then (if 0 \<le> X
                        then let fp = strip_zeros (drop (nat X + 1) ds)
                             in take (nat X + 1) ds @ (if fp = [] then [] else CHR ''.'' # fp)
                        else let fp = strip_zeros (pad_left (nat (- X) - 1 + length ds) ds)
                             in ''0.'' @ fp)
                  else let fp = strip_zeros (tl ds)
                       in [hd ds] @ (if fp = [] then [] else CHR ''.'' # fp) @ exp_suffix X))"

text \<open>\<open>printf\<close> with \<open>%f\<close> (six decimals).\<close>

definition fmt_f :: "double \<Rightarrow> string" where
  "fmt_f x = (case x of
       NaN \<Rightarrow> ''nan''
     | Inf s \<Rightarrow> (if s then ''-inf'' else ''inf'')
     | Fin s m e \<Rightarrow> (if s then ''-'' else '''') @
         (let (n, d) = dbl_ratio m e; v = scaled_rne 10 n d (- 6); ds = pad_left 7 (nat_to_string v)
          in take (length ds - 6) ds @ ''.'' @ drop (length ds - 6) ds))"

text \<open>The quotient of two integers converted to double (\<open>static_cast<double>(a) / ...\<close>).\<close>

definition dbl_of_int :: "int \<Rightarrow> double" where
  "dbl_of_int i = round_double (i < 0) (nat \<bar>i\<bar>) 1"

definition dbl_div :: "double \<Rightarrow> double \<Rightarrow> double" where
  "dbl_div x y = (case (x, y) of
     (Fin s m e, Fin s' m' e') \<Rightarrow>
       (let sg = (s \<noteq> s') in
        if m' = 0 then (if m = 0 then NaN else Inf sg)
        else let (n, d) = dbl_ratio m e; (n', d') = dbl_ratio m' e'
             in round_double sg (n * d') (d * n'))
   | (Inf s, Fin s' m' e') \<Rightarrow> Inf (s \<noteq> s')
   | (Fin s m e, Inf s') \<Rightarrow> Fin (s \<noteq> s') 0 0
   | _ \<Rightarrow> NaN)"

text \<open>Evaluation of a decimal text.\<close>

lemmas number_eval = extract_double_def scan_decimal_def scan_sign_def scan_digits_def scan_exponent_def
  decimal_to_double_def round_double_def bitlen.simps scaled_rne_def div_rne_def digits_val_def digit_val_def
  chr_def code_def is_digit_def Let_def

end
