(* ===== verification/Query_String.thy ===== *)
theory Query_String
  imports Prelude
begin

text \<open>
  Query strings (\<open>crow/query_string.h\<close>). \<open>qs_parse\<close> cuts a URL into key/value pairs by storing
  pointers into the URL and decodes the values in place, so the model keeps the buffer and the
  offsets: \<open>qurl\<close> is the text of the \<open>std::string\<close> (its terminator is implicit) and \<open>kvp\<close> the
  pointers as offsets. A function that reads through a pointer returns an error where the code
  would read past the terminator. \<open>qs_scanvalue\<close> is not called from anywhere and is left out.
\<close>

subsection \<open>Characters\<close>

definition qs_ishex :: "char \<Rightarrow> bool" where
  "qs_ishex x = is_hex x"

definition qs_hex2dec :: "char \<Rightarrow> nat" where
  "qs_hex2dec x =
     (if is_digit x then code x - 48
      else if CHR ''A'' \<le> x \<and> x \<le> CHR ''F'' then code x - 55
      else if CHR ''a'' \<le> x \<and> x \<le> CHR ''f'' then code x - 87
      else 0)"

definition qs_isqschr :: "char \<Rightarrow> bool" where
  "qs_isqschr x \<longleftrightarrow> \<not> (x = CHR ''='' \<or> x = CHR ''#'' \<or> x = CHR ''&'' \<or> x = NUL)"

definition qs_byte :: "char \<Rightarrow> char \<Rightarrow> char" where
  "qs_byte u l = chr (qs_hex2dec u * 16 + qs_hex2dec l)"

subsection \<open>Comparing keys\<close>

text \<open>
  A pointer into a terminated text: \<open>Some s\<close> points at the first character of \<open>s\<close>, \<open>Some []\<close> at the
  terminator, \<open>None\<close> past it.
\<close>

definition next_char :: "string option \<Rightarrow> (char \<times> string option) result" where
  "next_char p = (case p of
     None \<Rightarrow> Inl (UB ''read past the terminator'')
   | Some [] \<Rightarrow> Inr (NUL, None)
   | Some (c # s) \<Rightarrow> Inr (c, Some s))"

text \<open>One character of either argument with its URL encoding undone.\<close>

definition qs_unit :: "string option \<Rightarrow> (char \<times> string option) result" where
  "qs_unit p = bind_result (next_char p) (\<lambda>(u, p1).
     let u1 = (if qs_isqschr u then u else NUL)
     in if u1 = CHR ''+'' then Inr (CHR '' '', p1)
        else if u1 = CHR ''%''
        then bind_result (next_char p1) (\<lambda>(unyb, p2).
             bind_result (next_char p2) (\<lambda>(lnyb, p3).
               Inr (if qs_ishex unyb \<and> qs_ishex lnyb then qs_byte unyb lnyb else NUL, p3)))
        else Inr (u1, p1))"

fun qs_strncmp :: "string option \<Rightarrow> string option \<Rightarrow> nat \<Rightarrow> int result" where
  "qs_strncmp s qs 0 = bind_result (next_char qs) (\<lambda>(c, _). Inr (if qs_isqschr c then - 1 else 0))"
| "qs_strncmp s qs (Suc n) =
     bind_result (qs_unit s) (\<lambda>(u1, s'). bind_result (qs_unit qs) (\<lambda>(u2, qs').
       if u1 \<noteq> u2 then Inr (int (code u1) - int (code u2))
       else if u1 = NUL then Inr 0
       else qs_strncmp s' qs' n))"

subsection \<open>Decoding in place\<close>

text \<open>A store into the buffer; the one past its end hits the terminator, which is NUL already.\<close>

definition bufset :: "string \<Rightarrow> nat \<Rightarrow> char \<Rightarrow> string" where
  "bufset b i c = (if i < length b then b[i := c] else b)"

lemma length_bufset [simp]: "length (bufset b i c) = length b"
  by (simp add: bufset_def)

lemma qs_isqschr_at: "qs_isqschr (at b k) \<Longrightarrow> k < length b"
  by (auto simp: qs_isqschr_def at_def split: if_splits)

function qs_decode_loop :: "string \<Rightarrow> nat \<Rightarrow> nat \<Rightarrow> nat \<Rightarrow> string \<times> nat" where
  "qs_decode_loop b p i j =
     (let c = at b (p + j)
      in if \<not> qs_isqschr c then (bufset b (p + i) NUL, i)
         else if c = CHR ''+'' then qs_decode_loop (bufset b (p + i) (CHR '' '')) p (i + 1) (j + 1)
         else if c = CHR ''%''
         then (if \<not> qs_ishex (at b (p + j + 1)) \<or> \<not> qs_ishex (at b (p + j + 2))
               then (bufset b (p + i) NUL, i)
               else qs_decode_loop (bufset b (p + i) (qs_byte (at b (p + j + 1)) (at b (p + j + 2))))
                      p (i + 1) (j + 3))
         else qs_decode_loop (bufset b (p + i) c) p (i + 1) (j + 1))"
  by pat_completeness auto
termination
  by (relation "measure (\<lambda>(b, p, i, j). length b - (p + j))") (auto dest!: qs_isqschr_at)

declare qs_decode_loop.simps [simp del]

definition qs_decode :: "string \<Rightarrow> nat \<Rightarrow> string \<times> nat" where
  "qs_decode b p = qs_decode_loop b p 0 0"

subsection \<open>Cutting the pairs\<close>

text \<open>The offsets of the pairs from \<open>p\<close> on, at most \<open>n\<close> of them.\<close>

fun qs_pairs :: "nat \<Rightarrow> string \<Rightarrow> nat \<Rightarrow> nat list" where
  "qs_pairs 0 b p = []"
| "qs_pairs (Suc n) b p =
     (let j = strcspn (drop p b) ''&''
      in p # (if at b (p + j) = NUL then [] else qs_pairs n b (p + j + 1)))"

definition qs_decode_pair :: "nat \<Rightarrow> string \<Rightarrow> string" where
  "qs_decode_pair kv b =
     (let sp = kv + strcspn (drop kv b) ''=&#''
      in if at b sp = CHR ''&'' \<or> at b sp = NUL then bufset b sp NUL
         else fst (qs_decode b (sp + 1)))"

definition qs_parse :: "string \<Rightarrow> nat \<Rightarrow> bool \<Rightarrow> string \<times> nat list" where
  "qs_parse qs qs_kv_size parse_url =
     (let start = (if parse_url then strcspn qs ''?#'' else 0)
      in if parse_url \<and> at qs start = NUL then (qs, [])
         else let kvs = qs_pairs qs_kv_size qs (if parse_url then start + 1 else start)
              in (fold qs_decode_pair kvs qs, kvs))"

subsection \<open>The class\<close>

record query_string =
  qurl :: string
  kvp :: "nat list"

definition MAX_KEY_VALUE_PAIRS_COUNT :: nat where "MAX_KEY_VALUE_PAIRS_COUNT = 256"

definition empty_query_string :: query_string where
  "empty_query_string = \<lparr>qurl = [], kvp = []\<rparr>"

definition query_string_of :: "string \<Rightarrow> bool \<Rightarrow> query_string" where
  "query_string_of params is_url =
     (if params = [] then empty_query_string
      else case qs_parse params MAX_KEY_VALUE_PAIRS_COUNT is_url of (b, kvs) \<Rightarrow> \<lparr>qurl = b, kvp = kvs\<rparr>)"

text \<open>The text a stored pointer shows, and the one of the value of a pair.\<close>

definition kv_text :: "query_string \<Rightarrow> nat \<Rightarrow> string" where
  "kv_text q p = c_str (drop p (qurl q))"

definition kv_value :: "query_string \<Rightarrow> nat \<Rightarrow> string" where
  "kv_value q p =
     (let skip = strcspn (drop p (qurl q)) ''=''
      in c_str (drop (p + skip + (if at (qurl q) (p + skip) = CHR ''='' then 1 else 0)) (qurl q)))"

fun qs_k2v :: "query_string \<Rightarrow> string \<Rightarrow> nat list \<Rightarrow> nat \<Rightarrow> string option result" where
  "qs_k2v q key [] n = Inr None"
| "qs_k2v q key (p # ps) n =
     bind_result (qs_strncmp (Some (c_str key)) (Some (drop p (qurl q))) (length (c_str key))) (\<lambda>r.
       if r = 0 then (case n of 0 \<Rightarrow> Inr (Some (kv_value q p)) | Suc k \<Rightarrow> qs_k2v q key ps k)
       else qs_k2v q key ps n)"

definition qs_get :: "query_string \<Rightarrow> string \<Rightarrow> string option result" where
  "qs_get q name = qs_k2v q name (kvp q) 0"

text \<open>The first pair that starts with \<open>name=\<close> is removed, if \<open>get\<close> finds one.\<close>

fun remove_first :: "(nat \<Rightarrow> bool) \<Rightarrow> nat list \<Rightarrow> nat list" where
  "remove_first P [] = []"
| "remove_first P (x # xs) = (if P x then xs else x # remove_first P xs)"

definition qs_pop :: "query_string \<Rightarrow> string \<Rightarrow> (query_string \<times> string option) result" where
  "qs_pop q name = bind_result (qs_get q name) (\<lambda>ret.
     Inr (if ret = None then q
          else q\<lparr>kvp := remove_first (\<lambda>p. is_prefix (name @ ''='') (kv_text q p)) (kvp q)\<rparr>, ret))"

text \<open>\<open>get_list\<close> counts \<open>nth\<close> up until nothing is found; one more than the pairs is enough.\<close>

fun qs_list_loop :: "query_string \<Rightarrow> string \<Rightarrow> nat \<Rightarrow> nat \<Rightarrow> string list result" where
  "qs_list_loop q name_plus count 0 = Inr []"
| "qs_list_loop q name_plus count (Suc fuel) =
     bind_result (qs_k2v q name_plus (kvp q) count) (\<lambda>element. case element of
       None \<Rightarrow> Inr []
     | Some v \<Rightarrow> bind_result (qs_list_loop q name_plus (count + 1) fuel) (\<lambda>vs. Inr (v # vs)))"

definition qs_get_list :: "query_string \<Rightarrow> string \<Rightarrow> bool \<Rightarrow> string list result" where
  "qs_get_list q name use_brackets =
     qs_list_loop q (name @ (if use_brackets then ''[]'' else [])) 0 (length (kvp q) + 1)"

definition qs_pop_list :: "query_string \<Rightarrow> string \<Rightarrow> bool \<Rightarrow> (query_string \<times> string list) result" where
  "qs_pop_list q name use_brackets = bind_result (qs_get_list q name use_brackets) (\<lambda>ret.
     Inr (if ret = [] then q
          else q\<lparr>kvp := filter (\<lambda>p. \<not> (is_prefix name (kv_text q p) \<and>
                   is_prefix (if use_brackets then ''[]='' else ''='') (drop (length name) (kv_text q p)))) (kvp q)\<rparr>,
          ret))"

text \<open>\<open>nth\<close> goes down with every pair that is passed over, below zero as well.\<close>

fun qs_dict_name2kv :: "query_string \<Rightarrow> string \<Rightarrow> nat list \<Rightarrow> int \<Rightarrow> (string \<times> string) option" where
  "qs_dict_name2kv q dict_name [] n = None"
| "qs_dict_name2kv q dict_name (p # ps) n =
     (let s = kv_text q p
      in if \<not> is_prefix (c_str dict_name) s then qs_dict_name2kv q dict_name ps n
         else let to_eq = strcspn s ''=''; skip_to_eq = (if at s to_eq = CHR ''='' then to_eq + 1 else to_eq);
                  to_open = strcspn s ''['';
                  skip_to_brace_open = (if at s to_open = CHR ''['' then to_open + 1 else to_open);
                  skip_to_brace_close = strcspn s '']''
              in if skip_to_brace_open \<le> skip_to_brace_close \<and> 0 < skip_to_brace_open \<and>
                    0 < skip_to_brace_close \<and> n = 0
                 then Some (take (skip_to_brace_close - skip_to_brace_open) (drop skip_to_brace_open s),
                            drop skip_to_eq s)
                 else qs_dict_name2kv q dict_name ps (n - 1))"

text \<open>\<open>insert\<close> into the map keeps the first value of a key.\<close>

fun qs_dict_loop :: "query_string \<Rightarrow> string \<Rightarrow> nat \<Rightarrow> nat \<Rightarrow> (string \<times> string) list \<Rightarrow> (string \<times> string) list" where
  "qs_dict_loop q name count 0 ret = ret"
| "qs_dict_loop q name count (Suc fuel) ret =
     (case qs_dict_name2kv q name (kvp q) (int count) of
        None \<Rightarrow> ret
      | Some (k, v) \<Rightarrow>
          qs_dict_loop q name (count + 1) fuel (if k \<in> fst ` set ret then ret else ret @ [(k, v)]))"

definition qs_get_dict :: "query_string \<Rightarrow> string \<Rightarrow> (string \<times> string) list" where
  "qs_get_dict q name = qs_dict_loop q name 0 (length (kvp q) + 1) []"

definition qs_pop_dict :: "query_string \<Rightarrow> string \<Rightarrow> query_string \<times> (string \<times> string) list" where
  "qs_pop_dict q name =
     (let ret = qs_get_dict q name
      in (if ret = [] then q
          else q\<lparr>kvp := filter (\<lambda>p. \<not> is_prefix (name @ ''['') (kv_text q p)) (kvp q)\<rparr>, ret))"

definition qs_keys :: "query_string \<Rightarrow> string list" where
  "qs_keys q = map (\<lambda>p. takeWhile (\<lambda>c. c \<noteq> CHR ''='') (kv_text q p)) (kvp q)"

subsection \<open>In-place decoding computes the decoded text\<close>

fun url_decode :: "string \<Rightarrow> string" where
  "url_decode [] = []"
| "url_decode (c # s) =
     (if \<not> qs_isqschr c then []
      else if c = CHR ''+'' then CHR '' '' # url_decode s
      else if c = CHR ''%''
      then (if qs_ishex (at s 0) \<and> qs_ishex (at s 1) then qs_byte (at s 0) (at s 1) # url_decode (drop 2 s)
            else [])
      else c # url_decode s)"

fun overlay :: "string \<Rightarrow> nat \<Rightarrow> string \<Rightarrow> string" where
  "overlay b k [] = b"
| "overlay b k (x # xs) = overlay (bufset b k x) (k + 1) xs"

lemma length_overlay [simp]: "length (overlay b k xs) = length b"
  by (induction b k xs rule: overlay.induct) simp_all

lemma drop_bufset: "i < k \<Longrightarrow> drop k (bufset b i c) = drop k b"
  by (simp add: bufset_def)

lemma at_drop: "at (drop k s) i = at s (k + i)"
  by (simp add: at_def less_diff_conv add.commute)

lemma at_bufset: "i < k \<Longrightarrow> at (bufset b i c) k = at b k"
  by (simp add: at_def bufset_def)

lemma drop_at: "k < length b \<Longrightarrow> drop k b = at b k # drop (Suc k) b"
  by (simp add: at_def Cons_nth_drop_Suc)

lemma qs_decode_loop_overlay:
  "i \<le> j \<Longrightarrow> qs_decode_loop b p i j =
     (overlay b (p + i) (url_decode (drop (p + j) b) @ [NUL]), i + length (url_decode (drop (p + j) b)))"
proof (induction b p i j rule: qs_decode_loop.induct)
  case (1 b p i j)
  let ?c = "at b (p + j)"
  show ?case
  proof (cases "qs_isqschr ?c")
    case False
    have "url_decode (drop (p + j) b) = []"
    proof (cases "p + j < length b")
      case True
      with False show ?thesis by (simp add: drop_at)
    qed simp
    with False show ?thesis by (subst qs_decode_loop.simps) (simp add: Let_def)
  next
    case True
    then have lt: "p + j < length b" by (rule qs_isqschr_at)
    have d: "drop (p + j) b = ?c # drop (Suc (p + j)) b" using lt by (rule drop_at)
    have same: "drop (Suc (p + j)) (bufset b (p + i) x) = drop (Suc (p + j)) b"
      "drop (p + j + 3) (bufset b (p + i) x) = drop (p + j + 3) b" for x
      using 1(4) by (auto intro!: drop_bufset)
    consider "?c = CHR ''+''" | "?c = CHR ''%''" | "?c \<noteq> CHR ''+''" "?c \<noteq> CHR ''%''" by blast
    then show ?thesis
    proof cases
      case 1
      then show ?thesis using "1.IH"(1) [OF refl] True "1.prems" d same
        by (subst qs_decode_loop.simps) (simp add: Let_def)
    next
      case 2
      have ats: "at (drop (Suc (p + j)) b) 0 = at b (p + j + 1)" "at (drop (Suc (p + j)) b) (Suc 0) = at b (p + j + 2)"
        by (simp_all add: at_drop)
      have dd: "drop 2 (drop (Suc (p + j)) b) = drop (p + j + 3) b" by (simp add: numeral_eq_Suc)
      from 2 show ?thesis using "1.IH"(2) [OF refl] True "1.prems" d same ats dd
        by (subst qs_decode_loop.simps) (simp add: Let_def add.assoc del: drop_drop)
    next
      case 3
      then show ?thesis using "1.IH"(3) [OF refl] True "1.prems" d same
        by (subst qs_decode_loop.simps) (simp add: Let_def)
    qed
  qed
qed

lemma qs_decode_overlay:
  "qs_decode b p = (overlay b p (url_decode (drop p b) @ [NUL]), length (url_decode (drop p b)))"
  using qs_decode_loop_overlay [of 0 0 b p] by (simp add: qs_decode_def)

subsection \<open>Decoding undoes percent-encoding\<close>

definition hex_digit :: "nat \<Rightarrow> char" where
  "hex_digit n = (if n < 10 then chr (48 + n) else chr (55 + n))"

text \<open>What a client does to a value: letters and digits stay, every other byte is escaped.\<close>

definition unreserved :: "char \<Rightarrow> bool" where
  "unreserved c \<longleftrightarrow> is_digit c \<or> (CHR ''A'' \<le> c \<and> c \<le> CHR ''Z'') \<or> (CHR ''a'' \<le> c \<and> c \<le> CHR ''z'')"

definition percent_encode_char :: "char \<Rightarrow> string" where
  "percent_encode_char c =
     (if unreserved c then [c] else [CHR ''%'', hex_digit (code c div 16), hex_digit (code c mod 16)])"

definition percent_encode :: "string \<Rightarrow> string" where
  "percent_encode s = concat (map percent_encode_char s)"

lemma hex_digit_props:
  assumes "n < 16"
  shows "is_hex (hex_digit n)" "qs_hex2dec (hex_digit n) = n"
proof -
  have c: "code (hex_digit n) = (if n < 10 then 48 + n else 55 + n)"
    using assms by (simp add: hex_digit_def code_chr)
  show "is_hex (hex_digit n)"
    using assms by (simp add: is_hex_def is_digit_code char_le_code c)
  show "qs_hex2dec (hex_digit n) = n"
    using assms by (simp add: qs_hex2dec_def is_digit_code char_le_code c)
qed

lemma hex_digit_qschr: "n < 16 \<Longrightarrow> hex_digit n \<notin> {CHR ''='', CHR ''#'', CHR ''&'', CHR ''?'', NUL}"
  by (auto simp: hex_digit_def chr_eq_CHR split: if_splits)

lemma unreserved_chars: "unreserved c \<Longrightarrow> c \<notin> {CHR ''='', CHR ''#'', CHR ''&'', CHR ''?'', NUL, CHR ''+'', CHR ''%''}"
  by (auto simp: unreserved_def is_digit_code char_le_code)

lemma url_decode_percent: "url_decode (percent_encode_char c @ r) = c # url_decode r"
proof (cases "unreserved c")
  case True
  then show ?thesis using unreserved_chars [of c] by (simp add: percent_encode_char_def qs_isqschr_def)
next
  case False
  have "code c div 16 < 16" using code_less [of c] by (simp del: code_less add: less_mult_imp_div_less)
  moreover have "code c mod 16 < 16" by simp
  moreover have "code c div 16 * 16 + code c mod 16 = code c" by simp
  ultimately show ?thesis using False
    by (simp add: percent_encode_char_def qs_isqschr_def qs_ishex_def hex_digit_props qs_byte_def)
qed

interpretation percent: symbol_codec percent_encode_char url_decode
  by unfold_locales (rule url_decode_percent)

lemma url_decode_encode: "url_decode (percent_encode s) = s"
  unfolding percent_encode_def by (rule percent.dec_all) simp

lemma percent_encode_chars:
  "set (percent_encode s) \<inter> {CHR ''='', CHR ''#'', CHR ''&'', CHR ''?'', NUL} = {}"
proof -
  have "code c div 16 < 16" for c using code_less [of c] by (simp del: code_less add: less_mult_imp_div_less)
  then have "set (percent_encode_char c) \<inter> {CHR ''='', CHR ''#'', CHR ''&'', CHR ''?'', NUL} = {}" for c
    using hex_digit_qschr [of "code c div 16"] hex_digit_qschr [of "code c mod 16"] unreserved_chars [of c]
    by (auto simp: percent_encode_char_def)
  then show ?thesis by (auto simp: percent_encode_def)
qed

subsection \<open>Looking up an encoded value\<close>

lemma strcspn_stop:
  assumes "set xs \<inter> set stop = {}" "NUL \<notin> set xs" "c \<in> set stop \<or> c = NUL"
  shows "strcspn (xs @ c # r) stop = length xs"
  using assms unfolding strcspn_def by (subst takeWhile_append2) auto

lemma strcspn_none:
  assumes "set xs \<inter> set stop = {}" "NUL \<notin> set xs"
  shows "strcspn xs stop = length xs"
proof -
  have "takeWhile (\<lambda>c. c \<notin> set stop \<and> c \<noteq> NUL) xs = xs" using assms by (auto simp: takeWhile_eq_all_conv)
  then show ?thesis unfolding strcspn_def by (rule arg_cong)
qed

text \<open>Keys that need no encoding.\<close>

definition plain_key :: "string \<Rightarrow> bool" where
  "plain_key k \<longleftrightarrow> k \<noteq> [] \<and> list_all unreserved k"

lemma qs_unit_plain: "unreserved c \<Longrightarrow> qs_unit (Some (c # s)) = Inr (c, Some s)"
  using unreserved_chars [of c] by (simp add: qs_unit_def next_char_def qs_isqschr_def)

lemma qs_strncmp_key:
  "list_all unreserved k \<Longrightarrow> qs_strncmp (Some k) (Some (k @ CHR ''='' # r)) (length k) = Inr 0"
proof (induction k)
  case Nil
  show ?case by (simp add: next_char_def qs_isqschr_def)
next
  case (Cons c k)
  then show ?case using unreserved_chars [of c] by (simp add: qs_unit_plain)
qed

lemma overlay_append:
  "k + length xs \<le> length b \<Longrightarrow> overlay b k xs = take k b @ xs @ drop (k + length xs) b"
proof (induction xs arbitrary: b k)
  case (Cons x xs)
  then have "overlay b k (x # xs) = take (k + 1) (bufset b k x) @ xs @ drop (k + 1 + length xs) (bufset b k x)"
    by simp
  also have "take (k + 1) (bufset b k x) = take k b @ [x]"
    using Cons.prems by (simp add: bufset_def take_Suc_conv_app_nth)
  finally show ?case using Cons.prems by (simp add: drop_bufset)
qed simp

lemma overlay_split: "overlay b k (xs @ ys) = overlay (overlay b k xs) (k + length xs) ys"
  by (induction xs arbitrary: b k) simp_all

lemma c_str_append_NUL [simp]: "c_str (s @ NUL # r) = c_str s"
  unfolding c_str_def by (induction s) auto

text \<open>Writing a text and its terminator behind a prefix leaves that text, whether or not it fills the buffer.\<close>

lemma overlay_terminated:
  assumes "length v \<le> length e"
  shows "\<exists>r. overlay (u @ e) (length u) (v @ [NUL]) = u @ r \<and> c_str r = c_str v"
proof -
  let ?b = "u @ v @ drop (length v) e"
  have "overlay (u @ e) (length u) (v @ [NUL]) = bufset ?b (length u + length v) NUL"
    using assms overlay_append [of "length u" v "u @ e"] by (simp add: overlay_split)
  moreover have "\<exists>r. bufset ?b (length u + length v) NUL = u @ r \<and> c_str r = c_str v"
  proof (cases "length v = length e")
    case True
    then have "bufset ?b (length u + length v) NUL = u @ v" by (simp add: bufset_def)
    then show ?thesis by blast
  next
    case False
    with assms have "drop (length v) e \<noteq> []" by simp
    then obtain x xs where "drop (length v) e = x # xs" by (cases "drop (length v) e") auto
    then have "bufset ?b (length u + length v) NUL = u @ v @ NUL # xs"
      by (simp add: bufset_def list_update_append)
    then show ?thesis by auto
  qed
  ultimately show ?thesis by simp
qed

lemma length_percent_encode: "length s \<le> length (percent_encode s)"
  unfolding percent_encode_def by (induction s) (auto simp: percent_encode_char_def)

lemma qs_decode_pair_value:
  assumes "set key \<inter> {CHR ''='', CHR ''#'', CHR ''&'', NUL} = {}"
  shows "\<exists>r. qs_decode_pair (length u) (u @ key @ CHR ''='' # percent_encode v) = u @ key @ CHR ''='' # r
    \<and> c_str r = c_str v"
proof -
  let ?e = "percent_encode v"
  define u' where "u' = u @ key @ [CHR ''='']"
  have "strcspn (drop (length u) (u @ key @ CHR ''='' # ?e)) ''=&#'' = length key"
    using assms strcspn_stop [of key "''=&#''" "CHR ''=''" ?e] by auto
  moreover have "at (u @ key @ CHR ''='' # ?e) (length u + length key) = CHR ''=''"
    by (simp add: at_def nth_append)
  ultimately have "qs_decode_pair (length u) (u @ key @ CHR ''='' # ?e) = fst (qs_decode (u' @ ?e) (length u'))"
    by (simp only: qs_decode_pair_def Let_def) (simp add: u'_def)
  also have "\<dots> = overlay (u' @ ?e) (length u') (v @ [NUL])"
    by (simp add: qs_decode_overlay url_decode_encode)
  finally show ?thesis
    using overlay_terminated [OF length_percent_encode, of u' v] by (auto simp: u'_def)
qed

lemma kv_value_key:
  assumes "set key \<inter> {CHR ''='', NUL} = {}"
  shows "kv_value \<lparr>qurl = u @ key @ CHR ''='' # r, kvp = ps\<rparr> (length u) = c_str r"
proof -
  have "strcspn (drop (length u) (u @ key @ CHR ''='' # r)) ''='' = length key"
    using assms strcspn_stop [of key "''=''" "CHR ''=''" r] by auto
  moreover have "at (u @ key @ CHR ''='' # r) (length u + length key) = CHR ''=''"
    by (simp add: at_def nth_append)
  ultimately show ?thesis by (simp only: kv_value_def query_string.simps Let_def) simp
qed

theorem qs_get_single:
  assumes "plain_key key" "set path \<inter> {CHR ''?'', CHR ''#'', NUL} = {}"
  shows "qs_get (query_string_of (path @ CHR ''?'' # key @ CHR ''='' # percent_encode v) True) key
    = Inr (Some (c_str v))"
proof -
  let ?e = "percent_encode v"
  define u where "u = path @ ''?''"
  let ?url = "u @ key @ CHR ''='' # ?e"
  have key: "list_all unreserved key" "set key \<inter> {CHR ''='', CHR ''#'', CHR ''&'', CHR ''?'', NUL} = {}"
    using assms(1) unreserved_chars by (auto simp: plain_key_def list_all_iff)
  have start: "strcspn ?url ''?#'' = length path" "at ?url (length path) = CHR ''?''"
    using assms(2) strcspn_stop [of path "''?#''" "CHR ''?''" "key @ CHR ''='' # ?e"]
    by (auto simp: u_def at_def nth_append)
  have "strcspn (drop (length u) ?url) ''&'' = length (key @ CHR ''='' # ?e)"
    using key percent_encode_chars [of v] strcspn_none [of "key @ CHR ''='' # ?e" "''&''"] by auto
  moreover have "at ?url (length u + length (key @ CHR ''='' # ?e)) = NUL" by (simp add: at_def)
  ultimately have pairs: "qs_pairs 256 ?url (length u) = [length u]"
    by (simp only: numeral_eq_Suc qs_pairs.simps Let_def) simp
  obtain r where r: "qs_decode_pair (length u) ?url = u @ key @ CHR ''='' # r" "c_str r = c_str v"
    using qs_decode_pair_value [of key u v] key by auto
  have "query_string_of ?url True = \<lparr>qurl = u @ key @ CHR ''='' # r, kvp = [length u]\<rparr>"
    using start pairs r(1)
    by (simp add: query_string_of_def qs_parse_def MAX_KEY_VALUE_PAIRS_COUNT_def Let_def u_def)
  moreover have "qs_strncmp (Some (c_str key)) (Some (key @ CHR ''='' # r)) (length (c_str key)) = Inr 0"
    using qs_strncmp_key [OF key(1), of r] key by (simp add: c_str_no_NUL)
  ultimately have "qs_get (query_string_of ?url True) key = Inr (Some (c_str r))"
    using kv_value_key [of key u r "[length u]"] key by (simp add: qs_get_def)
  with r(2) show ?thesis by (simp add: u_def)
qed

subsection \<open>The list loop ends\<close>

lemma qs_k2v_bound: "qs_k2v q key ps n = Inr (Some v) \<Longrightarrow> n < length ps"
proof (induction ps arbitrary: n)
  case (Cons p ps)
  then show ?case by (auto simp: bind_result_eq_Inr split: if_splits nat.splits)
      (use Cons.IH less_SucI in blast)+
qed simp

lemma qs_list_loop_fuel:
  "length (kvp q) \<le> count + fuel \<Longrightarrow> qs_list_loop q k count (Suc fuel) = qs_list_loop q k count (Suc (Suc fuel))"
proof (induction fuel arbitrary: count)
  case 0
  then have "qs_k2v q k (kvp q) count \<noteq> Inr (Some v)" for v using qs_k2v_bound by fastforce
  then show ?case
    by (cases "qs_k2v q k (kvp q) count") (auto split: option.splits)
next
  case (Suc fuel)
  have "qs_list_loop q k (count + 1) (Suc fuel) = qs_list_loop q k (count + 1) (Suc (Suc fuel))"
    by (rule Suc.IH) (use Suc.prems in simp)
  then show ?case
    by (subst qs_list_loop.simps(2), subst (2) qs_list_loop.simps(2)) (simp only:)
qed

text \<open>A percent sign as the last character of the URL makes the comparison read past the terminator.\<close>

lemma qs_strncmp_over_read: "qs_strncmp (Some (c # s)) (Some ''%'') (Suc n) = Inl (UB ''read past the terminator'')
  \<or> qs_unit (Some (c # s)) = Inl (UB ''read past the terminator'')"
  by (cases "qs_unit (Some (c # s))")
    (auto simp: qs_unit_def next_char_def qs_isqschr_def Let_def split: if_splits list.splits)

end
