(* ===== verification/Http.thy ===== *)
theory Http
  imports Prelude Numbers Query_String
begin

text \<open>
  HTTP vocabulary of the framework: request methods and their names (\<open>crow/common.h\<close>), the
  case-insensitive header multimap (\<open>crow/ci_map.h\<close>), requests (\<open>crow/http_request.h\<close>) and
  responses (\<open>crow/http_response.h\<close>) with the completion protocol of \<open>response::end\<close>.
\<close>

subsection \<open>Methods\<close>

datatype HTTPMethod =
  Delete | Get | Head | Post | Put | Connect | Options | Trace | Patch | Purge | Copy | Lock |
  MkCol | Move | Propfind | Proppatch | Search | Unlock | Bind | Rebind | Unbind | Acl |
  Report | MkActivity | Checkout | Merge | MSearch | Notify | Subscribe | Unsubscribe |
  MkCalendar | Link | Unlink | Source

fun method_num :: "HTTPMethod \<Rightarrow> nat" where
  "method_num Delete = 0"
| "method_num Get = 1"
| "method_num Head = 2"
| "method_num Post = 3"
| "method_num Put = 4"
| "method_num Connect = 5"
| "method_num Options = 6"
| "method_num Trace = 7"
| "method_num Patch = 8"
| "method_num Purge = 9"
| "method_num Copy = 10"
| "method_num Lock = 11"
| "method_num MkCol = 12"
| "method_num Move = 13"
| "method_num Propfind = 14"
| "method_num Proppatch = 15"
| "method_num Search = 16"
| "method_num Unlock = 17"
| "method_num Bind = 18"
| "method_num Rebind = 19"
| "method_num Unbind = 20"
| "method_num Acl = 21"
| "method_num Report = 22"
| "method_num MkActivity = 23"
| "method_num Checkout = 24"
| "method_num Merge = 25"
| "method_num MSearch = 26"
| "method_num Notify = 27"
| "method_num Subscribe = 28"
| "method_num Unsubscribe = 29"
| "method_num MkCalendar = 30"
| "method_num Link = 31"
| "method_num Unlink = 32"
| "method_num Source = 33"

definition method_strings :: "string list" where
  "method_strings =
    [''DELETE'', ''GET'', ''HEAD'', ''POST'', ''PUT'', ''CONNECT'', ''OPTIONS'', ''TRACE'',
     ''PATCH'', ''PURGE'', ''COPY'', ''LOCK'', ''MKCOL'', ''MOVE'', ''PROPFIND'',
     ''PROPPATCH'', ''SEARCH'', ''UNLOCK'', ''BIND'', ''REBIND'', ''UNBIND'', ''ACL'',
     ''REPORT'', ''MKACTIVITY'', ''CHECKOUT'', ''MERGE'', ''M-SEARCH'', ''NOTIFY'',
     ''SUBSCRIBE'', ''UNSUBSCRIBE'', ''MKCALENDAR'', ''LINK'', ''UNLINK'', ''SOURCE'']"

definition method_table :: "(string \<times> HTTPMethod) list" where
  "method_table =
    [(''GET'', Get), (''DELETE'', Delete), (''HEAD'', Head), (''POST'', Post), (''PUT'', Put),
     (''OPTIONS'', Options), (''CONNECT'', Connect), (''TRACE'', Trace), (''PATCH'', Patch),
     (''PURGE'', Purge), (''COPY'', Copy), (''LOCK'', Lock), (''MKCOL'', MkCol),
     (''MOVE'', Move), (''PROPFIND'', Propfind), (''PROPPATCH'', Proppatch),
     (''SEARCH'', Search), (''UNLOCK'', Unlock), (''BIND'', Bind), (''REBIND'', Rebind),
     (''UNBIND'', Unbind), (''ACL'', Acl), (''REPORT'', Report), (''MKACTIVITY'', MkActivity),
     (''CHECKOUT'', Checkout), (''MERGE'', Merge), (''MSEARCH'', MSearch),
     (''NOTIFY'', Notify), (''SUBSCRIBE'', Subscribe), (''UNSUBSCRIBE'', Unsubscribe),
     (''MKCALENDAR'', MkCalendar), (''LINK'', Link), (''UNLINK'', Unlink), (''SOURCE'', Source)]"

definition internal_method_count :: nat where "internal_method_count = 34"

definition method_name :: "nat \<Rightarrow> string" where
  "method_name method =
     (if method < internal_method_count then method_strings ! method else ''invalid'')"

text \<open>\<open>is_equ_p\<close> compares two C strings up to \<open>n\<close> characters; it is false where one ends early.\<close>

fun is_equ_p :: "string \<Rightarrow> string \<Rightarrow> nat \<Rightarrow> bool" where
  "is_equ_p a b n =
     (if cur a = NUL \<and> cur b = NUL \<and> n = 0 then True
      else if cur a = NUL \<or> cur b = NUL then False
      else if n = 0 then True
      else if cur a \<noteq> cur b then False
      else is_equ_p (tl a) (tl b) (n - 1))"

declare is_equ_p.simps [simp del]

definition method_from_string :: "string \<Rightarrow> HTTPMethod result" where
  "method_from_string str =
     (case find (\<lambda>(s, m). is_equ_p str s (length s)) method_table of
        Some (s, m) \<Rightarrow> Inr m
      | None \<Rightarrow> Inl (RuntimeError ''invalid http method''))"

instantiation HTTPMethod :: linorder
begin

definition less_eq_HTTPMethod :: "HTTPMethod \<Rightarrow> HTTPMethod \<Rightarrow> bool" where
  "less_eq_HTTPMethod x y \<longleftrightarrow> method_num x \<le> method_num y"

definition less_HTTPMethod :: "HTTPMethod \<Rightarrow> HTTPMethod \<Rightarrow> bool" where
  "less_HTTPMethod x y \<longleftrightarrow> method_num x < method_num y"

lemma all_methods_num: "map method_num (map snd method_table) = [1, 0, 2, 3, 4, 6, 5] @ [7..<34]"
  by (simp add: method_table_def upt_rec)

lemma in_method_table: "m \<in> snd ` set method_table"
  by (cases m) (simp_all add: method_table_def)

lemma method_num_inject: "method_num x = method_num y \<longleftrightarrow> x = y"
proof
  have d: "distinct (map method_num (map snd method_table))"
    by (simp only: all_methods_num) simp
  then have "inj_on method_num (set (map snd method_table))" by (simp only: distinct_map)
  then have "inj_on method_num (snd ` set method_table)" by simp
  moreover assume "method_num x = method_num y"
  ultimately show "x = y" using in_method_table by (meson inj_onD)
qed simp

instance
  by standard (auto simp: less_eq_HTTPMethod_def less_HTTPMethod_def method_num_inject)

end

lemma method_num_less: "method_num m < internal_method_count"
  by (cases m) (simp_all add: internal_method_count_def)

lemma is_equ_p_iff: "NUL \<notin> set b \<Longrightarrow> is_equ_p a b (length b) \<longleftrightarrow> c_str a = b"
proof (induction b arbitrary: a)
  case Nil
  then show ?case by (cases a) (auto simp: is_equ_p.simps [of _ "[]"] c_str_def)
next
  case (Cons c b)
  then show ?case
    by (cases a) (auto simp: is_equ_p.simps [of _ "c # b"] c_str_def)
qed

subsection \<open>Headers\<close>

definition string_equals :: "string \<Rightarrow> string \<Rightarrow> bool \<Rightarrow> bool" where
  "string_equals l r case_sensitive \<longleftrightarrow>
     length l = length r \<and>
     list_all (\<lambda>i. if case_sensitive then l ! i = r ! i else c_toupper (l ! i) = c_toupper (r ! i))
       [0..<length l]"

definition ci_key_eq :: "string \<Rightarrow> string \<Rightarrow> bool" where
  "ci_key_eq l r = string_equals l r False"

lemma ci_key_eq_map: "ci_key_eq l r \<longleftrightarrow> map c_toupper l = map c_toupper r"
proof
  assume "ci_key_eq l r"
  then show "map c_toupper l = map c_toupper r"
    by (intro nth_equalityI) (simp_all add: ci_key_eq_def string_equals_def list_all_iff)
next
  assume eq: "map c_toupper l = map c_toupper r"
  then have len: "length l = length r" by (rule map_eq_imp_length_eq)
  have "c_toupper (l ! i) = c_toupper (r ! i)" if "i < length l" for i
    using arg_cong [OF eq, of "\<lambda>xs. xs ! i"] that len by simp
  with len show "ci_key_eq l r" by (simp add: ci_key_eq_def string_equals_def list_all_iff)
qed

text \<open>
  The multimap as a list, every new entry in front: among entries with equal keys this is the
  order in which the GNU library, which the image is built with, keeps and finds them; the order
  across different keys carries no meaning.
\<close>

type_synonym ci_map = "(string \<times> string) list"

definition ci_emplace :: "string \<Rightarrow> string \<Rightarrow> ci_map \<Rightarrow> ci_map" where
  "ci_emplace k v m = (k, v) # m"

definition ci_erase :: "string \<Rightarrow> ci_map \<Rightarrow> ci_map" where
  "ci_erase k m = filter (\<lambda>kv. \<not> ci_key_eq (fst kv) k) m"

definition ci_count :: "string \<Rightarrow> ci_map \<Rightarrow> nat" where
  "ci_count k m = length (filter (\<lambda>kv. ci_key_eq (fst kv) k) m)"

definition ci_find :: "string \<Rightarrow> ci_map \<Rightarrow> string option" where
  "ci_find k m = map_option snd (find (\<lambda>kv. ci_key_eq (fst kv) k) m)"

text \<open>\<open>crow::get_header_value\<close>: the empty string when there is no such header.\<close>

definition get_header_value :: "ci_map \<Rightarrow> string \<Rightarrow> string" where
  "get_header_value headers key =
     (if ci_count key headers \<noteq> 0
      then (case ci_find key headers of Some v \<Rightarrow> v | None \<Rightarrow> [])
      else [])"

text \<open>What the code relies on of its header container.\<close>

locale header_container =
  fixes emplace :: "'k \<Rightarrow> 'v \<Rightarrow> 'm \<Rightarrow> 'm"
    and erase :: "'k \<Rightarrow> 'm \<Rightarrow> 'm"
    and count :: "'k \<Rightarrow> 'm \<Rightarrow> nat"
    and lookup :: "'k \<Rightarrow> 'm \<Rightarrow> 'v option"
    and keq :: "'k \<Rightarrow> 'k \<Rightarrow> bool"
  assumes keq_refl: "keq k k"
    and keq_sym: "keq k l \<Longrightarrow> keq l k"
    and keq_trans: "keq k l \<Longrightarrow> keq l j \<Longrightarrow> keq k j"
    and count_emplace: "count k (emplace l v m) = (if keq l k then Suc (count k m) else count k m)"
    and count_erase: "count k (erase l m) = (if keq l k then 0 else count k m)"
    and lookup_emplace_other: "\<not> keq l k \<Longrightarrow> lookup k (emplace l v m) = lookup k m"
    and lookup_emplace_new: "count k m = 0 \<Longrightarrow> keq l k \<Longrightarrow> lookup k (emplace l v m) = Some v"
    and lookup_erase_other: "\<not> keq l k \<Longrightarrow> lookup k (erase l m) = lookup k m"
    and lookup_None: "lookup k m = None \<longleftrightarrow> count k m = 0"
begin

definition assign :: "'k \<Rightarrow> 'v \<Rightarrow> 'm \<Rightarrow> 'm" where
  "assign k v m = emplace k v (erase k m)"

lemma count_assign: "count k (assign l v m) = (if keq l k then 1 else count k m)"
  by (auto simp: assign_def count_emplace count_erase)

lemma lookup_assign: "lookup k (assign l v m) = (if keq l k then Some v else lookup k m)"
  by (auto simp: assign_def lookup_emplace_new lookup_emplace_other lookup_erase_other count_erase)

lemma assign_assign:
  assumes "keq k l"
  shows "lookup j (assign l w (assign k v m)) = lookup j (assign l w m)"
proof (cases "keq l j")
  case False
  then have "\<not> keq k j" using assms keq_sym keq_trans by blast
  with False show ?thesis by (simp add: lookup_assign)
qed (simp add: lookup_assign)

end

interpretation ci: header_container ci_emplace ci_erase ci_count ci_find ci_key_eq
proof
  show "ci_count k (ci_erase l m) = (if ci_key_eq l k then 0 else ci_count k m)" for k l m
    by (induction m) (auto simp: ci_count_def ci_erase_def ci_key_eq_map)
  show "ci_find k (ci_erase l m) = ci_find k m" if "\<not> ci_key_eq l k" for k l m
    using that by (induction m) (auto simp: ci_find_def ci_erase_def ci_key_eq_map)
  show "ci_find k m = None \<longleftrightarrow> ci_count k m = 0" for k m
    by (auto simp: ci_find_def ci_count_def find_None_iff filter_empty_conv)
qed (auto simp: ci_emplace_def ci_count_def ci_find_def ci_key_eq_map)

lemma get_header_value_find: "get_header_value m k = (case ci_find k m of Some v \<Rightarrow> v | None \<Rightarrow> [])"
  using ci.lookup_None [of k m] by (auto simp: get_header_value_def)

subsection \<open>Requests\<close>

record request =
  req_method :: nat
  raw_url :: string
  url :: string
  url_params :: query_string
  req_headers :: ci_map
  req_body :: string
  remote_ip_address :: string
  http_ver_major :: nat
  http_ver_minor :: nat
  keep_alive :: bool
  close_connection :: bool
  upgrade :: bool

definition empty_request :: request where
  "empty_request = \<lparr>req_method = method_num Get, raw_url = [], url = [], url_params = empty_query_string, req_headers = [],
     req_body = [], remote_ip_address = [], http_ver_major = 0, http_ver_minor = 0, keep_alive = False,
     close_connection = False, upgrade = False\<rparr>"

definition req_add_header :: "string \<Rightarrow> string \<Rightarrow> request \<Rightarrow> request" where
  "req_add_header k v req = req\<lparr>req_headers := ci_emplace k v (req_headers req)\<rparr>"

definition req_get_header_value :: "request \<Rightarrow> string \<Rightarrow> string" where
  "req_get_header_value req key = get_header_value (req_headers req) key"

definition check_version :: "request \<Rightarrow> nat \<Rightarrow> nat \<Rightarrow> bool" where
  "check_version req major minor \<longleftrightarrow> http_ver_major req = major \<and> http_ver_minor req = minor"

subsection \<open>Responses\<close>

text \<open>
  \<open>complete_request_handler\<close> says whether the callback is installed; the connection that installs
  it supplies what it does. The \<open>is_alive_helper\<close> is only asked for the state of the socket.
\<close>

record response =
  rcode :: int
  body :: string
  headers :: ci_map
  skip_body :: bool
  manual_length_header :: bool
  completed :: bool
  complete_request_handler :: bool
  file_path :: string
  stat_result :: int

definition new_response :: response where
  "new_response = \<lparr>rcode = 200, body = [], headers = [], skip_body = False, manual_length_header = False,
     completed = False, complete_request_handler = False, file_path = [], stat_result = 0\<rparr>"

definition set_header :: "string \<Rightarrow> string \<Rightarrow> response \<Rightarrow> response" where
  "set_header key value res = res\<lparr>headers := ci_emplace key value (ci_erase key (headers res))\<rparr>"

definition add_header :: "string \<Rightarrow> string \<Rightarrow> response \<Rightarrow> response" where
  "add_header key value res = res\<lparr>headers := ci_emplace key value (headers res)\<rparr>"

definition res_get_header_value :: "response \<Rightarrow> string \<Rightarrow> string" where
  "res_get_header_value res key = get_header_value (headers res) key"

definition response_code :: "int \<Rightarrow> response" where
  "response_code c = new_response\<lparr>rcode := c\<rparr>"

definition response_body :: "string \<Rightarrow> response" where
  "response_body b = new_response\<lparr>body := b\<rparr>"

definition response_code_body :: "int \<Rightarrow> string \<Rightarrow> response" where
  "response_code_body c b = new_response\<lparr>rcode := c, body := b\<rparr>"

text \<open>\<open>response(int, returnable)\<close>: the serialized value and its content type.\<close>

definition response_returnable :: "int \<Rightarrow> string \<Rightarrow> string \<Rightarrow> response" where
  "response_returnable c content_type text =
     set_header ''Content-Type'' content_type (new_response\<lparr>rcode := c, body := text\<rparr>)"

text \<open>
  \<open>operator=(response&&)\<close> moves the payload and the completion flag; the flags \<open>skip_body\<close> and
  \<open>manual_length_header\<close> and the callbacks of the target stay.
\<close>

definition response_assign :: "response \<Rightarrow> response \<Rightarrow> response" where
  "response_assign res r = res\<lparr>body := body r, rcode := rcode r, headers := headers r,
     completed := completed r, file_path := file_path r, stat_result := stat_result r\<rparr>"

definition response_clear :: "response \<Rightarrow> response" where
  "response_clear res = res\<lparr>body := [], rcode := 200, headers := [], completed := False, file_path := []\<rparr>"

definition redirect :: "string \<Rightarrow> response \<Rightarrow> response" where
  "redirect location res = set_header ''Location'' location (res\<lparr>rcode := 307\<rparr>)"

definition redirect_perm :: "string \<Rightarrow> response \<Rightarrow> response" where
  "redirect_perm location res = set_header ''Location'' location (res\<lparr>rcode := 308\<rparr>)"

definition moved :: "string \<Rightarrow> response \<Rightarrow> response" where
  "moved location res = set_header ''Location'' location (res\<lparr>rcode := 302\<rparr>)"

definition moved_perm :: "string \<Rightarrow> response \<Rightarrow> response" where
  "moved_perm location res = set_header ''Location'' location (res\<lparr>rcode := 301\<rparr>)"

definition res_write :: "string \<Rightarrow> response \<Rightarrow> response" where
  "res_write body_part res = res\<lparr>body := body res @ body_part\<rparr>"

text \<open>
  \<open>end()\<close>: the callback \<open>k\<close> of the connection acts on the rest of the state \<open>w\<close> and the response,
  and runs only if it is installed.
\<close>

definition response_end :: "('w \<times> response \<Rightarrow> 'w \<times> response) \<Rightarrow> 'w \<times> response \<Rightarrow> 'w \<times> response" where
  "response_end k wr = (case wr of (w, res) \<Rightarrow>
     if completed res then (w, res)
     else let res1 = res\<lparr>completed := True\<rparr>;
              res2 = (if skip_body res1
                      then (set_header ''Content-Length'' (nat_to_string (length (body res1))) res1)
                             \<lparr>body := [], manual_length_header := True\<rparr>
                      else res1)
          in if complete_request_handler res2
             then (case k (w, res2) of (w', res3) \<Rightarrow>
                     (w', res3\<lparr>manual_length_header := False, skip_body := False\<rparr>))
             else (w, res2))"

definition response_end_with ::
  "('w \<times> response \<Rightarrow> 'w \<times> response) \<Rightarrow> string \<Rightarrow> 'w \<times> response \<Rightarrow> 'w \<times> response" where
  "response_end_with k body_part wr = response_end k (fst wr, res_write body_part (snd wr))"

definition is_static_type :: "response \<Rightarrow> bool" where
  "is_static_type res \<longleftrightarrow> file_path res \<noteq> []"

subsubsection \<open>Content types\<close>

definition valid_parent_types :: "string list" where
  "valid_parent_types = [''application/'', ''audio/'', ''font/'', ''example/'', ''image/'', ''message/'',
     ''model/'', ''multipart/'', ''text/'', ''video/'']"

definition validate_mime_type :: "string \<Rightarrow> bool" where
  "validate_mime_type candidate \<longleftrightarrow>
     list_ex (\<lambda>parent. length parent < length candidate \<and> is_prefix parent (c_str candidate)) valid_parent_types"

text \<open>\<open>mime_types\<close> is the generated table of file extensions, an argument here.\<close>

definition get_mime_type :: "(string \<Rightarrow> string option) \<Rightarrow> string \<Rightarrow> string" where
  "get_mime_type mime_types contentType = (case mime_types contentType of
     Some t \<Rightarrow> t
   | None \<Rightarrow> if validate_mime_type contentType then contentType else ''text/plain'')"

subsection \<open>Lemmas\<close>

lemma set_header_assign: "headers (set_header k v res) = ci.assign k v (headers res)"
  by (simp add: set_header_def ci.assign_def)

lemma set_header_keeps [simp]:
  "rcode (set_header k v res) = rcode res" "body (set_header k v res) = body res"
  "completed (set_header k v res) = completed res" "skip_body (set_header k v res) = skip_body res"
  "manual_length_header (set_header k v res) = manual_length_header res"
  "complete_request_handler (set_header k v res) = complete_request_handler res"
  "file_path (set_header k v res) = file_path res" "stat_result (set_header k v res) = stat_result res"
  by (simp_all add: set_header_def)

lemma res_get_set_header:
  "res_get_header_value (set_header k v res) k' = (if ci_key_eq k k' then v else res_get_header_value res k')"
  by (simp add: res_get_header_value_def get_header_value_find set_header_assign ci.lookup_assign)

lemma response_end_completed [simp]: "completed res \<Longrightarrow> response_end k (w, res) = (w, res)"
  by (simp add: response_end_def)

lemma response_end_idem:
  "complete_request_handler res = False \<Longrightarrow>
    response_end k (response_end k (w, res)) = response_end k (w, res)"
  by (auto simp: response_end_def Let_def)

lemma method_strings_nth:
  "method_strings ! method_num m = (if m = MSearch then ''M-SEARCH'' else fst (the (find (\<lambda>(s, m'). m' = m) method_table)))"
  by (cases m) (simp_all add: method_strings_def method_table_def)

lemma method_round_trip:
  assumes "m \<noteq> MSearch"
  shows "method_from_string (method_name (method_num m)) = Inr m"
proof -
  have "\<forall>(s, x) \<in> set method_table. NUL \<notin> set s" by (simp add: method_table_def)
  then have "find (\<lambda>(s, x). is_equ_p t s (length s)) method_table
      = find (\<lambda>(s, x). c_str t = s) method_table" for t
    by (intro find_cong refl) (auto simp: is_equ_p_iff)
  with assms show ?thesis
    by (cases m) (simp_all add: method_from_string_def method_name_def internal_method_count_def
        method_strings_def method_table_def c_str_def)
qed

end
