(* ===== verification/Json_Text.thy ===== *)
theory Json_Text
  imports Prelude
begin

text \<open>
  Text of JSON strings (\<open>crow/json.h\<close>): \<open>to_hex\<close> and \<open>escape\<close> of the writer, the string scanner
  \<open>Parser::decode_string\<close> and the in-place \<open>rvalue::unescape\<close> of the reader. The scanner works on
  the characters from the read pointer to the terminating NUL; it only writes behind that pointer
  (the closing quote and the flag byte before the text), so the remaining input is enough state.
  The lemmas show that scanning and unescaping an escaped string gives the string back, for every
  byte string, through the locale of self-delimiting encodings.
\<close>

subsection \<open>The writer's escaping\<close>

definition to_hex :: "nat \<Rightarrow> char" where
  "to_hex c = (let c = c mod 16 in if c < 10 then chr (48 + c) else chr (97 + c - 10))"

definition escape_char :: "char \<Rightarrow> string" where
  "escape_char c =
     (if c = QUOTE then [BSLASH, QUOTE]
      else if c = BSLASH then [BSLASH, BSLASH]
      else if c = LF then [BSLASH, CHR ''n'']
      else if c = BS then [BSLASH, CHR ''b'']
      else if c = FF then [BSLASH, CHR ''f'']
      else if c = CR then [BSLASH, CHR ''r'']
      else if c = TAB then [BSLASH, CHR ''t'']
      else if 0 \<le> schar c \<and> schar c < 0x20
      then [BSLASH, CHR ''u'', CHR ''0'', CHR ''0'', to_hex (code c div 16), to_hex (code c mod 16)]
      else [c])"

text \<open>The loop appends to the output buffer \<open>ret\<close>.\<close>

fun escape_into :: "string \<Rightarrow> string \<Rightarrow> string" where
  "escape_into [] ret = ret"
| "escape_into (c # str) ret = escape_into str (ret @ escape_char c)"

definition escape :: "string \<Rightarrow> string" where
  "escape str = escape_into str []"

lemma escape_into_append: "escape_into str ret = ret @ concat (map escape_char str)"
  by (induction str arbitrary: ret) simp_all

lemma escape_concat: "escape str = concat (map escape_char str)"
  by (simp add: escape_def escape_into_append)

subsection \<open>The reader's scanner\<close>

text \<open>
  The loop of \<open>decode_string\<close> after the opening quote: the raw text up to the closing quote,
  whether it holds an escape (the flag stored before the text), and the input after the quote.
  \<open>None\<close> is the empty \<open>rvalue\<close>: an unknown escape, a malformed \<open>\u\<close> escape, or the end.
\<close>

fun scan_string :: "bool \<Rightarrow> string \<Rightarrow> (string \<times> bool \<times> string) option" where
  "scan_string esc [] = None"
| "scan_string esc (c # s) =
     (if c \<noteq> QUOTE \<and> c \<noteq> BSLASH \<and> c \<noteq> NUL
      then map_option (\<lambda>(raw, r). (c # raw, r)) (scan_string esc s)
      else if c = QUOTE then Some ([], esc, s)
      else if c = BSLASH
      then (if cur s = CHR ''u''
            then (if is_hex (at s 1) \<and> is_hex (at s 2) \<and> is_hex (at s 3) \<and> is_hex (at s 4)
                  then map_option (\<lambda>(raw, r). (c # take 5 s @ raw, r)) (scan_string True (drop 5 s))
                  else None)
            else if cur s \<in> set [QUOTE, BSLASH, CHR ''/'', CHR ''b'', CHR ''f'', CHR ''n'', CHR ''r'', CHR ''t'']
            then map_option (\<lambda>(raw, r). (c # cur s # raw, r)) (scan_string True (tl s))
            else None)
      else None)"

definition decode_string :: "string \<Rightarrow> (string \<times> bool \<times> string) option" where
  "decode_string s = (if cur s \<noteq> QUOTE then None else scan_string False (tl s))"

subsection \<open>Unescaping\<close>

definition from_hex :: "char \<Rightarrow> int" where
  "from_hex c = (if schar CHR ''a'' \<le> schar c then schar c - schar CHR ''a'' + 10
     else if schar CHR ''A'' \<le> schar c then schar c - schar CHR ''A'' + 10
     else schar c - schar CHR ''0'')"

definition utf8_bytes :: "nat \<Rightarrow> string" where
  "utf8_bytes n =
     (if 0x800 \<le> n
      then [chr (0xE0 OR drop_bit 12 n), chr (0x80 OR (drop_bit 6 n AND 0x3F)), chr (0x80 OR (n AND 0x3F))]
      else if 0x80 \<le> n then [chr (0xC0 OR drop_bit 6 n), chr (0x80 OR (n AND 0x3F))]
      else [chr n])"

definition hex4 :: "string \<Rightarrow> nat" where
  "hex4 s = nat ((from_hex (at s 1) * 2 ^ 12 + from_hex (at s 2) * 2 ^ 8
                  + from_hex (at s 3) * 2 ^ 4 + from_hex (at s 4)) mod 2 ^ 32)"

text \<open>The raw text as \<open>s()\<close> presents it. \<open>head\<close> runs over the list, \<open>tail\<close> over the result.\<close>

fun unescape :: "string \<Rightarrow> string" where
  "unescape [] = []"
| "unescape (c # s) =
     (if c = BSLASH
      then (if cur s = QUOTE then QUOTE # unescape (tl s)
            else if cur s = BSLASH then BSLASH # unescape (tl s)
            else if cur s = CHR ''/'' then CHR ''/'' # unescape (tl s)
            else if cur s = CHR ''b'' then BS # unescape (tl s)
            else if cur s = CHR ''f'' then FF # unescape (tl s)
            else if cur s = CHR ''n'' then LF # unescape (tl s)
            else if cur s = CHR ''r'' then CR # unescape (tl s)
            else if cur s = CHR ''t'' then TAB # unescape (tl s)
            else if cur s = CHR ''u'' then utf8_bytes (hex4 s) @ unescape (drop 5 s)
            else unescape (tl s))
      else c # unescape s)"

declare unescape.simps(2) [simp del] scan_string.simps(2) [simp del]

subsection \<open>Facts about single characters\<close>

lemma code_chars [simp]:
  "code QUOTE = 34" "code BSLASH = 92" "code NUL = 0"
  by simp_all

lemma schar_small: "0 \<le> schar c \<and> schar c < 0x20 \<longleftrightarrow> code c < 32"
  using code_less [of c] unfolding schar_def by (simp del: code_less)

lemma is_hex_to_hex: "is_hex (to_hex n)"
  by (auto simp: to_hex_def is_hex_def is_digit_code char_le_code code_chr Let_def)

lemma from_hex_to_hex: "from_hex (to_hex n) = int (n mod 16)"
proof -
  have "n mod 16 < 16" by simp
  then show ?thesis
    by (auto simp: to_hex_def from_hex_def schar_def code_chr Let_def)
qed

lemma from_hex_0 [simp]: "from_hex CHR ''0'' = 0"
  by (simp add: from_hex_def schar_def)

lemma hex4_control:
  assumes "code c < 32"
  shows "hex4 (CHR ''u'' # CHR ''0'' # CHR ''0'' # to_hex (code c div 16) # to_hex (code c mod 16) # r) = code c"
proof -
  have "code c div 16 mod 16 * 16 + code c mod 16 = code c"
    using assms by simp
  then have "int (code c div 16 mod 16) * 16 + int (code c mod 16) = int (code c)"
    by (metis of_nat_add of_nat_mult of_nat_numeral)
  with assms show ?thesis
    by (simp add: hex4_def from_hex_to_hex)
qed

lemma utf8_bytes_ascii: "n < 128 \<Longrightarrow> utf8_bytes n = [chr n]"
  by (simp add: utf8_bytes_def)

lemmas escape_char_cases = escape_char_def schar_small

lemma unescape_escape_char: "unescape (escape_char c @ r) = c # unescape r"
proof (cases "code c < 32")
  case True
  then have "c \<noteq> QUOTE" "c \<noteq> BSLASH" by auto
  with True show ?thesis
    by (auto simp: escape_char_cases unescape.simps hex4_control utf8_bytes_ascii)
next
  case False
  then show ?thesis
    by (auto simp: escape_char_cases unescape.simps)
qed

interpretation json_escape: symbol_codec escape_char unescape
  by unfold_locales (rule unescape_escape_char)

lemma unescape_escape: "unescape (escape s) = s"
  unfolding escape_concat by (rule json_escape.dec_all) simp

subsection \<open>Scanning an escaped string\<close>

definition needs_escape :: "char \<Rightarrow> bool" where
  "needs_escape c \<longleftrightarrow> c = QUOTE \<or> c = BSLASH \<or> code c < 32"

lemma scan_escape_char:
  "scan_string e (escape_char c @ r)
     = map_option (\<lambda>(raw, q). (escape_char c @ raw, q)) (scan_string (e \<or> needs_escape c) r)"
proof (cases "code c < 32")
  case True
  then have "c \<noteq> QUOTE" "c \<noteq> BSLASH" by auto
  moreover have "is_hex CHR ''0''" by (simp add: is_hex_def is_digit_code)
  ultimately show ?thesis using True
    by (auto simp: escape_char_cases scan_string.simps needs_escape_def is_hex_to_hex)
next
  case False
  then show ?thesis
    by (auto simp: escape_char_cases scan_string.simps needs_escape_def)
qed

lemma scan_escaped:
  "scan_string e (concat (map escape_char s) @ QUOTE # r)
     = Some (concat (map escape_char s), e \<or> (\<exists>c \<in> set s. needs_escape c), r)"
proof (induction s arbitrary: e)
  case Nil
  then show ?case by (simp add: scan_string.simps)
next
  case (Cons c s)
  have "scan_string e (escape_char c @ concat (map escape_char s) @ QUOTE # r)
      = Some (escape_char c @ concat (map escape_char s),
              (e \<or> needs_escape c) \<or> (\<exists>c \<in> set s. needs_escape c), r)"
    by (simp only: scan_escape_char Cons.IH option.map prod.case)
  then show ?case by simp
qed

lemma decode_string_escape:
  "decode_string (QUOTE # escape s @ QUOTE # r)
     = Some (escape s, (\<exists>c \<in> set s. needs_escape c), r)"
  by (simp add: decode_string_def escape_concat scan_escaped)

lemma escape_char_id: "\<not> needs_escape c \<Longrightarrow> escape_char c = [c]"
  by (auto simp: escape_char_cases needs_escape_def)

lemma escape_id: "\<forall>c \<in> set s. \<not> needs_escape c \<Longrightarrow> escape s = s"
  unfolding escape_concat by (induction s) (simp_all add: escape_char_id)

subsection \<open>Progress and well-formedness of scanned text\<close>

lemma scan_string_split:
  "scan_string e s = Some (raw, e', r) \<Longrightarrow> s = raw @ QUOTE # r"
proof (induction e s arbitrary: raw e' r rule: scan_string.induct)
  case (1 esc)
  then show ?case by simp
next
  case (2 esc c s)
  consider "c \<noteq> QUOTE \<and> c \<noteq> BSLASH \<and> c \<noteq> NUL" | "c = QUOTE" | "c = BSLASH" | "c = NUL" by blast
  then show ?case
  proof cases
    case 1
    with 2 show ?thesis by (auto simp: scan_string.simps)
  next
    case c: 3
    show ?thesis
    proof (cases "cur s = CHR ''u''")
      case True
      with 2 c show ?thesis
        by (auto simp: scan_string.simps split: if_splits) (metis append_take_drop_id)
    next
      case False
      with 2(4) c obtain raw' where raw': "scan_string True (tl s) = Some (raw', e', r)"
        and raw: "raw = c # cur s # raw'" and m: "cur s \<noteq> NUL"
        by (auto simp: scan_string.simps split: if_splits)
      from 2(3) [OF _ _ c False _ raw'] 2(4) c False have "tl s = raw' @ QUOTE # r"
        by (auto simp: scan_string.simps split: if_splits)
      with raw m show ?thesis by (cases s) auto
    qed
  qed (use 2(4) in \<open>auto simp: scan_string.simps\<close>)
qed

lemma decode_string_split:
  "decode_string s = Some (raw, e, r) \<Longrightarrow> s = QUOTE # raw @ QUOTE # r"
  by (cases s) (auto simp: decode_string_def dest: scan_string_split split: if_splits)

end
