(* ===== verification/Json_Number.thy ===== *)
theory Json_Number
  imports Prelude
begin

text \<open>
  The number scanner of the JSON reader, \<open>Parser::decode_number\<close> of \<open>crow/json.h\<close>: a state
  machine driven by transition tables written as string constants, with a shortcut that skips a
  run of digits after a nonzero digit. The lemmas show that the shortcut changes nothing (it
  computes what the plain machine computes one character at a time), which texts are accepted
  (the grammar of the machine, more than JSON in one place and less in another), and that every
  integer printed by \<open>std::to_string\<close> is scanned back whole.
\<close>

datatype number_state =
  Minus | AfterMinus | ZeroFirst | Digits | DigitsAfterPoints | E | DigitsAfterE | Invalid

fun state_num :: "number_state \<Rightarrow> nat" where
  "state_num Minus = 0"
| "state_num AfterMinus = 1"
| "state_num ZeroFirst = 2"
| "state_num Digits = 3"
| "state_num DigitsAfterPoints = 4"
| "state_num E = 5"
| "state_num DigitsAfterE = 6"
| "state_num Invalid = 7"

definition number_states :: "number_state list" where
  "number_states = [Minus, AfterMinus, ZeroFirst, Digits, DigitsAfterPoints, E, DigitsAfterE, Invalid]"

text \<open>\<open>static_cast<NumberParsingState>("..."[state])\<close>: the table is a string of eight bytes, the
  last of them the terminator.\<close>

definition table :: "nat list \<Rightarrow> number_state \<Rightarrow> number_state" where
  "table t st = number_states ! ((t @ [0]) ! state_num st)"

definition step_zero :: "number_state \<Rightarrow> number_state" where
  "step_zero = table [2, 2, 7, 3, 4, 6, 6]"
definition step_digit :: "number_state \<Rightarrow> number_state" where
  "step_digit = table [3, 3, 7, 3, 4, 6, 6]"
definition step_point :: "number_state \<Rightarrow> number_state" where
  "step_point = table [7, 7, 4, 4, 7, 7, 7]"
definition step_minus :: "number_state \<Rightarrow> number_state" where
  "step_minus = table [1, 7, 7, 7, 7, 6, 7]"
definition step_plus :: "number_state \<Rightarrow> number_state" where
  "step_plus = table [7, 7, 7, 7, 7, 6, 7]"
definition step_e :: "number_state \<Rightarrow> number_state" where
  "step_e = table [7, 7, 7, 5, 5, 7, 7]"

lemmas number_steps = step_zero_def step_digit_def step_point_def step_minus_def step_plus_def
  step_e_def table_def number_states_def

definition accepting :: "number_state \<Rightarrow> bool" where
  "accepting st \<longleftrightarrow> st = ZeroFirst \<or> st = Digits \<or> st = DigitsAfterPoints \<or> st = DigitsAfterE"

text \<open>The case labels \<open>'1'\<close> to \<open>'9'\<close>.\<close>

definition nonzero_digit :: "char \<Rightarrow> bool" where
  "nonzero_digit c \<longleftrightarrow> CHR ''1'' \<le> c \<and> c \<le> CHR ''9''"

text \<open>
  The loop. It returns the consumed text (what lies between \<open>start\<close> and \<open>data\<close>) and the rest of
  the input, or \<open>None\<close> for the empty \<open>rvalue\<close>.
\<close>

function number_loop :: "number_state \<Rightarrow> string \<Rightarrow> (string \<times> string) option" where
  "number_loop st s =
     (if st = Invalid then None
      else if cur s = CHR ''0''
      then map_option (apfst ((#) (cur s))) (number_loop (step_zero st) (tl s))
      else if nonzero_digit (cur s)
      then (let run = takeWhile is_digit (tl s)
            in map_option (apfst ((@) (cur s # run))) (number_loop (step_digit st) (drop (length run) (tl s))))
      else if cur s = CHR ''.''
      then map_option (apfst ((#) (cur s))) (number_loop (step_point st) (tl s))
      else if cur s = CHR ''-''
      then map_option (apfst ((#) (cur s))) (number_loop (step_minus st) (tl s))
      else if cur s = CHR ''+''
      then map_option (apfst ((#) (cur s))) (number_loop (step_plus st) (tl s))
      else if cur s = CHR ''e'' \<or> cur s = CHR ''E''
      then map_option (apfst ((#) (cur s))) (number_loop (step_e st) (tl s))
      else if accepting st then Some ([], s) else None)"
  by pat_completeness auto
termination
proof (relation "measure (\<lambda>(st, s). length s)", goal_cases)
  case (3 st s x)
  then show ?case by (cases s) (auto simp: less_Suc_eq_le nonzero_digit_def char_le_code)
qed (auto simp: cur_def split: list.splits)

declare number_loop.simps [simp del]

definition decode_number :: "string \<Rightarrow> (string \<times> string) option" where
  "decode_number s = number_loop Minus s"

subsection \<open>The machine without the shortcut\<close>

definition number_char :: "char \<Rightarrow> bool" where
  "number_char c \<longleftrightarrow> is_digit c \<or> c = CHR ''.'' \<or> c = CHR ''-'' \<or> c = CHR ''+'' \<or> c = CHR ''e'' \<or> c = CHR ''E''"

definition number_step :: "number_state \<Rightarrow> char \<Rightarrow> number_state" where
  "number_step st c =
     (if st = Invalid then Invalid
      else if c = CHR ''0'' then step_zero st
      else if is_digit c then step_digit st
      else if c = CHR ''.'' then step_point st
      else if c = CHR ''-'' then step_minus st
      else if c = CHR ''+'' then step_plus st
      else step_e st)"

text \<open>The reference: run the machine over the longest run of number characters.\<close>

definition number_ref :: "number_state \<Rightarrow> string \<Rightarrow> (string \<times> string) option" where
  "number_ref st s =
     (let t = takeWhile number_char s; r = dropWhile number_char s
      in if accepting (foldl number_step st t) then Some (t, r) else None)"

lemma nonzero_digit_iff: "nonzero_digit c \<longleftrightarrow> is_digit c \<and> c \<noteq> CHR ''0''"
  by (auto simp: nonzero_digit_def is_digit_code char_le_code code_inject [symmetric])

lemma foldl_Invalid [simp]: "foldl number_step Invalid t = Invalid"
  by (induction t) (simp_all add: number_step_def)

lemma step_digit_stable:
  assumes "is_digit c" "st \<noteq> Invalid"
  shows "number_step (step_digit st) c = step_digit st"
  using assms by (cases st) (auto simp: number_step_def number_steps)

lemma foldl_digits:
  assumes "\<forall>c \<in> set t. is_digit c" "st \<noteq> Invalid"
  shows "foldl number_step (step_digit st) t = step_digit st"
  using assms by (induction t) (simp_all add: step_digit_stable)

lemma number_char_digit: "is_digit c \<Longrightarrow> number_char c"
  by (simp add: number_char_def)

lemma takeWhile_digits_split:
  "takeWhile number_char s = takeWhile is_digit s @ takeWhile number_char (dropWhile is_digit s)"
  by (induction s) (auto simp: number_char_digit)

lemma dropWhile_digits_split:
  "dropWhile number_char (dropWhile is_digit s) = dropWhile number_char s"
  by (induction s) (auto simp: number_char_digit)

lemma number_ref_Cons:
  assumes "number_char c"
  shows "number_ref st (c # s) = map_option (apfst ((#) c)) (number_ref (number_step st c) s)"
  using assms by (simp add: number_ref_def Let_def)

lemma number_ref_digits:
  assumes "st \<noteq> Invalid"
  shows "number_ref (step_digit st) s
     = map_option (apfst ((@) (takeWhile is_digit s))) (number_ref (step_digit st) (dropWhile is_digit s))"
proof -
  have "\<forall>c \<in> set (takeWhile is_digit s). is_digit c" by (auto dest: set_takeWhileD)
  then show ?thesis
    by (simp add: number_ref_def Let_def takeWhile_digits_split [of s] dropWhile_digits_split
        foldl_digits assms)
qed

lemma number_ref_Invalid [simp]: "number_ref Invalid s = None"
  by (simp add: number_ref_def Let_def accepting_def)

lemma number_loop_stop:
  assumes "st \<noteq> Invalid" "\<not> number_char (cur s)"
  shows "number_loop st s = (if accepting st then Some ([], s) else None)"
  using assms by (subst number_loop.simps)
    (auto simp: number_char_def nonzero_digit_iff is_digit_code)

lemma number_loop_char:
  assumes "st \<noteq> Invalid" "number_char c" "\<not> nonzero_digit c"
  shows "number_loop st (c # s) = map_option (apfst ((#) c)) (number_loop (number_step st c) s)"
proof -
  have nz: "\<not> nonzero_digit CHR ''.''" "\<not> nonzero_digit CHR ''-''" "\<not> nonzero_digit CHR ''+''"
    "\<not> nonzero_digit CHR ''e''" "\<not> nonzero_digit CHR ''E''" "\<not> nonzero_digit CHR ''0''"
    "\<not> is_digit CHR ''.''" "\<not> is_digit CHR ''-''" "\<not> is_digit CHR ''+''"
    "\<not> is_digit CHR ''e''" "\<not> is_digit CHR ''E''"
    by (simp_all add: nonzero_digit_iff is_digit_code)
  from assms consider "c = CHR ''0''" | "c = CHR ''.''" | "c = CHR ''-''" | "c = CHR ''+''"
    | "c = CHR ''e''" | "c = CHR ''E''"
    by (auto simp: number_char_def nonzero_digit_iff)
  then show ?thesis
    by cases (subst number_loop.simps, simp add: assms(1) nz number_step_def)+
qed

lemma number_loop_run:
  assumes "st \<noteq> Invalid" "nonzero_digit c"
  shows "number_loop st (c # s) = map_option (apfst ((@) (c # takeWhile is_digit s)))
           (number_loop (step_digit st) (dropWhile is_digit s))"
  using assms by (subst number_loop.simps)
    (auto simp: nonzero_digit_iff Let_def dropWhile_eq_drop)

lemma number_ref_run:
  assumes "st \<noteq> Invalid" "nonzero_digit c"
  shows "number_ref st (c # s) = map_option (apfst ((@) (c # takeWhile is_digit s)))
           (number_ref (step_digit st) (dropWhile is_digit s))"
proof -
  have "number_ref st (c # s) = map_option (apfst ((#) c)) (number_ref (step_digit st) s)"
    using assms by (simp add: number_ref_Cons number_char_def number_step_def nonzero_digit_iff)
  also have "\<dots> = map_option (apfst ((@) (c # takeWhile is_digit s)))
           (number_ref (step_digit st) (dropWhile is_digit s))"
    by (subst number_ref_digits [OF assms(1)])
      (simp add: option.map_comp comp_def apfst_def map_prod_def split_def)
  finally show ?thesis .
qed

lemma number_loop_ref: "number_loop st s = number_ref st s"
proof (induction s arbitrary: st rule: length_induct)
  case (1 s)
  show ?case
  proof (cases "st = Invalid")
    case True
    then show ?thesis by (simp add: number_loop.simps)
  next
    case st: False
    show ?thesis
    proof (cases s)
      case Nil
      with st number_loop_stop [of st "[]"] show ?thesis
        by (simp add: number_char_def is_digit_code number_ref_def)
    next
      case (Cons c s')
      consider "\<not> number_char c" | "number_char c" "\<not> nonzero_digit c" | "nonzero_digit c"
        by blast
      then show ?thesis
      proof cases
        case 1
        with st Cons number_loop_stop [of st s] show ?thesis by (simp add: number_ref_def)
      next
        case 2
        with 1 st Cons show ?thesis by (simp add: number_loop_char number_ref_Cons)
      next
        case 3
        have "length (dropWhile is_digit s') < length s"
          using Cons by (simp add: less_Suc_eq_le length_dropWhile_le)
        with 1 have "number_loop (step_digit st) (dropWhile is_digit s')
            = number_ref (step_digit st) (dropWhile is_digit s')" by blast
        with 3 st Cons show ?thesis by (simp add: number_loop_run number_ref_run)
      qed
    qed
  qed
qed

lemma decode_number_ref: "decode_number s = number_ref Minus s"
  by (simp add: decode_number_def number_loop_ref)

lemma decode_number_split:
  "decode_number s = Some (t, r) \<Longrightarrow> s = t @ r"
  by (auto simp: decode_number_ref number_ref_def Let_def split: if_splits)

subsection \<open>The accepted texts\<close>

text \<open>
  What the machine accepts, as a grammar. It differs from RFC 8259 in three places: a point or an
  exponent sign needs no digit after it, and a leading \<open>0\<close> may not be followed at once by an
  exponent.
\<close>

definition g_exp_body :: "string \<Rightarrow> bool" where
  "g_exp_body t = (case t of [] \<Rightarrow> False
     | c # u \<Rightarrow> (is_digit c \<or> c = CHR ''+'' \<or> c = CHR ''-'') \<and> list_all is_digit u)"

definition g_exp :: "string \<Rightarrow> bool" where
  "g_exp t = (case t of [] \<Rightarrow> True | c # u \<Rightarrow> (c = CHR ''e'' \<or> c = CHR ''E'') \<and> g_exp_body u)"

definition g_frac :: "string \<Rightarrow> bool" where
  "g_frac t = g_exp (dropWhile is_digit t)"

definition g_zero :: "string \<Rightarrow> bool" where
  "g_zero t = (case t of [] \<Rightarrow> True | c # u \<Rightarrow> c = CHR ''.'' \<and> g_frac u)"

definition g_int :: "string \<Rightarrow> bool" where
  "g_int t = (let u = dropWhile is_digit t
     in if cur u = CHR ''.'' then g_frac (tl u) else g_exp u)"

definition g_unsigned :: "string \<Rightarrow> bool" where
  "g_unsigned t = (case t of [] \<Rightarrow> False
     | c # u \<Rightarrow> if c = CHR ''0'' then g_zero u else is_digit c \<and> g_int u)"

definition g_number :: "string \<Rightarrow> bool" where
  "g_number t = (if cur t = CHR ''-'' then g_unsigned (tl t) else g_unsigned t)"

lemmas g_defs = g_exp_body_def g_exp_def g_frac_def g_zero_def g_int_def g_unsigned_def g_number_def

fun g_state :: "number_state \<Rightarrow> string \<Rightarrow> bool" where
  "g_state Minus t = g_number t"
| "g_state AfterMinus t = g_unsigned t"
| "g_state ZeroFirst t = g_zero t"
| "g_state Digits t = g_int t"
| "g_state DigitsAfterPoints t = g_frac t"
| "g_state E t = g_exp_body t"
| "g_state DigitsAfterE t = list_all is_digit t"
| "g_state Invalid t = False"

lemma number_chars_not_digit [simp]:
  "\<not> is_digit CHR ''.''" "\<not> is_digit CHR ''-''" "\<not> is_digit CHR ''+''"
  "\<not> is_digit CHR ''e''" "\<not> is_digit CHR ''E''" "is_digit CHR ''0''"
  by (simp_all add: is_digit_code)

lemma g_state_Cons:
  assumes "number_char c"
  shows "g_state st (c # t) = g_state (number_step st c) t"
proof -
  from assms consider "c = CHR ''0''" | "is_digit c" "c \<noteq> CHR ''0''" | "c = CHR ''.''"
    | "c = CHR ''-''" | "c = CHR ''+''" | "c = CHR ''e''" | "c = CHR ''E''"
    by (auto simp: number_char_def)
  then show ?thesis
    by cases (cases st; auto simp: g_defs number_step_def number_steps)+
qed

lemma g_state_Nil: "g_state st [] = accepting st"
  by (cases st) (auto simp: g_defs accepting_def)

lemma g_state_accepting:
  "list_all number_char t \<Longrightarrow> g_state st t = accepting (foldl number_step st t)"
  by (induction t arbitrary: st) (simp_all add: g_state_Nil g_state_Cons)

lemma number_char_NUL [simp]: "\<not> number_char NUL"
  by (simp add: number_char_def is_digit_code)

lemma list_all_number_char:
  assumes "list_all number_char t" "\<not> number_char (cur r)"
  shows "takeWhile number_char (t @ r) = t" "dropWhile number_char (t @ r) = r"
proof -
  have "takeWhile number_char r = []" "dropWhile number_char r = r"
    using assms(2) by (cases r; simp)+
  with assms(1) show "takeWhile number_char (t @ r) = t" "dropWhile number_char (t @ r) = r"
    by (auto simp: list_all_iff takeWhile_append2 dropWhile_append2)
qed

lemma g_chars:
  "g_exp_body t \<Longrightarrow> list_all number_char t"
  "g_exp t \<Longrightarrow> list_all number_char t"
  "g_frac t \<Longrightarrow> list_all number_char t"
  "g_zero t \<Longrightarrow> list_all number_char t"
  "g_int t \<Longrightarrow> list_all number_char t"
  "g_unsigned t \<Longrightarrow> list_all number_char t"
  "g_number t \<Longrightarrow> list_all number_char t"
proof -
  have digits: "list_all number_char t = list_all number_char (dropWhile is_digit t)" for t
    by (induction t) (simp_all add: number_char_digit)
  have body: "g_exp_body t \<Longrightarrow> list_all number_char t" for t
    by (auto simp: g_exp_body_def number_char_def list_all_iff split: list.splits)
  have exp: "g_exp t \<Longrightarrow> list_all number_char t" for t
    by (auto simp: g_exp_def number_char_def dest: body split: list.splits)
  have frac: "g_frac t \<Longrightarrow> list_all number_char t" for t
    by (simp add: digits [of t] g_frac_def exp)
  have zero: "g_zero t \<Longrightarrow> list_all number_char t" for t
    by (auto simp: g_zero_def number_char_def dest: frac split: list.splits)
  have point: "number_char CHR ''.''" by (simp add: number_char_def)
  have int: "g_int t \<Longrightarrow> list_all number_char t" for t
    unfolding digits [of t] g_int_def Let_def
    by (cases "dropWhile is_digit t") (auto simp: point simp del: dropWhile_eq_Nil_conv dest: frac exp split: if_splits)
  have uns: "g_unsigned t \<Longrightarrow> list_all number_char t" for t
    by (auto simp: g_unsigned_def number_char_def dest: zero int split: list.splits if_splits)
  have num: "g_number t \<Longrightarrow> list_all number_char t" for t
    by (cases t) (auto simp: g_number_def number_char_def dest: uns split: if_splits)
  show "g_exp_body t \<Longrightarrow> list_all number_char t" "g_exp t \<Longrightarrow> list_all number_char t"
    "g_frac t \<Longrightarrow> list_all number_char t" "g_zero t \<Longrightarrow> list_all number_char t"
    "g_int t \<Longrightarrow> list_all number_char t" "g_unsigned t \<Longrightarrow> list_all number_char t"
    "g_number t \<Longrightarrow> list_all number_char t"
    by (rule body exp frac zero int uns num, assumption)+
qed

lemma decode_number_grammar:
  "decode_number s = Some (t, r) \<longleftrightarrow> s = t @ r \<and> g_number t \<and> \<not> number_char (cur r)"
proof
  assume d: "decode_number s = Some (t, r)"
  then have t: "t = takeWhile number_char s" and r: "r = dropWhile number_char s"
    and acc: "accepting (foldl number_step Minus t)"
    by (auto simp: decode_number_ref number_ref_def Let_def split: if_splits)
  have "list_all number_char t" unfolding t by (auto simp: list_all_iff dest: set_takeWhileD)
  with acc g_state_accepting [of t Minus] have "g_number t" by simp
  moreover have "\<not> number_char (cur r)"
    unfolding r by (induction s) auto
  ultimately show "s = t @ r \<and> g_number t \<and> \<not> number_char (cur r)" using t r by simp
next
  assume a: "s = t @ r \<and> g_number t \<and> \<not> number_char (cur r)"
  then have "list_all number_char t" by (simp add: g_chars)
  moreover from this a g_state_accepting [of t Minus] have "accepting (foldl number_step Minus t)"
    by simp
  ultimately show "decode_number s = Some (t, r)"
    using a list_all_number_char [of t r] by (simp add: decode_number_ref number_ref_def)
qed

subsection \<open>Printed integers\<close>

lemma nat_to_string_Cons:
  "\<exists>c ds. nat_to_string n = c # ds \<and> is_digit c \<and> list_all is_digit ds \<and> (c = CHR ''0'' \<longrightarrow> ds = [])"
proof (induction n rule: nat_to_string.induct)
  case (1 n)
  show ?case
  proof (cases "n < 10")
    case True
    then show ?thesis by (simp add: nat_to_string.simps [of n] is_digit_chr)
  next
    case False
    with 1 obtain c ds where ih: "nat_to_string (n div 10) = c # ds" "is_digit c"
      "list_all is_digit ds" "c = CHR ''0'' \<longrightarrow> ds = []" by blast
    have "c \<noteq> CHR ''0''"
    proof
      assume c: "c = CHR ''0''"
      with ih have "nat_to_string (n div 10) = ''0''" by simp
      also have "''0'' = nat_to_string 0" by (simp add: nat_to_string.simps chr_eq_CHR eq_commute [of "CHR ''0''"])
      finally have "n div 10 = 0" by (simp only: nat_to_string_inject)
      with False show False by simp
    qed
    with ih False show ?thesis by (simp add: nat_to_string.simps [of n] is_digit_chr)
  qed
qed

lemma g_unsigned_nat: "g_unsigned (nat_to_string n)"
proof -
  obtain c ds where n: "nat_to_string n = c # ds" "is_digit c" "list_all is_digit ds"
    "c = CHR ''0'' \<longrightarrow> ds = []" using nat_to_string_Cons by blast
  then have "dropWhile is_digit ds = []" by (simp add: list_all_iff dropWhile_eq_Nil_conv)
  with n show ?thesis by (auto simp: g_unsigned_def g_zero_def g_int_def g_exp_def Let_def
        simp del: dropWhile_eq_Nil_conv)
qed

lemma g_number_int: "g_number (int_to_string i)"
proof (cases "i < 0")
  case True
  then show ?thesis by (simp add: g_number_def int_to_string_def g_unsigned_nat)
next
  case False
  have "cur (nat_to_string n) \<noteq> CHR ''-''" for n
    using nat_to_string_Cons [of n] by auto
  with False show ?thesis by (simp add: g_number_def int_to_string_def g_unsigned_nat)
qed

lemma decode_number_int:
  "\<not> number_char (cur r) \<Longrightarrow> decode_number (int_to_string i @ r) = Some (int_to_string i, r)"
  by (simp add: decode_number_grammar g_number_int)

end
