(* ===== verification/Json_Read.thy ===== *)
theory Json_Read
  imports Json_Text Json_Number Numbers "HOL-Library.Multiset" "HOL-Library.List_Lexorder"
begin

text \<open>
  The JSON reader of \<open>crow/json.h\<close>: the value \<open>rvalue\<close>, the recursive-descent \<open>Parser\<close> behind
  \<open>load\<close>, and the accessors \<open>t\<close>, \<open>nt\<close>, \<open>i\<close>, \<open>u\<close>, \<open>d\<close>, \<open>b\<close>, \<open>s\<close>, \<open>lo\<close>, \<open>has\<close>,
  \<open>operator[]\<close>, \<open>keys\<close>, \<open>size\<close> with the exceptions they throw. \<open>std::sort\<close> and the order it
  leaves equal keys in are an argument (\<open>srt\<close>); everything else is computed.
\<close>

subsection \<open>Values\<close>

datatype jtype = TNull | TFalse | TTrue | TNumber | TString | TList | TObject | TFunction

datatype num_type =
  Signed_integer | Unsigned_integer | Floating_point | NumNull | Double_precision_floating_point

text \<open>
  \<open>RError\<close> is a value with the error bit set (the default constructor, or a container on which
  \<open>set_error\<close> was called; every accessor of either throws before it looks at anything else). A
  number keeps its text, a string its raw text and the flag byte before it that says whether it
  still holds escapes, a container its children and the bit that says whether they were sorted.
  The members of a list have no key: their \<open>key_\<close> holds indeterminate pointers.
\<close>

datatype rvalue =
  RError
| RNull
| RFalse
| RTrue
| RNumber string
| RString string bool
| RList "rvalue list"
| RObject "(string \<times> rvalue) list" bool

definition rv_bool :: "rvalue \<Rightarrow> bool" where
  "rv_bool v \<longleftrightarrow> v \<noteq> RError"

definition get_type_str :: "jtype \<Rightarrow> string" where
  "get_type_str ty = (case ty of
     TNumber \<Rightarrow> ''Number'' | TFalse \<Rightarrow> ''False'' | TTrue \<Rightarrow> ''True'' | TList \<Rightarrow> ''List''
   | TString \<Rightarrow> ''String'' | TObject \<Rightarrow> ''Object'' | TFunction \<Rightarrow> ''Function'' | _ \<Rightarrow> ''Unknown'')"

fun rv_t :: "rvalue \<Rightarrow> jtype result" where
  "rv_t RError = Inl (RuntimeError ''invalid json object'')"
| "rv_t RNull = Inr TNull"
| "rv_t RFalse = Inr TFalse"
| "rv_t RTrue = Inr TTrue"
| "rv_t (RNumber _) = Inr TNumber"
| "rv_t (RString _ _) = Inr TString"
| "rv_t (RList _) = Inr TList"
| "rv_t (RObject _ _) = Inr TObject"

definition determine_num_type :: "string \<Rightarrow> num_type" where
  "determine_num_type txt =
     (let has_minus = CHR ''-'' \<in> set txt;
          has_e = CHR ''e'' \<in> set txt \<or> CHR ''E'' \<in> set txt;
          has_dec_sep = CHR ''.'' \<in> set txt
      in if has_dec_sep \<or> has_e then Floating_point
         else if has_minus then Signed_integer else Unsigned_integer)"

definition rv_nt :: "rvalue \<Rightarrow> num_type result" where
  "rv_nt v = (case v of
     RError \<Rightarrow> Inl (RuntimeError ''invalid json object'')
   | RNumber txt \<Rightarrow> Inr (determine_num_type txt)
   | _ \<Rightarrow> Inr NumNull)"

subsection \<open>Accessors\<close>

text \<open>The characters between \<open>start_\<close> and \<open>end_\<close>.\<close>

definition rv_text :: "rvalue \<Rightarrow> string" where
  "rv_text v = (case v of RNumber txt \<Rightarrow> txt | RString raw _ \<Rightarrow> raw | _ \<Rightarrow> [])"

definition rv_i :: "rvalue \<Rightarrow> i64 result" where
  "rv_i v = bind_result (rv_t v) (\<lambda>ty.
     if ty = TNumber \<or> ty = TString then Inr (extract_int64 (rv_text v))
     else Inl (RuntimeError (''expected number, got: '' @ get_type_str ty)))"

definition rv_u :: "rvalue \<Rightarrow> u64 result" where
  "rv_u v = bind_result (rv_t v) (\<lambda>ty.
     if ty = TNumber \<or> ty = TString then Inr (extract_uint64 (rv_text v))
     else Inl (RuntimeError (''expected number, got: '' @ get_type_str ty)))"

definition rv_d :: "rvalue \<Rightarrow> double result" where
  "rv_d v = bind_result (rv_t v) (\<lambda>ty.
     if ty \<noteq> TNumber then Inl (RuntimeError ''value is not number'')
     else Inr (extract_double (rv_text v)))"

definition rv_b :: "rvalue \<Rightarrow> bool result" where
  "rv_b v = bind_result (rv_t v) (\<lambda>ty.
     if ty \<noteq> TTrue \<and> ty \<noteq> TFalse then Inl (RuntimeError ''value is not boolean'')
     else Inr (ty = TTrue))"

text \<open>\<open>unescape\<close> rewrites the text in place once and clears the flag byte.\<close>

definition rv_unescape :: "rvalue \<Rightarrow> rvalue" where
  "rv_unescape v = (case v of
     RString raw esc \<Rightarrow> if esc then RString (unescape raw) False else RString raw False
   | _ \<Rightarrow> v)"

definition rv_s :: "rvalue \<Rightarrow> string result" where
  "rv_s v = bind_result (rv_t v) (\<lambda>ty.
     if ty \<noteq> TString then Inl (RuntimeError ''value is not string'')
     else Inr (rv_text (rv_unescape v)))"

definition not_container :: exn where
  "not_container = RuntimeError ''value is not a container''"

fun rv_children :: "rvalue \<Rightarrow> rvalue list result" where
  "rv_children RError = Inl (RuntimeError ''invalid json object'')"
| "rv_children (RList vs) = Inr vs"
| "rv_children (RObject kvs _) = Inr (map snd kvs)"
| "rv_children _ = Inl not_container"

definition rv_lo :: "rvalue \<Rightarrow> rvalue list result" where
  "rv_lo v = rv_children v"

definition rv_size :: "rvalue \<Rightarrow> nat result" where
  "rv_size v = bind_result (rv_t v) (\<lambda>ty.
     if ty = TString then bind_result (rv_s v) (\<lambda>s. Inr (length s))
     else bind_result (rv_children v) (\<lambda>vs. Inr (length vs)))"

definition rv_index :: "rvalue \<Rightarrow> int \<Rightarrow> rvalue result" where
  "rv_index v i = (case v of
     RError \<Rightarrow> Inl (RuntimeError ''invalid json object'')
   | RList vs \<Rightarrow> if int (length vs) \<le> i \<or> i < 0 then Inl (RuntimeError ''list out of bound'')
                 else Inr (vs ! nat i)
   | _ \<Rightarrow> Inl (RuntimeError ''value is not a list''))"

definition rv_keys :: "rvalue \<Rightarrow> string list result" where
  "rv_keys v = (case v of
     RError \<Rightarrow> Inl (RuntimeError ''invalid json object'')
   | RObject kvs _ \<Rightarrow> Inr (map fst kvs)
   | _ \<Rightarrow> Inl (RuntimeError ''value is not an object''))"

text \<open>\<open>operator std::string\<close>.\<close>

definition rv_to_string :: "rvalue \<Rightarrow> string result" where
  "rv_to_string v = (case v of
     RError \<Rightarrow> Inl (RuntimeError ''invalid json object'')
   | RObject _ _ \<Rightarrow> Inl (RuntimeError ''json type container'')
   | RList _ \<Rightarrow> Inl (RuntimeError ''json type container'')
   | RString _ _ \<Rightarrow> rv_s v
   | RNull \<Rightarrow> Inr ''null''
   | RTrue \<Rightarrow> Inr ''true''
   | RFalse \<Rightarrow> Inr ''false''
   | RNumber txt \<Rightarrow> Inr txt)"

subsection \<open>Lookup by key\<close>

text \<open>\<open>operator<\<close> of \<open>r_string\<close>: lexicographic on (signed) characters.\<close>

definition key_less :: "string \<Rightarrow> string \<Rightarrow> bool" where
  "key_less a b \<longleftrightarrow> map schar a < map schar b"

text \<open>\<open>std::lower_bound\<close> over the sorted children: the first position whose key is not below.\<close>

function lower_bound :: "string list \<Rightarrow> string \<Rightarrow> nat \<Rightarrow> nat \<Rightarrow> nat" where
  "lower_bound ks key first len =
     (if len = 0 then first
      else let half = len div 2; mid = first + half
           in if key_less (ks ! mid) key then lower_bound ks key (mid + 1) (len - half - 1)
              else lower_bound ks key first half)"
  by pat_completeness auto
termination
  by (relation "measure (\<lambda>(ks, key, first, len). len)") (auto simp: Let_def)

declare lower_bound.simps [simp del]

type_synonym kv_sort = "(string \<times> rvalue) list \<Rightarrow> (string \<times> rvalue) list"

text \<open>\<open>if (!is_cached()) { std::sort(...); set_cached(); }\<close>\<close>

definition sort_children :: "kv_sort \<Rightarrow> rvalue \<Rightarrow> rvalue" where
  "sort_children srt v = (case v of
     RObject kvs False \<Rightarrow> RObject (srt kvs) True
   | _ \<Rightarrow> v)"

definition find_key :: "(string \<times> rvalue) list \<Rightarrow> string \<Rightarrow> rvalue option" where
  "find_key kvs key =
     (let i = lower_bound (map fst kvs) key 0 (length kvs)
      in if i \<noteq> length kvs \<and> fst (kvs ! i) = key then Some (snd (kvs ! i)) else None)"

text \<open>
  \<open>has\<close> accepts a list as well: an empty one has no key, a member of a nonempty one is compared
  through its indeterminate key.
\<close>

definition rv_has :: "kv_sort \<Rightarrow> rvalue \<Rightarrow> string \<Rightarrow> bool result" where
  "rv_has srt v str = (case sort_children srt v of
     RError \<Rightarrow> Inl (RuntimeError ''invalid json object'')
   | RObject kvs _ \<Rightarrow> Inr (find_key kvs str \<noteq> None)
   | RList [] \<Rightarrow> Inr False
   | RList (_ # _) \<Rightarrow> Inl (UB ''comparison of an indeterminate key'')
   | _ \<Rightarrow> Inl not_container)"

definition rv_at :: "kv_sort \<Rightarrow> rvalue \<Rightarrow> string \<Rightarrow> rvalue result" where
  "rv_at srt v str = (case sort_children srt v of
     RError \<Rightarrow> Inl (RuntimeError ''invalid json object'')
   | RObject kvs _ \<Rightarrow> (case find_key kvs str of
                        Some w \<Rightarrow> Inr w
                      | None \<Rightarrow> Inl (RuntimeError (''cannot find key: '' @ str)))
   | _ \<Rightarrow> Inl (RuntimeError ''value is not an object''))"

definition rv_count :: "kv_sort \<Rightarrow> rvalue \<Rightarrow> string \<Rightarrow> int result" where
  "rv_count srt v str = bind_result (rv_has srt v str) (\<lambda>b. Inr (if b then 1 else 0))"

subsection \<open>The parser\<close>

definition max_depth :: nat where "max_depth = 10000"

definition is_ws :: "char \<Rightarrow> bool" where
  "is_ws c \<longleftrightarrow> c = CHR '' '' \<or> c = TAB \<or> c = CR \<or> c = LF"

definition ws_skip :: "string \<Rightarrow> string" where
  "ws_skip s = dropWhile is_ws s"

definition consume :: "char \<Rightarrow> string \<Rightarrow> string option" where
  "consume c s = (if cur s \<noteq> c then None else Some (tl s))"

lemma length_ws_skip [simp]: "length (ws_skip s) \<le> length s"
  by (simp add: ws_skip_def length_dropWhile_le)

lemma consume_less: "consume c s = Some s' \<Longrightarrow> c \<noteq> NUL \<Longrightarrow> length s' < length s"
  by (cases s) (auto simp: consume_def split: if_splits)

definition lift_string :: "string \<Rightarrow> rvalue \<times> string" where
  "lift_string s = (case decode_string s of
     None \<Rightarrow> (RError, s) | Some (raw, esc, r) \<Rightarrow> (RString raw esc, r))"

definition lift_number :: "string \<Rightarrow> rvalue \<times> string" where
  "lift_number s = (case decode_number s of
     None \<Rightarrow> (RError, s) | Some (txt, r) \<Rightarrow> (RNumber txt, r))"

text \<open>
  \<open>decode_value\<close>, \<open>decode_list\<close> and \<open>decode_object\<close> with their loops; each returns the value and the
  input that is left (after an error nobody reads it any more). The guard on the length in the two
  loops makes the recursion well-founded; \<open>parse_shrinks\<close> below shows that it always holds.
\<close>

function decode_value :: "nat \<Rightarrow> string \<Rightarrow> rvalue \<times> string"
  and decode_list :: "nat \<Rightarrow> string \<Rightarrow> rvalue \<times> string"
  and list_loop :: "nat \<Rightarrow> rvalue list \<Rightarrow> string \<Rightarrow> rvalue \<times> string"
  and decode_object :: "nat \<Rightarrow> string \<Rightarrow> rvalue \<times> string"
  and object_loop :: "nat \<Rightarrow> (string \<times> rvalue) list \<Rightarrow> string \<Rightarrow> rvalue \<times> string"
where
  "decode_value depth s =
     (if cur s = CHR ''['' then decode_list (depth + 1) s
      else if cur s = CHR ''{'' then decode_object (depth + 1) s
      else if cur s = QUOTE then lift_string s
      else if cur s = CHR ''t''
      then (if is_prefix ''rue'' (tl s) then (RTrue, drop 4 s) else (RError, s))
      else if cur s = CHR ''f''
      then (if is_prefix ''alse'' (tl s) then (RFalse, drop 5 s) else (RError, s))
      else if cur s = CHR ''n''
      then (if is_prefix ''ull'' (tl s) then (RNull, drop 4 s) else (RError, s))
      else lift_number s)"
| "decode_list depth s =
     (case consume CHR ''['' s of
        None \<Rightarrow> (RError, s)
      | Some s1 \<Rightarrow>
          if max_depth < depth then (RError, s1)
          else let s2 = ws_skip s1
               in if cur s2 = CHR '']'' then (RList [], tl s2) else list_loop depth [] s2)"
| "list_loop depth acc s =
     (case decode_value (depth + 1) s of (v, s1) \<Rightarrow>
        if \<not> rv_bool v then (RError, s1)
        else let s2 = ws_skip s1
             in if cur s2 = CHR '']'' then (RList (acc @ [v]), tl s2)
                else (case consume CHR '','' s2 of
                        None \<Rightarrow> (RError, s2)
                      | Some s3 \<Rightarrow>
                          if length (ws_skip s3) < length s
                          then list_loop depth (acc @ [v]) (ws_skip s3) else (RError, s3)))"
| "decode_object depth s =
     (case consume CHR ''{'' s of
        None \<Rightarrow> (RError, s)
      | Some s1 \<Rightarrow>
          if max_depth < depth then (RError, s1)
          else let s2 = ws_skip s1
               in if cur s2 = CHR ''}'' then (RObject [] False, tl s2) else object_loop depth [] s2)"
| "object_loop depth acc s =
     (case decode_string s of
        None \<Rightarrow> (RError, s)
      | Some (raw, esc, s1) \<Rightarrow>
          (case consume CHR '':'' (ws_skip s1) of
             None \<Rightarrow> (RError, s1)
           | Some s2 \<Rightarrow>
               (let key = rv_text (rv_unescape (RString raw esc))
                in case decode_value (depth + 1) (ws_skip s2) of (v, s3) \<Rightarrow>
                     if \<not> rv_bool v then (RError, s3)
                     else let s4 = ws_skip s3
                          in if cur s4 = CHR ''}'' then (RObject (acc @ [(key, v)]) False, tl s4)
                             else (case consume CHR '','' s4 of
                                     None \<Rightarrow> (RError, s4)
                                   | Some s5 \<Rightarrow>
                                       if length (ws_skip s5) < length s
                                       then object_loop depth (acc @ [(key, v)]) (ws_skip s5)
                                       else (RError, s5)))))"
  by pat_completeness auto

lemma consume_ws_less:
  "consume c s = Some s' \<Longrightarrow> c \<noteq> NUL \<Longrightarrow> length (ws_skip s') < length s"
  by (rule le_less_trans [OF length_ws_skip consume_less])

lemma decode_string_less: "decode_string s = Some (raw, esc, r) \<Longrightarrow> length r < length s"
  by (drule decode_string_split) simp

lemma member_less:
  assumes "decode_string s = Some (raw, esc, s1)" "consume c (ws_skip s1) = Some s2" "c \<noteq> NUL"
  shows "length (ws_skip s2) < length s"
proof -
  have "length (ws_skip s2) < length (ws_skip s1)" using assms by (blast intro: consume_ws_less)
  also have "\<dots> \<le> length s1" by simp
  also have "\<dots> < length s" using assms(1) by (rule decode_string_less)
  finally show ?thesis .
qed

termination decode_value
  apply (relation "inv_image (less_than <*lex*> less_than)
    (\<lambda>x. case x of
       Inl (Inl (d, s)) \<Rightarrow> (length s, 1)
     | Inl (Inr (d, s)) \<Rightarrow> (length s, 0)
     | Inr (Inl (d, acc, s)) \<Rightarrow> (length s, 2)
     | Inr (Inr (Inl (d, s))) \<Rightarrow> (length s, 0)
     | Inr (Inr (Inr (d, acc, s))) \<Rightarrow> (length s, 2 :: nat))")
  subgoal by (intro wf_inv_image wf_lex_prod wf_less_than)
  apply (simp_all add: consume_ws_less)
  subgoal by (auto dest: member_less)
  done

declare decode_value.simps [simp del] decode_list.simps [simp del] list_loop.simps [simp del]
  decode_object.simps [simp del] object_loop.simps [simp del]

definition parse :: "string \<Rightarrow> rvalue" where
  "parse s = (case decode_value 0 (ws_skip s) of (ret, r) \<Rightarrow>
     if rv_bool ret \<and> cur (ws_skip r) \<noteq> NUL then RError else ret)"

text \<open>\<open>load\<close> copies the text, terminates it and parses the copy.\<close>

definition load :: "string \<Rightarrow> rvalue" where
  "load str = parse str"

subsection \<open>Progress: the guards of the loops always hold\<close>

lemma lift_string_less: "lift_string s = (v, r) \<Longrightarrow> rv_bool v \<Longrightarrow> length r < length s"
  by (auto simp: lift_string_def rv_bool_def dest: decode_string_less split: option.splits)

lemma lift_number_less: "lift_number s = (v, r) \<Longrightarrow> rv_bool v \<Longrightarrow> length r < length s"
proof -
  assume v: "lift_number s = (v, r)" "rv_bool v"
  then obtain t where d: "decode_number s = Some (t, r)"
    by (auto simp: lift_number_def rv_bool_def split: option.splits)
  then have "s = t @ r" "g_number t" by (simp_all only: decode_number_grammar)
  moreover from this have "t \<noteq> []" by (auto simp: g_number_def g_unsigned_def)
  ultimately show ?thesis by simp
qed

lemma tl_less: "cur s = c \<Longrightarrow> c \<noteq> NUL \<Longrightarrow> length (tl s) < length s"
  by (cases s) auto

lemma not_rv_bool_RError [simp]: "\<not> rv_bool RError"
  by (simp add: rv_bool_def)

lemma tl_ws_skip_less:
  "length s1 < length s \<Longrightarrow> length (tl (ws_skip s1)) < length s"
  by (metis diff_le_self le_less_trans length_tl length_ws_skip)

lemma consume_after_less:
  assumes "length s1 < length s" "consume c (ws_skip s1) = Some s2" "c \<noteq> NUL"
  shows "length (ws_skip s2) < length s"
proof -
  have "length (ws_skip s2) < length (ws_skip s1)" using assms by (blast intro: consume_ws_less)
  also have "\<dots> \<le> length s1" by simp
  also note assms(1)
  finally show ?thesis .
qed

lemma decode_scalar_less:
  assumes "decode_value d s = (v, r)" "rv_bool v" "cur s \<noteq> CHR ''[''" "cur s \<noteq> CHR ''{''"
  shows "length r < length s"
proof (cases s)
  case Nil
  with assms(1) have "lift_number [] = (v, r)" by (simp add: decode_value.simps [of d "[]"])
  from lift_number_less [OF this assms(2)] Nil show ?thesis by simp
next
  case (Cons c s')
  from assms have "lift_string s = (v, r) \<or> lift_number s = (v, r) \<or> r = drop 4 s \<or> r = drop 5 s"
    by (simp add: decode_value.simps [of d s] split: if_splits)
  with Cons assms(2) show ?thesis
    by (auto dest: lift_string_less lift_number_less)
qed

lemma decode_list_inv:
  assumes "decode_list d s = (v, r)" "rv_bool v"
  obtains s1 where "consume CHR ''['' s = Some s1" "d \<le> max_depth"
    "cur (ws_skip s1) = CHR '']'' \<and> v = RList [] \<and> r = tl (ws_skip s1)
     \<or> cur (ws_skip s1) \<noteq> CHR '']'' \<and> list_loop d [] (ws_skip s1) = (v, r)"
  using assms by (auto simp: decode_list.simps [of d s] Let_def split: option.splits if_splits)

lemma list_loop_inv:
  assumes "list_loop d acc s = (v, r)" "rv_bool v"
  obtains w s1 where "decode_value (d + 1) s = (w, s1)" "rv_bool w"
    "cur (ws_skip s1) = CHR '']'' \<and> v = RList (acc @ [w]) \<and> r = tl (ws_skip s1)
     \<or> (\<exists>s3. consume CHR '','' (ws_skip s1) = Some s3
          \<and> length (ws_skip s3) < length s \<and> list_loop d (acc @ [w]) (ws_skip s3) = (v, r))"
  using assms
  by (auto simp: list_loop.simps [of d acc s] Let_def split: option.splits if_splits prod.splits)

lemma decode_object_inv:
  assumes "decode_object d s = (v, r)" "rv_bool v"
  obtains s1 where "consume CHR ''{'' s = Some s1" "d \<le> max_depth"
    "cur (ws_skip s1) = CHR ''}'' \<and> v = RObject [] False \<and> r = tl (ws_skip s1)
     \<or> cur (ws_skip s1) \<noteq> CHR ''}'' \<and> object_loop d [] (ws_skip s1) = (v, r)"
  using assms by (auto simp: decode_object.simps [of d s] Let_def split: option.splits if_splits)

lemma object_loop_inv:
  assumes "object_loop d acc s = (v, r)" "rv_bool v"
  obtains raw esc s1 s2 w s3 where "decode_string s = Some (raw, esc, s1)"
    "consume CHR '':'' (ws_skip s1) = Some s2" "decode_value (d + 1) (ws_skip s2) = (w, s3)" "rv_bool w"
    "cur (ws_skip s3) = CHR ''}''
       \<and> v = RObject (acc @ [(rv_text (rv_unescape (RString raw esc)), w)]) False \<and> r = tl (ws_skip s3)
     \<or> (\<exists>s5. consume CHR '','' (ws_skip s3) = Some s5 \<and> length (ws_skip s5) < length s
          \<and> object_loop d (acc @ [(rv_text (rv_unescape (RString raw esc)), w)]) (ws_skip s5) = (v, r))"
  using assms
  by (auto simp: object_loop.simps [of d acc s] Let_def split: option.splits if_splits prod.splits)

lemma parse_shrinks:
  "decode_value d s = (v, r) \<Longrightarrow> rv_bool v \<Longrightarrow> length r < length s"
  "decode_list d s = (v, r) \<Longrightarrow> rv_bool v \<Longrightarrow> length r < length s"
  "list_loop d acc s = (v, r) \<Longrightarrow> rv_bool v \<Longrightarrow> length r < length s"
  "decode_object d s = (v, r) \<Longrightarrow> rv_bool v \<Longrightarrow> length r < length s"
  "object_loop d kvs s = (v, r) \<Longrightarrow> rv_bool v \<Longrightarrow> length r < length s"
proof (induction d s and d s and d acc s and d s and d kvs s arbitrary: v r and v r and v r and v r and v r
    rule: decode_value_decode_list_list_loop_decode_object_object_loop.induct)
  case (1 depth s)
  show ?case
  proof (cases "cur s = CHR ''['' \<or> cur s = CHR ''{''")
    case True
    with "1.prems" have "(cur s = CHR ''['' \<and> decode_list (depth + 1) s = (v, r))
        \<or> (cur s = CHR ''{'' \<and> decode_object (depth + 1) s = (v, r))"
      by (auto simp: decode_value.simps [of depth s])
    with 1 show ?thesis by force
  next
    case False
    with "1.prems" show ?thesis by (auto intro: decode_scalar_less)
  qed
next
  case (2 depth s)
  from "2.prems" obtain s1 where s1: "consume CHR ''['' s = Some s1" "depth \<le> max_depth"
    "cur (ws_skip s1) = CHR '']'' \<and> v = RList [] \<and> r = tl (ws_skip s1)
     \<or> cur (ws_skip s1) \<noteq> CHR '']'' \<and> list_loop depth [] (ws_skip s1) = (v, r)"
    by (rule decode_list_inv)
  then have less: "length s1 < length s" "length (ws_skip s1) < length s"
    by (simp_all add: consume_less consume_ws_less)
  from s1(3) show ?case
  proof
    assume "cur (ws_skip s1) = CHR '']'' \<and> v = RList [] \<and> r = tl (ws_skip s1)"
    with less show ?thesis by (simp add: tl_ws_skip_less del: length_tl)
  next
    assume l: "cur (ws_skip s1) \<noteq> CHR '']'' \<and> list_loop depth [] (ws_skip s1) = (v, r)"
    with "2.IH" [OF s1(1) _ refl] s1(2) "2.prems"(2) have "length r < length (ws_skip s1)" by simp
    with less show ?thesis by simp
  qed
next
  case (3 depth acc s)
  from "3.prems" obtain w s1 where w: "decode_value (depth + 1) s = (w, s1)" "rv_bool w"
    "cur (ws_skip s1) = CHR '']'' \<and> v = RList (acc @ [w]) \<and> r = tl (ws_skip s1)
     \<or> (\<exists>s3. consume CHR '','' (ws_skip s1) = Some s3
          \<and> length (ws_skip s3) < length s \<and> list_loop depth (acc @ [w]) (ws_skip s3) = (v, r))"
    by (rule list_loop_inv)
  from "3.IH"(1) [OF w(1,2)] have less: "length s1 < length s" .
  from w(3) show ?case
  proof
    assume "cur (ws_skip s1) = CHR '']'' \<and> v = RList (acc @ [w]) \<and> r = tl (ws_skip s1)"
    with less show ?thesis by (simp add: tl_ws_skip_less del: length_tl)
  next
    assume "\<exists>s3. consume CHR '','' (ws_skip s1) = Some s3
          \<and> length (ws_skip s3) < length s \<and> list_loop depth (acc @ [w]) (ws_skip s3) = (v, r)"
    then obtain s3 where s3: "consume CHR '','' (ws_skip s1) = Some s3"
      "length (ws_skip s3) < length s" "list_loop depth (acc @ [w]) (ws_skip s3) = (v, r)" by blast
    have "cur (ws_skip s1) \<noteq> CHR '']''" using s3(1) by (auto simp: consume_def split: if_splits)
    from "3.IH"(2) [OF w(1) [symmetric] _ refl this s3(1,2,3) "3.prems"(2)] w(2) s3(2)
    show ?thesis by simp
  qed
next
  case (4 depth s)
  from "4.prems" obtain s1 where s1: "consume CHR ''{'' s = Some s1" "depth \<le> max_depth"
    "cur (ws_skip s1) = CHR ''}'' \<and> v = RObject [] False \<and> r = tl (ws_skip s1)
     \<or> cur (ws_skip s1) \<noteq> CHR ''}'' \<and> object_loop depth [] (ws_skip s1) = (v, r)"
    by (rule decode_object_inv)
  then have less: "length s1 < length s" "length (ws_skip s1) < length s"
    by (simp_all add: consume_less consume_ws_less)
  from s1(3) show ?case
  proof
    assume "cur (ws_skip s1) = CHR ''}'' \<and> v = RObject [] False \<and> r = tl (ws_skip s1)"
    with less show ?thesis by (simp add: tl_ws_skip_less del: length_tl)
  next
    assume l: "cur (ws_skip s1) \<noteq> CHR ''}'' \<and> object_loop depth [] (ws_skip s1) = (v, r)"
    with "4.IH" [OF s1(1) _ refl] s1(2) "4.prems"(2) have "length r < length (ws_skip s1)" by simp
    with less show ?thesis by simp
  qed
next
  case (5 depth acc s)
  from "5.prems" obtain raw esc s1 s2 w s3 where w: "decode_string s = Some (raw, esc, s1)"
    "consume CHR '':'' (ws_skip s1) = Some s2" "decode_value (depth + 1) (ws_skip s2) = (w, s3)" "rv_bool w"
    "cur (ws_skip s3) = CHR ''}''
       \<and> v = RObject (acc @ [(rv_text (rv_unescape (RString raw esc)), w)]) False \<and> r = tl (ws_skip s3)
     \<or> (\<exists>s5. consume CHR '','' (ws_skip s3) = Some s5 \<and> length (ws_skip s5) < length s
          \<and> object_loop depth (acc @ [(rv_text (rv_unescape (RString raw esc)), w)]) (ws_skip s5) = (v, r))"
    by (rule object_loop_inv)
  from "5.IH"(1) [OF w(1) refl refl w(2) refl w(3,4)] have "length s3 < length (ws_skip s2)" .
  with member_less [OF w(1,2)] have less: "length s3 < length s" by simp
  from w(5) show ?case
  proof
    assume "cur (ws_skip s3) = CHR ''}''
       \<and> v = RObject (acc @ [(rv_text (rv_unescape (RString raw esc)), w)]) False \<and> r = tl (ws_skip s3)"
    with less show ?thesis by (simp add: tl_ws_skip_less del: length_tl)
  next
    assume "\<exists>s5. consume CHR '','' (ws_skip s3) = Some s5 \<and> length (ws_skip s5) < length s
          \<and> object_loop depth (acc @ [(rv_text (rv_unescape (RString raw esc)), w)]) (ws_skip s5) = (v, r)"
    then obtain s5 where s5: "consume CHR '','' (ws_skip s3) = Some s5"
      "length (ws_skip s5) < length s"
      "object_loop depth (acc @ [(rv_text (rv_unescape (RString raw esc)), w)]) (ws_skip s5) = (v, r)"
      by blast
    have "cur (ws_skip s3) \<noteq> CHR ''}''" using s5(1) by (auto simp: consume_def split: if_splits)
    from "5.IH"(2) [OF w(1) refl refl w(2) refl w(3) [symmetric] _ refl this s5(1,2,3) "5.prems"(2)]
      w(4) s5(2) show ?thesis by simp
  qed
qed


subsection \<open>The loops without their guards\<close>

theorem list_loop_eq:
  "list_loop depth acc s =
     (case decode_value (depth + 1) s of (v, s1) \<Rightarrow>
        if \<not> rv_bool v then (RError, s1)
        else let s2 = ws_skip s1
             in if cur s2 = CHR '']'' then (RList (acc @ [v]), tl s2)
                else (case consume CHR '','' s2 of
                        None \<Rightarrow> (RError, s2)
                      | Some s3 \<Rightarrow> list_loop depth (acc @ [v]) (ws_skip s3)))"
proof -
  have "length (ws_skip s3) < length s"
    if "decode_value (depth + 1) s = (v, s1)" "rv_bool v" "consume CHR '','' (ws_skip s1) = Some s3"
    for v s1 s3
    using consume_after_less [OF parse_shrinks(1) [OF that(1,2)] that(3)] by simp
  then show ?thesis
    by (subst list_loop.simps) (auto simp: Let_def split: prod.splits option.splits)
qed

theorem object_loop_eq:
  "object_loop depth acc s =
     (case decode_string s of
        None \<Rightarrow> (RError, s)
      | Some (raw, esc, s1) \<Rightarrow>
          (case consume CHR '':'' (ws_skip s1) of
             None \<Rightarrow> (RError, s1)
           | Some s2 \<Rightarrow>
               (case decode_value (depth + 1) (ws_skip s2) of (v, s3) \<Rightarrow>
                  if \<not> rv_bool v then (RError, s3)
                  else let s4 = ws_skip s3; key = rv_text (rv_unescape (RString raw esc))
                       in if cur s4 = CHR ''}'' then (RObject (acc @ [(key, v)]) False, tl s4)
                          else (case consume CHR '','' s4 of
                                  None \<Rightarrow> (RError, s4)
                                | Some s5 \<Rightarrow>
                                    object_loop depth (acc @ [(key, v)]) (ws_skip s5)))))"
proof -
  have "length (ws_skip s5) < length s"
    if "decode_string s = Some (raw, esc, s1)" "consume CHR '':'' (ws_skip s1) = Some s2"
      "decode_value (depth + 1) (ws_skip s2) = (v, s3)" "rv_bool v"
      "consume CHR '','' (ws_skip s3) = Some s5"
    for raw esc s1 s2 v s3 s5
  proof -
    have "length s3 < length (ws_skip s2)" using that(3,4) by (rule parse_shrinks(1))
    also have "\<dots> < length s" using that(1,2) by (rule member_less) simp
    finally show ?thesis using that(5) by (rule consume_after_less) simp
  qed
  then show ?thesis
    by (subst object_loop.simps) (auto simp: Let_def split: prod.splits option.splits)
qed

subsection \<open>Lookup in a sorted object\<close>

lemma key_less_irrefl [simp]: "\<not> key_less a a"
  by (simp add: key_less_def)

lemma key_less_trans: "key_less a b \<Longrightarrow> key_less b c \<Longrightarrow> key_less a c"
  by (simp add: key_less_def)

lemma key_less_total: "\<not> key_less a b \<Longrightarrow> \<not> key_less b a \<Longrightarrow> a = b"
  using inj_map_eq_map [of schar a b] by (simp add: key_less_def not_less inj_on_def schar_inject)

lemma le_key_less: "\<not> key_less b a \<Longrightarrow> key_less b c \<Longrightarrow> key_less a c"
  using key_less_total key_less_trans by blast

definition keys_sorted :: "string list \<Rightarrow> bool" where
  "keys_sorted ks \<longleftrightarrow> sorted_wrt (\<lambda>a b. \<not> key_less b a) ks"

text \<open>What \<open>std::sort\<close> promises: a permutation, in the order of \<open>operator<\<close>.\<close>

definition key_sorter :: "kv_sort \<Rightarrow> bool" where
  "key_sorter srt \<longleftrightarrow> (\<forall>kvs. mset (srt kvs) = mset kvs \<and> keys_sorted (map fst (srt kvs)))"

text \<open>The binary search keeps every key below its window small and none above it.\<close>

lemma lower_bound_window:
  assumes "keys_sorted ks" "first + len \<le> length ks"
    "\<forall>i < first. key_less (ks ! i) key" "\<forall>i < length ks. first + len \<le> i \<longrightarrow> \<not> key_less (ks ! i) key"
  shows "lower_bound ks key first len \<le> length ks
    \<and> (\<forall>i < lower_bound ks key first len. key_less (ks ! i) key)
    \<and> (\<forall>i < length ks. lower_bound ks key first len \<le> i \<longrightarrow> \<not> key_less (ks ! i) key)"
  using assms
proof (induction ks key first len rule: lower_bound.induct)
  case (1 ks key first len)
  define mid where "mid = first + len div 2"
  have mono: "\<not> key_less (ks ! j) (ks ! i)" if "i < j" "j < length ks" for i j
    using that "1.prems"(1) by (simp add: keys_sorted_def sorted_wrt_iff_nth_less)
  show ?case
  proof (cases "len = 0")
    case True
    then have "lower_bound ks key first len = first" by (simp add: lower_bound.simps)
    with True "1.prems" show ?thesis by simp
  next
    case False
    then have mid: "mid < length ks" using "1.prems"(2) by (simp add: mid_def)
    show ?thesis
    proof (cases "key_less (ks ! mid) key")
      case True
      have low: "\<forall>i < mid + 1. key_less (ks ! i) key"
      proof (intro allI impI)
        fix i assume "i < mid + 1"
        then show "key_less (ks ! i) key"
          using le_key_less [OF mono [of i mid] True] True mid by (cases "i = mid") auto
      qed
      have eq: "lower_bound ks key first len = lower_bound ks key (mid + 1) (len - len div 2 - 1)"
        using True False by (subst lower_bound.simps) (simp add: Let_def mid_def)
      have sum: "mid + 1 + (len - len div 2 - 1) = first + len" using False by (simp add: mid_def)
      from "1.IH"(1) [OF False refl mid_def True "1.prems"(1) _ low] "1.prems"(2,4)
      show ?thesis unfolding eq sum by blast
    next
      case ge: False
      have high: "\<forall>i < length ks. first + len div 2 \<le> i \<longrightarrow> \<not> key_less (ks ! i) key"
      proof (intro allI impI)
        fix i assume "i < length ks" "first + len div 2 \<le> i"
        then show "\<not> key_less (ks ! i) key"
          using le_key_less [OF mono [of mid i]] ge by (cases "i = mid") (auto simp: mid_def)
      qed
      have eq: "lower_bound ks key first len = lower_bound ks key first (len div 2)"
        using ge False by (subst lower_bound.simps) (simp add: Let_def mid_def)
      from "1.IH"(2) [OF False refl mid_def ge "1.prems"(1) _ "1.prems"(3) high] "1.prems"(2)
      show ?thesis unfolding eq by simp
    qed
  qed
qed

lemma find_key_Some:
  "find_key kvs key = Some v \<Longrightarrow> keys_sorted (map fst kvs) \<Longrightarrow> (key, v) \<in> set kvs"
  using lower_bound_window [of "map fst kvs" 0 "length kvs" key]
  by (auto simp: find_key_def Let_def split: if_splits) (metis le_neq_implies_less nth_mem prod.collapse)

lemma find_key_None:
  assumes "find_key kvs key = None" "keys_sorted (map fst kvs)"
  shows "key \<notin> fst ` set kvs"
proof
  assume "key \<in> fst ` set kvs"
  then obtain j where j: "j < length kvs" "fst (kvs ! j) = key" by (auto simp: in_set_conv_nth)
  define i where "i = lower_bound (map fst kvs) key 0 (length kvs)"
  have w: "i \<le> length kvs" "\<forall>k < i. k < length kvs \<longrightarrow> key_less (fst (kvs ! k)) key"
    "\<forall>k < length kvs. i \<le> k \<longrightarrow> \<not> key_less (fst (kvs ! k)) key"
    using lower_bound_window [of "map fst kvs" 0 "length kvs" key] assms(2) by (auto simp: i_def)
  from w(2) j have ij: "i \<le> j" using key_less_irrefl by (metis not_less)
  with j have il: "i < length kvs" by simp
  have "\<not> key_less key (fst (kvs ! i))"
  proof (cases "i = j")
    case False
    with ij j assms(2) show ?thesis by (auto simp: keys_sorted_def sorted_wrt_iff_nth_less)
  qed (use j in simp)
  moreover have "\<not> key_less (fst (kvs ! i)) key" using w(3) il by simp
  ultimately have "fst (kvs ! i) = key" by (rule key_less_total [rotated])
  with assms(1) il show False by (simp add: find_key_def Let_def i_def split: if_splits)
qed

lemma key_sorterD:
  assumes "key_sorter srt"
  shows "set (srt kvs) = set kvs" "keys_sorted (map fst (srt kvs))"
  using assms by (auto simp: key_sorter_def dest: mset_eq_setD)

lemma rv_has_object:
  assumes "key_sorter srt"
  shows "rv_has srt (RObject kvs False) key = Inr (key \<in> fst ` set kvs)"
  using find_key_None [of "srt kvs" key] find_key_Some [of "srt kvs" key] key_sorterD [OF assms, of kvs]
  by (cases "find_key (srt kvs) key") (auto simp: rv_has_def sort_children_def, force)

lemma rv_at_object:
  assumes "key_sorter srt" "rv_at srt (RObject kvs False) key = Inr v"
  shows "(key, v) \<in> set kvs"
  using assms find_key_Some [of "srt kvs" key] key_sorterD [OF assms(1), of kvs]
  by (auto simp: rv_at_def sort_children_def split: option.splits)

lemma rv_at_distinct:
  assumes "key_sorter srt" "distinct (map fst kvs)"
  shows "rv_at srt (RObject kvs False) key =
    (case map_of kvs key of Some v \<Rightarrow> Inr v | None \<Rightarrow> Inl (RuntimeError (''cannot find key: '' @ key)))"
proof (cases "find_key (srt kvs) key")
  case None
  then have "key \<notin> fst ` set kvs"
    using find_key_None [of "srt kvs" key] key_sorterD [OF assms(1), of kvs] by simp
  then have "map_of kvs key = None" by (simp add: map_of_eq_None_iff)
  with None show ?thesis by (simp add: rv_at_def sort_children_def)
next
  case (Some v)
  then have "(key, v) \<in> set kvs"
    using find_key_Some [of "srt kvs" key] key_sorterD [OF assms(1), of kvs] by simp
  then have "map_of kvs key = Some v" using assms(2) by (simp add: map_of_is_SomeI)
  with Some show ?thesis by (simp add: rv_at_def sort_children_def)
qed

text \<open>A stable merge or insertion sort satisfies the contract.\<close>

fun key_insert :: "string \<times> rvalue \<Rightarrow> (string \<times> rvalue) list \<Rightarrow> (string \<times> rvalue) list" where
  "key_insert x [] = [x]"
| "key_insert x (y # ys) = (if key_less (fst y) (fst x) then y # key_insert x ys else x # y # ys)"

definition insertion_sort :: kv_sort where
  "insertion_sort kvs = foldr key_insert kvs []"

lemma mset_key_insert [simp]: "mset (key_insert x ys) = add_mset x (mset ys)"
  by (induction ys) auto

lemma sorted_key_insert:
  "keys_sorted (map fst ys) \<Longrightarrow> keys_sorted (map fst (key_insert x ys))"
proof (induction ys)
  case (Cons y ys)
  have set: "set (key_insert x ys) = insert x (set ys)"
    by (metis mset_key_insert set_mset_add_mset_insert set_mset_mset)
  show ?case
  proof (cases "key_less (fst y) (fst x)")
    case True
    with Cons set show ?thesis by (auto simp: keys_sorted_def dest: key_less_trans)
  next
    case False
    have "\<not> key_less k (fst x)" if "k \<in> fst ` set ys" for k
      using that Cons.prems False le_key_less [of k "fst y" "fst x"] by (auto simp: keys_sorted_def)
    with Cons False show ?thesis by (auto simp: keys_sorted_def)
  qed
qed (simp add: keys_sorted_def)

lemma key_sorter_insertion_sort: "key_sorter insertion_sort"
proof -
  have "mset (foldr key_insert kvs []) = mset kvs \<and> keys_sorted (map fst (foldr key_insert kvs []))"
    for kvs by (induction kvs) (auto simp: sorted_key_insert, simp add: keys_sorted_def)
  then show ?thesis by (simp add: key_sorter_def insertion_sort_def)
qed

end
