(* ===== verification/Json_Write.thy ===== *)
theory Json_Write
  imports Json_Read
begin

text \<open>
  The JSON writer of \<open>crow/json.h\<close>: the value \<open>wvalue\<close> with its constructors from C++ values and
  from an \<open>rvalue\<close>, \<open>operator=\<close>, \<open>operator[]\<close> by key and by index, \<open>count\<close>, \<open>keys\<close>, \<open>size\<close>,
  \<open>estimate_length\<close>, the serializer \<open>dump_internal\<close> with its number formatting and the loop that
  cuts trailing zeros, and \<open>wvalue_reader\<close>. The round trip through \<open>load\<close> is at the end.
\<close>

subsection \<open>Values\<close>

text \<open>
  The members that count in each state of the tag. \<open>nt\<close> splits the numbers by their union member:
  \<open>WFloat\<close> is a number stored by \<open>operator=(float)\<close> or read from text with a point or exponent,
  \<open>WDouble\<close> one stored by \<open>operator=(double)\<close>. An object holds its members with distinct keys in
  the order they were inserted; the order in which \<open>unordered_map\<close> visits them is \<open>bucket_order\<close>.
\<close>

datatype wvalue =
  WNull
| WFalse
| WTrue
| WSigned i64
| WUnsigned u64
| WFloat double
| WDouble double
| WString string
| WList "wvalue list"
| WObject "(string \<times> wvalue) list"
| WFunction

text \<open>
  What the C++ implementation fixes: \<open>DECIMAL_DIG\<close> (21 with an 80-bit \<open>long double\<close>, 17 where it
  is a double) and the order of an \<open>unordered_map\<close> as positions in the order of insertion.
\<close>

record json_impl =
  decimal_dig :: nat
  bucket_order :: "string list \<Rightarrow> nat list"

definition json_impl_ok :: "json_impl \<Rightarrow> bool" where
  "json_impl_ok J \<longleftrightarrow> 1 \<le> decimal_dig J \<and> (\<forall>ks. mset (bucket_order J ks) = mset [0..<length ks])"

definition iterate :: "json_impl \<Rightarrow> (string \<times> 'a) list \<Rightarrow> (string \<times> 'a) list" where
  "iterate J kvs = map ((!) kvs) (bucket_order J (map fst kvs))"

definition wv_t :: "wvalue \<Rightarrow> jtype" where
  "wv_t v = (case v of WNull \<Rightarrow> TNull | WFalse \<Rightarrow> TFalse | WTrue \<Rightarrow> TTrue | WSigned _ \<Rightarrow> TNumber
     | WUnsigned _ \<Rightarrow> TNumber | WFloat _ \<Rightarrow> TNumber | WDouble _ \<Rightarrow> TNumber | WString _ \<Rightarrow> TString
     | WList _ \<Rightarrow> TList | WObject _ \<Rightarrow> TObject | WFunction \<Rightarrow> TFunction)"

definition wv_empty_object :: wvalue where
  "wv_empty_object = WObject []"

definition wv_of_bool :: "bool \<Rightarrow> wvalue" where
  "wv_of_bool b = (if b then WTrue else WFalse)"

definition wv_of_int :: "int \<Rightarrow> wvalue" where
  "wv_of_int i = WSigned (word_of_int i)"

subsection \<open>Assignment and access\<close>

text \<open>\<open>(*o)[str]\<close> on the map: the slot of the key, made with a null value if it is new.\<close>

fun slot_update :: "string \<Rightarrow> (wvalue \<Rightarrow> wvalue) \<Rightarrow> (string \<times> wvalue) list \<Rightarrow> (string \<times> wvalue) list" where
  "slot_update k f [] = [(k, f WNull)]"
| "slot_update k f ((k', v) # kvs) =
     (if k' = k then (k', f v) # kvs else (k', v) # slot_update k f kvs)"

text \<open>\<open>v[str] op ...\<close>: \<open>operator[]\<close> turns any other value into an empty object first.\<close>

definition wv_key_update :: "string \<Rightarrow> (wvalue \<Rightarrow> wvalue) \<Rightarrow> wvalue \<Rightarrow> wvalue" where
  "wv_key_update k f v = WObject (slot_update k f (case v of WObject kvs \<Rightarrow> kvs | _ \<Rightarrow> []))"

definition wv_put :: "string \<Rightarrow> wvalue \<Rightarrow> wvalue \<Rightarrow> wvalue" where
  "wv_put k x = wv_key_update k (\<lambda>_. x)"

text \<open>
  \<open>v[index] op ...\<close>: the list grows to \<open>index + 1\<close> elements, computed in 32 unsigned bits, so the
  largest index does not grow it and refers past its end.
\<close>

definition wv_index_update :: "32 word \<Rightarrow> (wvalue \<Rightarrow> wvalue) \<Rightarrow> wvalue \<Rightarrow> wvalue result" where
  "wv_index_update index f v =
     (let l = (case v of WList vs \<Rightarrow> vs | _ \<Rightarrow> []);
          n = unat (index + 1);
          l' = (if length l < n then l @ replicate (n - length l) WNull else l)
      in if unat index < length l' then Inr (WList (l'[unat index := f (l' ! unat index)]))
         else Inl (UB ''list index past the end''))"

definition wv_count :: "wvalue \<Rightarrow> string \<Rightarrow> int" where
  "wv_count v str = (case v of WObject kvs \<Rightarrow> if str \<in> fst ` set kvs then 1 else 0 | _ \<Rightarrow> 0)"

definition wv_keys :: "json_impl \<Rightarrow> wvalue \<Rightarrow> string list" where
  "wv_keys J v = (case v of WObject kvs \<Rightarrow> map fst (iterate J kvs) | _ \<Rightarrow> [])"

definition wv_size :: "wvalue \<Rightarrow> nat" where
  "wv_size v = (case v of WList vs \<Rightarrow> length vs | _ \<Rightarrow> 1)"

fun estimate_length :: "wvalue \<Rightarrow> nat" where
  "estimate_length WNull = 4"
| "estimate_length WFalse = 5"
| "estimate_length WTrue = 4"
| "estimate_length (WSigned _) = 30"
| "estimate_length (WUnsigned _) = 30"
| "estimate_length (WFloat _) = 30"
| "estimate_length (WDouble _) = 30"
| "estimate_length (WString s) = 2 + length s + length s div 2"
| "estimate_length (WList vs) = sum_list (map (\<lambda>x. 1 + estimate_length x) vs) + 2"
| "estimate_length (WObject kvs) =
     sum_list (map (\<lambda>kv. 2 + (2 + length (fst kv) + length (fst kv) div 2) + estimate_length (snd kv)) kvs) + 2"
| "estimate_length WFunction = 0"

text \<open>The constructor from an \<open>rvalue\<close>; \<open>emplace\<close> keeps the first of several equal keys.\<close>

definition emplace :: "string \<Rightarrow> wvalue \<Rightarrow> (string \<times> wvalue) list \<Rightarrow> (string \<times> wvalue) list" where
  "emplace k v kvs = (if k \<in> fst ` set kvs then kvs else kvs @ [(k, v)])"

fun seq_results :: "'a result list \<Rightarrow> 'a list result" where
  "seq_results [] = Inr []"
| "seq_results (r # rs) = bind_result r (\<lambda>x. bind_result (seq_results rs) (\<lambda>xs. Inr (x # xs)))"

fun wv_of_rvalue :: "rvalue \<Rightarrow> wvalue result" where
  "wv_of_rvalue RError = Inl (RuntimeError ''invalid json object'')"
| "wv_of_rvalue RNull = Inr WNull"
| "wv_of_rvalue RFalse = Inr WFalse"
| "wv_of_rvalue RTrue = Inr WTrue"
| "wv_of_rvalue (RNumber txt) =
     Inr (case determine_num_type txt of
            Signed_integer \<Rightarrow> WSigned (extract_int64 txt)
          | Unsigned_integer \<Rightarrow> WUnsigned (extract_uint64 txt)
          | _ \<Rightarrow> WFloat (extract_double txt))"
| "wv_of_rvalue (RString raw esc) = bind_result (rv_s (RString raw esc)) (\<lambda>s. Inr (WString s))"
| "wv_of_rvalue (RList vs) =
     bind_result (seq_results (map wv_of_rvalue vs)) (\<lambda>ws. Inr (WList ws))"
| "wv_of_rvalue (RObject kvs cached) =
     bind_result (seq_results (map (\<lambda>kv. wv_of_rvalue (snd kv)) kvs)) (\<lambda>ws.
       Inr (WObject (foldl (\<lambda>acc (k, w). emplace k w acc) [] (zip (map fst kvs) ws))))"

subsection \<open>Serialization\<close>

datatype f_state = FStart | FDecp | FZero

text \<open>
  The loop over the formatted number: \<open>i\<close> is the offset of \<open>p\<close> in the buffer, \<open>pos\<close> the recorded
  \<open>pos_first_trailing_0\<close>.
\<close>

function trim_loop :: "f_state \<Rightarrow> nat \<Rightarrow> nat option \<Rightarrow> string \<Rightarrow> nat option" where
  "trim_loop st i pos [] = pos"
| "trim_loop FStart i pos (ch # s) =
     (if ch = CHR ''.''
      then (if cur s = CHR ''0'' then trim_loop FDecp (i + 2) pos (tl s) else trim_loop FDecp (i + 1) pos s)
      else trim_loop FStart (i + 1) pos s)"
| "trim_loop FDecp i pos (ch # s) =
     (if ch = CHR ''0'' then trim_loop FZero (i + 1) (Some i) s else trim_loop FDecp (i + 1) pos s)"
| "trim_loop FZero i pos (ch # s) =
     (if ch \<noteq> CHR ''0'' then trim_loop FDecp (i + 1) None s else trim_loop FZero (i + 1) pos s)"
  by pat_completeness auto
termination
  by (relation "measure (\<lambda>(st, i, pos, s). length s)") auto

definition trim_zeros :: "string \<Rightarrow> string" where
  "trim_zeros buf = (case trim_loop FStart 0 None buf of None \<Rightarrow> buf | Some i \<Rightarrow> take i buf)"

text \<open>The number formats, through a buffer of 128 bytes.\<close>

definition dump_floating :: "json_impl \<Rightarrow> bool \<Rightarrow> double \<Rightarrow> string" where
  "dump_floating J is_double d =
     (if dbl_isnan d \<or> dbl_isinf d then ''null''
      else trim_zeros (take 127 (if is_double then fmt_g (decimal_dig J) d else fmt_f d)))"

definition dump_string :: "string \<Rightarrow> string" where
  "dump_string str = QUOTE # escape str @ [QUOTE]"

definition dump_indentation_part :: "int \<Rightarrow> char \<Rightarrow> int \<Rightarrow> string" where
  "dump_indentation_part indent separator indent_level =
     LF # replicate (nat (indent_level * indent)) separator"

definition indentation :: "int \<Rightarrow> char \<Rightarrow> int \<Rightarrow> string" where
  "indentation indent separator indent_level =
     (if 0 \<le> indent then dump_indentation_part indent separator indent_level else [])"

fun join :: "string \<Rightarrow> string list \<Rightarrow> string" where
  "join sep [] = []"
| "join sep [x] = x"
| "join sep (x # y # xs) = x @ sep @ join sep (y # xs)"

fun dump_internal :: "json_impl \<Rightarrow> int \<Rightarrow> char \<Rightarrow> int \<Rightarrow> wvalue \<Rightarrow> string" where
  "dump_internal J indent separator lvl WNull = ''null''"
| "dump_internal J indent separator lvl WFalse = ''false''"
| "dump_internal J indent separator lvl WTrue = ''true''"
| "dump_internal J indent separator lvl (WSigned si) = int_to_string (sint si)"
| "dump_internal J indent separator lvl (WUnsigned ui) = int_to_string (uint ui)"
| "dump_internal J indent separator lvl (WFloat d) = dump_floating J False d"
| "dump_internal J indent separator lvl (WDouble d) = dump_floating J True d"
| "dump_internal J indent separator lvl (WString s) = dump_string s"
| "dump_internal J indent separator lvl (WList vs) =
     ''['' @ indentation indent separator (lvl + 1)
     @ join ('','' @ indentation indent separator (lvl + 1))
         (map (dump_internal J indent separator (lvl + 1)) vs)
     @ indentation indent separator lvl @ '']''"
| "dump_internal J indent separator lvl (WObject kvs) =
     ''{'' @ indentation indent separator (lvl + 1)
     @ join ('','' @ indentation indent separator (lvl + 1))
         (map (\<lambda>(k, t). dump_string k @ '':'' @ (if 0 \<le> indent then '' '' else []) @ t)
           (iterate J (map (\<lambda>kv. (fst kv, dump_internal J indent separator (lvl + 1) (snd kv))) kvs)))
     @ indentation indent separator lvl @ ''}''"
| "dump_internal J indent separator lvl WFunction = ''custom function''"

definition dump_indent :: "json_impl \<Rightarrow> int \<Rightarrow> char \<Rightarrow> wvalue \<Rightarrow> string" where
  "dump_indent J indent separator v = dump_internal J indent separator 0 v"

definition dump :: "json_impl \<Rightarrow> wvalue \<Rightarrow> string" where
  "dump J v = dump_indent J (- 1) (CHR '' '') v"

subsection \<open>\<open>wvalue_reader\<close>\<close>

definition reader_get_int :: "wvalue \<Rightarrow> i64 \<Rightarrow> i64" where
  "reader_get_int v fallback = (case v of WSigned n \<Rightarrow> n | WUnsigned n \<Rightarrow> n | _ \<Rightarrow> fallback)"

definition reader_get_double :: "wvalue \<Rightarrow> double \<Rightarrow> double" where
  "reader_get_double v fallback = (case v of WFloat d \<Rightarrow> d | _ \<Rightarrow> fallback)"

definition reader_get_bool :: "wvalue \<Rightarrow> bool \<Rightarrow> bool" where
  "reader_get_bool v fallback = (case v of WTrue \<Rightarrow> True | WFalse \<Rightarrow> False | _ \<Rightarrow> fallback)"

definition reader_get_string :: "wvalue \<Rightarrow> string \<Rightarrow> string" where
  "reader_get_string v fallback = (case v of WString s \<Rightarrow> s | _ \<Rightarrow> fallback)"

subsection \<open>Reading back what was written\<close>

text \<open>
  The value \<open>load\<close> makes of a dumped \<open>wvalue\<close>: numbers as their texts, strings raw, objects in
  the order they were visited; a number that is not finite is written as \<open>null\<close>.
\<close>

fun read_back :: "json_impl \<Rightarrow> wvalue \<Rightarrow> rvalue" where
  "read_back J WNull = RNull"
| "read_back J WFalse = RFalse"
| "read_back J WTrue = RTrue"
| "read_back J (WSigned si) = RNumber (int_to_string (sint si))"
| "read_back J (WUnsigned ui) = RNumber (int_to_string (uint ui))"
| "read_back J (WFloat d) = (if dbl_isnan d \<or> dbl_isinf d then RNull else RNumber (dump_floating J False d))"
| "read_back J (WDouble d) = (if dbl_isnan d \<or> dbl_isinf d then RNull else RNumber (dump_floating J True d))"
| "read_back J (WString s) = RString (escape s) (\<exists>c \<in> set s. needs_escape c)"
| "read_back J (WList vs) = RList (map (read_back J) vs)"
| "read_back J (WObject kvs) = RObject (map (\<lambda>kv. (fst kv, read_back J (snd kv))) kvs) False"
| "read_back J WFunction = RError"

text \<open>The same value with every object's members in the order in which they are visited.\<close>

fun visit :: "json_impl \<Rightarrow> wvalue \<Rightarrow> wvalue" where
  "visit J (WList vs) = WList (map (visit J) vs)"
| "visit J (WObject kvs) = WObject (iterate J (map (\<lambda>kv. (fst kv, visit J (snd kv))) kvs))"
| "visit J v = v"

fun height :: "wvalue \<Rightarrow> nat" where
  "height (WList vs) = Suc (foldr max (map height vs) 0)"
| "height (WObject kvs) = Suc (foldr max (map (\<lambda>kv. height (snd kv)) kvs) 0)"
| "height v = 0"

text \<open>No function anywhere, and number texts that the reader's grammar accepts.\<close>

fun writable :: "json_impl \<Rightarrow> wvalue \<Rightarrow> bool" where
  "writable J (WFloat d) \<longleftrightarrow> dbl_isnan d \<or> dbl_isinf d \<or> g_number (dump_floating J False d)"
| "writable J (WDouble d) \<longleftrightarrow> dbl_isnan d \<or> dbl_isinf d \<or> g_number (dump_floating J True d)"
| "writable J (WList vs) \<longleftrightarrow> list_all (writable J) vs"
| "writable J (WObject kvs) \<longleftrightarrow> list_all (\<lambda>kv. writable J (snd kv)) kvs"
| "writable J WFunction \<longleftrightarrow> False"
| "writable J _ \<longleftrightarrow> True"

lemma foldr_max_le: "(foldr max (map f xs) 0 \<le> (n::nat)) \<longleftrightarrow> (\<forall>x \<in> set xs. f x \<le> n)"
  by (induction xs) auto

lemma ws_skip_head [simp]: "\<not> is_ws c \<Longrightarrow> ws_skip (c # s) = c # s"
  by (simp add: ws_skip_def)

lemma ws_skip_Nil [simp]: "ws_skip [] = []"
  by (simp add: ws_skip_def)

lemma is_ws_punct [simp]:
  "\<not> is_ws CHR ''[''" "\<not> is_ws CHR '']''" "\<not> is_ws CHR ''{''" "\<not> is_ws CHR ''}''"
  "\<not> is_ws CHR '',''" "\<not> is_ws CHR '':''" "\<not> is_ws QUOTE"
  by (simp_all add: is_ws_def)

lemma number_char_punct [simp]:
  "\<not> number_char CHR '']''" "\<not> number_char CHR ''}''" "\<not> number_char CHR '',''"
  by (simp_all add: number_char_def is_digit_code)

lemma decode_value_number:
  assumes "g_number t" "\<not> number_char (cur r)"
  shows "decode_value d (t @ r) = (RNumber t, r)"
proof -
  obtain c u where t: "t = c # u" and c: "is_digit c \<or> c = CHR ''-''"
    using assms(1) by (cases t) (auto simp: g_number_def g_unsigned_def split: if_splits)
  have "lift_number (t @ r) = (RNumber t, r)"
    using assms decode_number_grammar [of "t @ r" t r] by (simp add: lift_number_def)
  moreover have "c \<notin> {CHR ''['', CHR ''{'', QUOTE, CHR ''t'', CHR ''f'', CHR ''n''}"
    using c by (auto simp: is_digit_code)
  ultimately show ?thesis using t by (subst decode_value.simps) simp
qed

lemma decode_value_string:
  "decode_value d (dump_string s @ r) = (RString (escape s) (\<exists>c \<in> set s. needs_escape c), r)"
  by (simp add: decode_value.simps dump_string_def lift_string_def decode_string_escape)

lemma decode_value_words:
  "decode_value d (''null'' @ r) = (RNull, r)"
  "decode_value d (''true'' @ r) = (RTrue, r)"
  "decode_value d (''false'' @ r) = (RFalse, r)"
  by (simp_all add: decode_value.simps is_prefix_def)

lemma unescape_key: "rv_text (rv_unescape (RString (escape k) (\<exists>c \<in> set k. needs_escape c))) = k"
  by (auto simp: rv_text_def rv_unescape_def unescape_escape escape_id)

text \<open>A text that starts a value: not with white space, and not with a closing bracket.\<close>

definition value_head :: "string \<Rightarrow> bool" where
  "value_head t \<longleftrightarrow> t \<noteq> [] \<and> \<not> is_ws (hd t) \<and> hd t \<noteq> CHR '']'' \<and> hd t \<noteq> CHR ''}''"

lemma value_head_append [simp]:
  assumes "value_head t"
  shows "ws_skip (t @ r) = t @ r" "cur (t @ r) \<noteq> CHR '']''"
  using assms by (cases t; simp add: value_head_def)+

lemma value_head_cur: "value_head t \<Longrightarrow> cur (t @ r) \<noteq> CHR ''}''"
  by (cases t) (simp_all add: value_head_def)

lemma value_head_join: "xs \<noteq> [] \<Longrightarrow> \<forall>x \<in> set xs. value_head x \<Longrightarrow> value_head (join sep xs)"
  by (induction sep xs rule: join.induct) (auto simp: value_head_def)

lemma value_head_number: "g_number t \<Longrightarrow> value_head t"
  by (cases t) (auto simp: value_head_def g_number_def g_unsigned_def is_ws_def is_digit_code split: if_splits)

lemma value_head_dump:
  assumes "writable J v"
  shows "value_head (dump_internal J (- 1) sep lvl v)"
  using assms
  by (cases v) (auto simp: value_head_number g_number_int dump_string_def,
    auto simp: value_head_def is_ws_def dump_floating_def)

lemma list_loop_join:
  assumes "\<And>w r. w \<in> set (v # vs) \<Longrightarrow> \<not> number_char (cur r) \<Longrightarrow> decode_value (d + 1) (f w @ r) = (g w, r)"
    and "\<And>w. w \<in> set (v # vs) \<Longrightarrow> rv_bool (g w) \<and> value_head (f w)"
  shows "list_loop d acc (join '','' (map f (v # vs)) @ CHR '']'' # r) = (RList (acc @ map g (v # vs)), r)"
  using assms
proof (induction vs arbitrary: v acc)
  case Nil
  have "decode_value (d + 1) (f v @ CHR '']'' # r) = (g v, CHR '']'' # r)"
    by (rule Nil.prems(1)) simp_all
  with Nil.prems(2) [of v] show ?case by (subst list_loop_eq) simp
next
  case (Cons w vs)
  define rest where "rest = join '','' (map f (w # vs)) @ CHR '']'' # r"
  have "value_head (join '','' (map f (w # vs)))"
    by (rule value_head_join) (use Cons.prems(2) in auto)
  then have ws: "ws_skip rest = rest" by (simp add: rest_def del: join.simps list.map)
  have dv: "decode_value (d + 1) (f v @ CHR '','' # rest) = (g v, CHR '','' # rest)"
    by (rule Cons.prems(1)) simp_all
  have "list_loop d acc (f v @ CHR '','' # rest) = list_loop d (acc @ [g v]) rest"
    using Cons.prems(2) [of v] ws dv by (subst list_loop_eq) (simp add: consume_def)
  also have "\<dots> = (RList ((acc @ [g v]) @ map g (w # vs)), r)"
    unfolding rest_def by (rule Cons.IH) (use Cons.prems in auto)
  finally show ?case by (simp add: rest_def)
qed

definition member_text :: "('a \<Rightarrow> string) \<Rightarrow> string \<times> 'a \<Rightarrow> string" where
  "member_text f kv = dump_string (fst kv) @ CHR '':'' # f (snd kv)"

lemma value_head_member [simp]: "value_head (member_text f kv)"
  by (simp add: member_text_def dump_string_def value_head_def)

lemma object_member:
  assumes "decode_value (d + 1) (f (snd kv) @ q) = (g (snd kv), q)"
    "rv_bool (g (snd kv))" "value_head (f (snd kv))" "cur q = CHR '','' \<or> cur q = CHR ''}''"
  shows "object_loop d acc (member_text f kv @ q) =
    (if cur q = CHR ''}'' then (RObject (acc @ [(fst kv, g (snd kv))]) False, tl q)
     else object_loop d (acc @ [(fst kv, g (snd kv))]) (ws_skip (tl q)))"
proof -
  have ds: "decode_string (member_text f kv @ q)
      = Some (escape (fst kv), \<exists>c \<in> set (fst kv). needs_escape c, CHR '':'' # f (snd kv) @ q)"
    using decode_string_escape [of "fst kv" "CHR '':'' # f (snd kv) @ q"]
    by (simp add: member_text_def dump_string_def)
  have ws: "ws_skip q = q" using assms(4) by (cases q) auto
  from assms ds ws show ?thesis
    by (subst object_loop_eq) (auto simp: consume_def unescape_key)
qed

lemma object_loop_join:
  assumes "\<And>w r. w \<in> set (v # vs) \<Longrightarrow> \<not> number_char (cur r)
      \<Longrightarrow> decode_value (d + 1) (f (snd w) @ r) = (g (snd w), r)"
    and "\<And>w. w \<in> set (v # vs) \<Longrightarrow> rv_bool (g (snd w)) \<and> value_head (f (snd w))"
  shows "object_loop d acc (join '','' (map (member_text f) (v # vs)) @ CHR ''}'' # r)
    = (RObject (acc @ map (\<lambda>kv. (fst kv, g (snd kv))) (v # vs)) False, r)"
  using assms
proof (induction vs arbitrary: v acc)
  case Nil
  then show ?case by (simp add: object_member)
next
  case (Cons w vs)
  define rest where "rest = join '','' (map (member_text f) (w # vs)) @ CHR ''}'' # r"
  have "value_head (join '','' (map (member_text f) (w # vs)))"
    by (rule value_head_join) auto
  then have ws: "ws_skip rest = rest" by (simp add: rest_def del: join.simps list.map)
  have "object_loop d acc (member_text f v @ CHR '','' # rest)
      = object_loop d (acc @ [(fst v, g (snd v))]) rest"
    using Cons.prems [of v] ws by (subst object_member) auto
  also have "\<dots> = (RObject ((acc @ [(fst v, g (snd v))]) @ map (\<lambda>kv. (fst kv, g (snd kv))) (w # vs)) False, r)"
    unfolding rest_def by (rule Cons.IH) (use Cons.prems in auto)
  finally show ?case by (simp add: rest_def)
qed

lemma iterate_map:
  assumes "json_impl_ok J" "\<And>kv. fst (h kv) = fst kv"
  shows "iterate J (map h kvs) = map h (iterate J kvs)"
proof -
  have "set (bucket_order J (map fst kvs)) = {0..<length kvs}"
    using assms(1) by (metis json_impl_ok_def length_map mset_eq_setD set_upt)
  moreover have "map fst (map h kvs) = map fst kvs" using assms(2) by simp
  ultimately show ?thesis unfolding iterate_def by (simp only: map_map) (rule map_cong, auto)
qed

lemma mset_iterate:
  assumes "json_impl_ok J"
  shows "mset (iterate J kvs) = mset kvs"
proof -
  have "mset (iterate J kvs) = image_mset ((!) kvs) (mset [0..<length kvs])"
    using assms by (simp add: iterate_def json_impl_ok_def)
  also have "\<dots> = mset (map ((!) kvs) [0..<length kvs])" by (simp only: mset_map)
  finally show ?thesis by (simp only: map_nth)
qed

lemma set_iterate [simp]: "json_impl_ok J \<Longrightarrow> set (iterate J kvs) = set kvs"
  by (metis mset_iterate mset_eq_setD)

lemma iterate_empty [simp]: "json_impl_ok J \<Longrightarrow> iterate J kvs = [] \<longleftrightarrow> kvs = []"
  by (metis mset_iterate mset_zero_iff)

lemma read_back_visit_bool: "writable J v \<Longrightarrow> rv_bool (read_back J (visit J v))"
  by (cases v) (auto simp: rv_bool_def)

lemma not_g_number_null: "\<not> g_number ''null''"
  by (simp add: g_number_def g_unsigned_def is_digit_code)

lemma dump_decode:
  assumes "json_impl_ok J"
  shows "writable J v \<Longrightarrow> d + 2 * height v \<le> 10001 \<Longrightarrow> \<not> number_char (cur r)
    \<Longrightarrow> decode_value d (dump_internal J (- 1) sep lvl v @ r) = (read_back J (visit J v), r)"
proof (induction v arbitrary: d lvl r)
  case (WList vs)
  have "decode_value d (dump_internal J (- 1) sep lvl (WList vs) @ r)
      = decode_list (d + 1) (CHR ''['' # join '','' (map (dump_internal J (- 1) sep (lvl + 1)) vs) @ CHR '']'' # r)"
    by (simp add: decode_value.simps [of d] indentation_def)
  also have "\<dots> = (read_back J (visit J (WList vs)), r)"
  proof (cases vs)
    case Nil
    with WList.prems show ?thesis by (simp add: decode_list.simps consume_def max_depth_def)
  next
    case (Cons w ws)
    let ?f = "dump_internal J (- 1) sep (lvl + 1)" and ?g = "\<lambda>v. read_back J (visit J v)"
    have loop: "list_loop (d + 1) [] (join '','' (map ?f (w # ws)) @ CHR '']'' # r)
        = (RList ([] @ map ?g (w # ws)), r)"
    proof (rule list_loop_join)
      fix u q assume u: "u \<in> set (w # ws)" "\<not> number_char (cur q)"
      have "height u \<le> foldr max (map height vs) 0"
        using foldr_max_le [of height vs "foldr max (map height vs) 0"] u Cons by auto
      with WList.prems(2) have "d + 1 + 1 + 2 * height u \<le> 10001" by simp
      with u Cons WList.prems(1) show "decode_value (d + 1 + 1) (?f u @ q) = (?g u, q)"
        by (intro WList.IH) (auto simp: list_all_iff)
    qed (use WList.prems(1) Cons in \<open>auto simp: list_all_iff read_back_visit_bool value_head_dump\<close>)
    have "value_head (join '','' (map ?f (w # ws)))"
      by (rule value_head_join) (use WList.prems(1) Cons in \<open>auto simp: list_all_iff value_head_dump\<close>)
    with loop Cons WList.prems(2) show ?thesis
      by (simp add: decode_list.simps consume_def max_depth_def del: join.simps list.map)
  qed
  finally show ?case .
next
  case (WObject kvs)
  let ?f = "dump_internal J (- 1) sep (lvl + 1)" and ?g = "\<lambda>v. read_back J (visit J v)"
  define ps where "ps = iterate J kvs"
  have set_ps: "set ps = set kvs" using assms by (simp add: ps_def)
  have members: "map (\<lambda>(k, t). dump_string k @ '':'' @ (if 0 \<le> (- 1 :: int) then '' '' else []) @ t)
      (iterate J (map (\<lambda>kv. (fst kv, ?f (snd kv))) kvs)) = map (member_text ?f) ps"
    using iterate_map [OF assms, of "\<lambda>kv. (fst kv, ?f (snd kv))" kvs]
    by (simp add: ps_def member_text_def comp_def)
  have rb: "read_back J (visit J (WObject kvs)) = RObject (map (\<lambda>kv. (fst kv, ?g (snd kv))) ps) False"
    using iterate_map [OF assms, of "\<lambda>kv. (fst kv, visit J (snd kv))" kvs]
    by (simp add: ps_def comp_def)
  have "decode_value d (dump_internal J (- 1) sep lvl (WObject kvs) @ r)
      = decode_object (d + 1) (CHR ''{'' # join '','' (map (member_text ?f) ps) @ CHR ''}'' # r)"
    unfolding dump_internal.simps members by (simp add: decode_value.simps [of d] indentation_def)
  also have "\<dots> = (read_back J (visit J (WObject kvs)), r)"
  proof (cases ps)
    case Nil
    with WObject.prems show ?thesis
      unfolding rb by (simp add: decode_object.simps consume_def max_depth_def)
  next
    case (Cons w ws)
    have loop: "object_loop (d + 1) [] (join '','' (map (member_text ?f) (w # ws)) @ CHR ''}'' # r)
        = (RObject ([] @ map (\<lambda>kv. (fst kv, ?g (snd kv))) (w # ws)) False, r)"
    proof (rule object_loop_join)
      fix u q assume u: "u \<in> set (w # ws)" "\<not> number_char (cur q)"
      then have kv: "u \<in> set kvs" using Cons set_ps by auto
      have "height (snd u) \<le> foldr max (map (\<lambda>kv. height (snd kv)) kvs) 0"
        using foldr_max_le [of "\<lambda>kv. height (snd kv)" kvs "foldr max (map (\<lambda>kv. height (snd kv)) kvs) 0"] kv
        by auto
      with WObject.prems(2) have "d + 1 + 1 + 2 * height (snd u) \<le> 10001" by simp
      with u kv WObject.prems(1) show "decode_value (d + 1 + 1) (?f (snd u) @ q) = (?g (snd u), q)"
        by (intro WObject.IH [of u]) (auto simp: list_all_iff snds.simps)
    next
      fix u assume "u \<in> set (w # ws)"
      then have "u \<in> set kvs" using Cons set_ps by auto
      then show "rv_bool (?g (snd u)) \<and> value_head (?f (snd u))"
        using WObject.prems(1) by (auto simp: list_all_iff read_back_visit_bool value_head_dump)
    qed
    have "value_head (join '','' (map (member_text ?f) (w # ws)))"
      by (rule value_head_join) auto
    then have "cur (join '','' (map (member_text ?f) (w # ws)) @ CHR ''}'' # r) \<noteq> CHR ''}''"
      "ws_skip (join '','' (map (member_text ?f) (w # ws)) @ CHR ''}'' # r)
        = join '','' (map (member_text ?f) (w # ws)) @ CHR ''}'' # r"
      by (simp_all add: value_head_cur del: join.simps list.map)
    with loop Cons WObject.prems(2) show ?thesis
      unfolding rb by (simp add: decode_object.simps consume_def max_depth_def del: join.simps list.map)
  qed
  finally show ?case .
qed (auto simp: decode_value_words [simplified] decode_value_number decode_value_string g_number_int,
  auto simp: dump_floating_def decode_value_words [simplified] not_g_number_null)

theorem load_dump:
  assumes "json_impl_ok J" "writable J v" "height v \<le> 5000"
  shows "load (dump J v) = read_back J (visit J v)"
proof -
  have "value_head (dump J v)"
    using value_head_dump [OF assms(2)] by (simp add: dump_def dump_indent_def)
  then have ws: "ws_skip (dump J v) = dump J v" using value_head_append(1) [of _ "[]"] by simp
  have "decode_value 0 (dump J v) = (read_back J (visit J v), [])"
    using dump_decode [OF assms(1,2), of 0 "[]" "CHR '' ''" 0] assms(3)
    by (simp add: dump_def dump_indent_def)
  with ws show ?thesis by (simp add: load_def parse_def)
qed

end
