(* ===== verification/Service_State.thy ===== *)
theory Service_State
  imports Http Json_Write
begin

text \<open>
  The process-wide state of the service: the counters of \<open>include/metrics.h\<close>, the flags of
  \<open>include/service_state.h\<close>, the settings of \<open>include/runtime_config.h\<close>, and the pure helpers of
  \<open>src/main.cpp\<close> that read the environment or build an error response. Counters are
  \<open>std::atomic\<close> integers, whose arithmetic wraps at their width.
\<close>

subsection \<open>State\<close>

record svc =
  total_requests :: i32
  orders_created :: i32
  orders_paid :: i32
  cache_hits :: i32
  cache_misses :: i32
  overload_rejections :: i32
  shutdown_rejections :: i32
  redis_errors :: i32
  sqlite_errors :: i32
  in_flight_requests :: i32
  request_duration_ms_total :: i64
  request_duration_ms_max :: i64
  request_duration_samples :: i64
  shutting_down :: bool
  db_ready :: bool
  redis_available :: bool
  max_inflight_requests :: i32
  api_key :: string
  cache_ttl_seconds :: i32
  redis_client :: bool  \<comment> \<open>\<open>redis != nullptr\<close>\<close>

definition initial_svc :: svc where
  "initial_svc = \<lparr>total_requests = 0, orders_created = 0, orders_paid = 0, cache_hits = 0, cache_misses = 0,
     overload_rejections = 0, shutdown_rejections = 0, redis_errors = 0, sqlite_errors = 0,
     in_flight_requests = 0, request_duration_ms_total = 0, request_duration_ms_max = 0,
     request_duration_samples = 0, shutting_down = False, db_ready = False, redis_available = False,
     max_inflight_requests = 64, api_key = ''1234567'', cache_ttl_seconds = 300, redis_client = False\<rparr>"

text \<open>
  \<open>observe_request_duration_ms\<close> run by one thread; the interleaved loop is in \<open>Concurrency\<close>.
\<close>

definition observe_request_duration_ms :: "i64 \<Rightarrow> svc \<Rightarrow> svc" where
  "observe_request_duration_ms duration_ms s =
     s\<lparr>request_duration_ms_total := request_duration_ms_total s + duration_ms,
       request_duration_samples := request_duration_samples s + 1,
       request_duration_ms_max :=
         (if request_duration_ms_max s <s duration_ms then duration_ms else request_duration_ms_max s)\<rparr>"

definition is_probe_path :: "string \<Rightarrow> bool" where
  "is_probe_path path \<longleftrightarrow> path = ''/healthcheck'' \<or> path = ''/readiness'' \<or> path = ''/metrics''"

definition is_ready :: "svc \<Rightarrow> bool" where
  "is_ready s \<longleftrightarrow> db_ready s \<and> \<not> shutting_down s"

definition readiness_status :: "svc \<Rightarrow> string" where
  "readiness_status s =
     (if \<not> db_ready s then ''db_unavailable''
      else if shutting_down s then ''shutting_down''
      else if \<not> redis_available s then ''degraded''
      else ''ready'')"

subsection \<open>Configuration\<close>

text \<open>The process environment as \<open>getenv\<close> shows it.\<close>

type_synonym environ = "string \<Rightarrow> string option"

definition get_env :: "environ \<Rightarrow> string \<Rightarrow> string \<Rightarrow> string" where
  "get_env env var default_val = (case env var of Some val \<Rightarrow> val | None \<Rightarrow> default_val)"

datatype log_level = LTrace | LDebug | LInfo | LWarn | LErr | LCritical | LOff

definition parse_log_level :: "string \<Rightarrow> log_level" where
  "parse_log_level raw_level =
     (let level = map c_tolower raw_level
      in if level = ''trace'' then LTrace
         else if level = ''debug'' then LDebug
         else if level = ''warn'' \<or> level = ''warning'' then LWarn
         else if level = ''error'' then LErr
         else if level = ''critical'' then LCritical
         else if level = ''off'' then LOff
         else LInfo)"

text \<open>
  The settings \<open>main\<close> reads before it serves: the key, the cache lifetime and the request budget
  go into the state; the port and the drain time stay local. A malformed number is an exception
  out of \<open>stoi\<close> that nothing catches.
\<close>

definition load_limits :: "environ \<Rightarrow> svc \<Rightarrow> svc result" where
  "load_limits env s =
     bind_result (stoi (get_env env ''CACHE_TTL_SECONDS'' ''300'')) (\<lambda>ttl.
     bind_result (stoi (get_env env ''MAX_INFLIGHT_REQUESTS'' ''64'')) (\<lambda>limit.
       Inr (s\<lparr>api_key := get_env env ''API_KEY'' ''1234567'',
              cache_ttl_seconds := word_of_int (max 1 ttl),
              max_inflight_requests := word_of_int (max 1 limit)\<rparr>)))"

definition load_port :: "environ \<Rightarrow> int result" where
  "load_port env = stoi (get_env env ''SERVER_PORT'' ''8080'')"

definition load_drain_ms :: "environ \<Rightarrow> int result" where
  "load_drain_ms env =
     bind_result (stoi (get_env env ''SHUTDOWN_DRAIN_MS'' ''250'')) (\<lambda>ms. Inr (max 0 ms))"

subsection \<open>Error responses\<close>

definition error_value :: "string \<Rightarrow> wvalue" where
  "error_value message = wv_put ''error'' (WString message) WNull"

text \<open>\<open>response(int, wvalue)\<close>.\<close>

definition json_response :: "json_impl \<Rightarrow> int \<Rightarrow> wvalue \<Rightarrow> response" where
  "json_response J c v = response_returnable c ''application/json'' (dump J v)"

definition json_error :: "json_impl \<Rightarrow> int \<Rightarrow> string \<Rightarrow> response" where
  "json_error J c message = json_response J c (error_value message)"

subsection \<open>Lemmas\<close>

lemma max_word_range:
  assumes "v \<le> int_max" "1 \<le> (v::int)"
  shows "sint (word_of_int v :: i32) = v"
  using assms by (simp add: int_limits sint_sbintrunc' signed_take_bit_int_eq_self)

text \<open>Whatever the environment holds, the limits that are stored are at least one.\<close>

lemma load_limits_positive:
  assumes "load_limits env s = Inr s'"
  shows "1 \<le> sint (cache_ttl_seconds s')" "1 \<le> sint (max_inflight_requests s')"
proof -
  from assms obtain ttl limit where st: "stoi (get_env env ''CACHE_TTL_SECONDS'' ''300'') = Inr ttl"
    "stoi (get_env env ''MAX_INFLIGHT_REQUESTS'' ''64'') = Inr limit"
    and s': "s' = s\<lparr>api_key := get_env env ''API_KEY'' ''1234567'',
              cache_ttl_seconds := word_of_int (max 1 ttl),
              max_inflight_requests := word_of_int (max 1 limit)\<rparr>"
    by (auto simp: load_limits_def bind_result_eq_Inr)
  have "ttl \<le> int_max" "limit \<le> int_max" using st by (auto dest: stoi_range)
  then have "sint (word_of_int (max 1 ttl) :: i32) = max 1 ttl"
    "sint (word_of_int (max 1 limit) :: i32) = max 1 limit"
    by (auto intro!: max_word_range simp: int_limits)
  then show "1 \<le> sint (cache_ttl_seconds s')" "1 \<le> sint (max_inflight_requests s')"
    by (simp_all add: s')
qed

lemma readiness_status_ready: "readiness_status s = ''ready'' \<longleftrightarrow> is_ready s \<and> redis_available s"
  by (auto simp: readiness_status_def is_ready_def)

lemma is_ready_iff: "is_ready s \<longleftrightarrow> readiness_status s \<in> {''ready'', ''degraded''}"
  by (auto simp: readiness_status_def is_ready_def)

lemma json_response_simps [simp]:
  "rcode (json_response J c v) = c" "body (json_response J c v) = dump J v"
  "completed (json_response J c v) = False" "rcode (json_error J c m) = c"
  "completed (json_error J c m) = False" "body (json_error J c m) = dump J (error_value m)"
  by (simp_all add: json_response_def json_error_def response_returnable_def new_response_def)

lemma observe_max_monotone:
  "sint (request_duration_ms_max s) \<le> sint (request_duration_ms_max (observe_request_duration_ms d s))"
  "sint d \<le> sint (request_duration_ms_max (observe_request_duration_ms d s))"
  by (auto simp: observe_request_duration_ms_def word_sless_alt)

end
