(* ===== verification/Orders.thy ===== *)
theory Orders
  imports Service_State
begin

text \<open>
  The order handlers of \<open>src/order_routes.cpp\<close> with the validators of \<open>include/helpers.hpp\<close> and the
  two helpers of \<open>src/main.cpp\<close> they call. SQLite and Redis are parameters: records of the calls
  the handlers make, over abstract states. Calls that give different values each time (\<open>time\<close>,
  \<open>rand\<close>) are arguments of the handlers that make them, the local time zone is a field of the
  environment. Log lines are left out.
\<close>

subsection \<open>The libraries the handlers call\<close>

datatype sqlite_rc = SQLITE_ROW | SQLITE_DONE | SQLITE_FAIL

text \<open>
  \<open>prepare\<close> gives a statement only with \<open>SQLITE_OK\<close>; the column functions read the current row of
  a statement, a text column that holds NULL gives the null pointer.
\<close>

record ('d, 's) sqlite =
  sq_prepare :: "string \<Rightarrow> 'd \<Rightarrow> 'd \<times> 's option"
  sq_bind_text :: "'s \<Rightarrow> nat \<Rightarrow> string \<Rightarrow> 'd \<Rightarrow> 'd"
  sq_bind_double :: "'s \<Rightarrow> nat \<Rightarrow> double \<Rightarrow> 'd \<Rightarrow> 'd"
  sq_bind_int64 :: "'s \<Rightarrow> nat \<Rightarrow> i64 \<Rightarrow> 'd \<Rightarrow> 'd"
  sq_step :: "'s \<Rightarrow> 'd \<Rightarrow> 'd \<times> sqlite_rc"
  sq_column_double :: "'s \<Rightarrow> nat \<Rightarrow> 'd \<Rightarrow> double"
  sq_column_int64 :: "'s \<Rightarrow> nat \<Rightarrow> 'd \<Rightarrow> i64"
  sq_column_text :: "'s \<Rightarrow> nat \<Rightarrow> 'd \<Rightarrow> string option"
  sq_changes :: "'d \<Rightarrow> int"
  sq_finalize :: "'s \<Rightarrow> 'd \<Rightarrow> 'd"

text \<open>\<open>Inl\<close> is a \<open>sw::redis::Error\<close> with its message.\<close>

record 'r redis =
  rd_set :: "string \<Rightarrow> string \<Rightarrow> int \<Rightarrow> 'r \<Rightarrow> 'r \<times> (string + unit)"
  rd_get :: "string \<Rightarrow> 'r \<Rightarrow> 'r \<times> (string + string option)"
  rd_del :: "string \<Rightarrow> 'r \<Rightarrow> 'r \<times> (string + int)"

record ('d, 's, 'r) deps =
  sq :: "('d, 's) sqlite"
  rd :: "'r redis"
  json :: json_impl
  key_sort :: kv_sort
  localtime_text :: "i64 \<Rightarrow> string"  \<comment> \<open>\<open>strftime\<close> of \<open>localtime\<close>\<close>

record ('d, 'r) world =
  svc_of :: svc
  db :: 'd
  cache :: 'r

text \<open>
  A handler may throw; what it did before stays done. \<open>throwing\<close> continues with the value of a
  call that may throw.
\<close>

type_synonym ('d, 'r) outcome = "('d, 'r) world \<times> response result"

definition throwing :: "'a result \<Rightarrow> ('d, 'r) world \<Rightarrow> ('a \<Rightarrow> ('d, 'r) outcome) \<Rightarrow> ('d, 'r) outcome" where
  "throwing r w f = (case r of Inl e \<Rightarrow> (w, Inl e) | Inr x \<Rightarrow> f x)"

definition on_svc :: "(svc \<Rightarrow> svc) \<Rightarrow> ('d, 'r) world \<Rightarrow> ('d, 'r) world" where
  "on_svc f w = w\<lparr>svc_of := f (svc_of w)\<rparr>"

subsection \<open>Validation and helpers\<close>

definition is_valid_amount :: "rvalue \<Rightarrow> bool result" where
  "is_valid_amount val = bind_result (rv_t val) (\<lambda>ty.
     if ty \<noteq> TNumber then Inr False else bind_result (rv_d val) (\<lambda>d. Inr (dbl_pos d)))"

text \<open>The definition of \<open>helpers.hpp\<close>, which \<open>order_routes.cpp\<close> is compiled with.\<close>

definition is_valid_order_no :: "rvalue \<Rightarrow> bool" where
  "is_valid_order_no val =
     (if \<not> rv_bool val then False
      else case bind_result (rv_t val) (\<lambda>ty.
             if ty \<noteq> TString then Inr False
             else bind_result (rv_s val) (\<lambda>s. Inr (s \<noteq> [] \<and> take 3 s = ''ORD''))) of
             Inl e \<Rightarrow> False
           | Inr b \<Rightarrow> b)"

text \<open>The definition of \<open>main.cpp\<close> under the same name.\<close>

definition is_valid_order_no_main :: "rvalue \<Rightarrow> bool result" where
  "is_valid_order_no_main val = bind_result (rv_t val) (\<lambda>ty.
     if ty \<noteq> TString then Inr False else bind_result (rv_s val) (\<lambda>s. Inr (0 < length s)))"

definition generate_order_no :: "i64 \<Rightarrow> int \<Rightarrow> string" where
  "generate_order_no timestamp rnd =
     ''ORD'' @ int_to_string (sint timestamp) @ int_to_string (rnd mod 100000)"

definition format_time :: "('d, 's, 'r) deps \<Rightarrow> i64 \<Rightarrow> string" where
  "format_time D t = (if t = 0 then ''N/A'' else localtime_text D t)"

definition record_sqlite_failure :: "svc \<Rightarrow> svc" where
  "record_sqlite_failure s = s\<lparr>sqlite_errors := sqlite_errors s + 1\<rparr>"

definition record_redis_failure :: "svc \<Rightarrow> svc" where
  "record_redis_failure s = s\<lparr>redis_errors := redis_errors s + 1, redis_available := False\<rparr>"

definition record_redis_success :: "svc \<Rightarrow> svc" where
  "record_redis_success s = s\<lparr>redis_available := True\<rparr>"

subsection \<open>The cache\<close>

definition cache_key :: "string \<Rightarrow> string" where
  "cache_key order_no = ''order:'' @ order_no"

definition try_cache_order ::
  "('d, 's, 'r) deps \<Rightarrow> string \<Rightarrow> string \<Rightarrow> ('d, 'r) world \<Rightarrow> ('d, 'r) world \<times> bool" where
  "try_cache_order D order_no payload w =
     (if \<not> redis_client (svc_of w) then (on_svc record_redis_failure w, False)
      else case rd_set (rd D) (cache_key order_no) payload (sint (cache_ttl_seconds (svc_of w))) (cache w) of
             (c, Inr _) \<Rightarrow> (on_svc record_redis_success (w\<lparr>cache := c\<rparr>), True)
           | (c, Inl _) \<Rightarrow> (on_svc record_redis_failure (w\<lparr>cache := c\<rparr>), False))"

definition try_get_cached_order ::
  "('d, 's, 'r) deps \<Rightarrow> string \<Rightarrow> ('d, 'r) world \<Rightarrow> ('d, 'r) world \<times> string option" where
  "try_get_cached_order D order_no w =
     (if \<not> redis_client (svc_of w) then (on_svc record_redis_failure w, None)
      else case rd_get (rd D) (cache_key order_no) (cache w) of
             (c, Inr (Some val)) \<Rightarrow>
               (on_svc (\<lambda>s. (record_redis_success s)\<lparr>cache_hits := cache_hits s + 1\<rparr>) (w\<lparr>cache := c\<rparr>), Some val)
           | (c, Inr None) \<Rightarrow>
               (on_svc (\<lambda>s. (record_redis_success s)\<lparr>cache_misses := cache_misses s + 1\<rparr>) (w\<lparr>cache := c\<rparr>), None)
           | (c, Inl _) \<Rightarrow>
               (on_svc (\<lambda>s. record_redis_failure (s\<lparr>cache_misses := cache_misses s + 1\<rparr>)) (w\<lparr>cache := c\<rparr>), None))"

definition invalidate_cached_order ::
  "('d, 's, 'r) deps \<Rightarrow> string \<Rightarrow> ('d, 'r) world \<Rightarrow> ('d, 'r) world" where
  "invalidate_cached_order D order_no w =
     (if \<not> redis_client (svc_of w) then on_svc record_redis_failure w
      else case rd_del (rd D) (cache_key order_no) (cache w) of
             (c, Inr _) \<Rightarrow> on_svc record_redis_success (w\<lparr>cache := c\<rparr>)
           | (c, Inl _) \<Rightarrow> on_svc record_redis_failure (w\<lparr>cache := c\<rparr>))"

subsection \<open>Statements\<close>

definition insert_sql :: string where
  "insert_sql = ''INSERT INTO orders (order_no, amount, status, created_at, paid_at) VALUES (?, ?, ?, ?, ?);''"

definition get_sql :: string where
  "get_sql = ''SELECT amount, status, created_at, paid_at FROM orders WHERE order_no = ?;''"

definition select_sql :: string where
  "select_sql = ''SELECT amount, status, created_at FROM orders WHERE order_no = ?;''"

definition update_sql :: string where
  "update_sql = ''UPDATE orders SET status = '' @ [CHR 0x27] @ ''PAID'' @ [CHR 0x27] @
     '', paid_at = ? WHERE order_no = ?;''"

definition sql_all :: string where
  "sql_all = ''SELECT order_no, amount, status, created_at, paid_at FROM orders;''"

definition sql_filtered :: string where
  "sql_filtered = ''SELECT order_no, amount, status, created_at, paid_at FROM orders WHERE status = ?;''"

definition delete_sql :: string where
  "delete_sql = ''DELETE FROM orders WHERE order_no = ?;''"

text \<open>A text is bound as a C string with length \<open>-1\<close>: up to its first NUL.\<close>

datatype binding = BText string | BDouble double | BInt64 i64

fun bind_one :: "('d, 's) sqlite \<Rightarrow> 's \<Rightarrow> nat \<times> binding \<Rightarrow> 'd \<Rightarrow> 'd" where
  "bind_one Q s (i, BText t) = sq_bind_text Q s i (c_str t)"
| "bind_one Q s (i, BDouble x) = sq_bind_double Q s i x"
| "bind_one Q s (i, BInt64 n) = sq_bind_int64 Q s i n"

definition bind_all :: "('d, 's) sqlite \<Rightarrow> 's \<Rightarrow> binding list \<Rightarrow> 'd \<Rightarrow> 'd" where
  "bind_all Q s bs = fold (bind_one Q s) (enumerate 1 bs)"

text \<open>Prepare a statement, bind its arguments and step it once: \<open>None\<close> when it does not prepare.\<close>

definition exec :: "('d, 's) sqlite \<Rightarrow> string \<Rightarrow> binding list \<Rightarrow> 'd \<Rightarrow> 'd \<times> ('s \<times> sqlite_rc) option" where
  "exec Q sql bs d = (case sq_prepare Q sql d of
     (d1, None) \<Rightarrow> (d1, None)
   | (d1, Some s) \<Rightarrow> (case sq_step Q s (bind_all Q s bs d1) of (d2, rc) \<Rightarrow> (d2, Some (s, rc))))"

definition finish :: "('d, 's, 'r) deps \<Rightarrow> 's \<Rightarrow> ('d, 'r) world \<Rightarrow> ('d, 'r) world" where
  "finish D s w = w\<lparr>db := sq_finalize (sq D) s (db w)\<rparr>"

definition error_outcome :: "('d, 's, 'r) deps \<Rightarrow> int \<Rightarrow> string \<Rightarrow> ('d, 'r) world \<Rightarrow> ('d, 'r) outcome" where
  "error_outcome D c message w = (w, Inr (json_error (json D) c message))"

subsection \<open>\<open>create_order\<close>\<close>

definition order_created_value :: "('d, 's, 'r) deps \<Rightarrow> string \<Rightarrow> double \<Rightarrow> i64 \<Rightarrow> wvalue" where
  "order_created_value D order_no amount now =
     wv_put ''created_at'' (WString (format_time D now))
      (wv_put ''status'' (WString ''PENDING'')
       (wv_put ''amount'' (WDouble amount)
        (wv_put ''order_no'' (WString order_no) WNull)))"

text \<open>
  The insertion and the caching of the new order are separate calls, between which other threads
  may run. \<open>ts\<close> and \<open>now\<close> are the two readings of the clock, \<open>rnd\<close> the value of \<open>rand()\<close>.
\<close>

definition create_insert ::
  "('d, 's, 'r) deps \<Rightarrow> string \<Rightarrow> i64 \<Rightarrow> double \<Rightarrow> ('d, 'r) world \<Rightarrow> ('d, 'r) world \<times> (response + wvalue)" where
  "create_insert D order_no now amount w =
     (case exec (sq D) insert_sql
             [BText order_no, BDouble amount, BText ''PENDING'', BInt64 now, BInt64 0] (db w) of
        (d, None) \<Rightarrow>
          (on_svc record_sqlite_failure (w\<lparr>db := d\<rparr>), Inl (json_error (json D) 500 ''Internal DB error''))
      | (d, Some (stmt, rc)) \<Rightarrow>
          if rc \<noteq> SQLITE_DONE
          then (finish D stmt (on_svc record_sqlite_failure (w\<lparr>db := d\<rparr>)),
                Inl (json_error (json D) 500 ''Database error while creating order''))
          else (on_svc (\<lambda>s. s\<lparr>orders_created := orders_created s + 1\<rparr>) (finish D stmt (w\<lparr>db := d\<rparr>)),
                Inr (order_created_value D order_no amount now)))"

definition create_cache ::
  "('d, 's, 'r) deps \<Rightarrow> string \<Rightarrow> wvalue \<Rightarrow> ('d, 'r) world \<Rightarrow> ('d, 'r) outcome" where
  "create_cache D order_no res w =
     (fst (try_cache_order D order_no (dump (json D) res) w), Inr (json_response (json D) 200 res))"

definition insert_order ::
  "('d, 's, 'r) deps \<Rightarrow> i64 \<Rightarrow> int \<Rightarrow> i64 \<Rightarrow> double \<Rightarrow> ('d, 'r) world \<Rightarrow> ('d, 'r) outcome" where
  "insert_order D ts rnd now amount w =
     (let order_no = generate_order_no ts rnd
      in case create_insert D order_no now amount w of
           (w1, Inl r) \<Rightarrow> (w1, Inr r)
         | (w1, Inr res) \<Rightarrow> create_cache D order_no res w1)"

definition create_order ::
  "('d, 's, 'r) deps \<Rightarrow> i64 \<Rightarrow> int \<Rightarrow> i64 \<Rightarrow> request \<Rightarrow> ('d, 'r) world \<Rightarrow> ('d, 'r) outcome" where
  "create_order D ts rnd now req w =
     (let bdy = load (req_body req); S = key_sort D
      in if \<not> rv_bool bdy then error_outcome D 400 ''Invalid JSON format'' w
         else throwing (bind_result (rv_has S bdy ''amount'') (\<lambda>h.
                if \<not> h then Inr False else bind_result (rv_at S bdy ''amount'') is_valid_amount)) w (\<lambda>valid.
           if \<not> valid then error_outcome D 400 ''Missing amount'' w
           else throwing (bind_result (rv_at S bdy ''amount'') rv_t) w (\<lambda>ty.
             if ty \<noteq> TNumber then error_outcome D 400 ''Amount must be a number'' w
             else throwing (bind_result (rv_at S bdy ''amount'') rv_d) w (\<lambda>amount.
               insert_order D ts rnd now amount w))))"

subsection \<open>\<open>get_order\<close>\<close>

definition paid_at_value :: "('d, 's, 'r) deps \<Rightarrow> i64 \<Rightarrow> wvalue" where
  "paid_at_value D paid_at = (if paid_at = 0 then WNull else WString (format_time D paid_at))"

definition order_value :: "('d, 's, 'r) deps \<Rightarrow> string \<Rightarrow> double \<Rightarrow> string \<Rightarrow> i64 \<Rightarrow> i64 \<Rightarrow> wvalue" where
  "order_value D order_no amount status created_at paid_at =
     wv_put ''paid_at'' (paid_at_value D paid_at)
      (wv_put ''created_at'' (WString (format_time D created_at))
       (wv_put ''status'' (WString status)
        (wv_put ''amount'' (WDouble amount)
         (wv_put ''order_no'' (WString order_no) WNull))))"

text \<open>\<open>const string status = ...\<close> of a null pointer throws in the standard library of the build.\<close>

definition string_of_ptr :: "string option \<Rightarrow> string result" where
  "string_of_ptr p = (case p of Some t \<Rightarrow> Inr t | None \<Rightarrow> Inl (StdError ''basic_string: construction from null''))"

definition get_order :: "('d, 's, 'r) deps \<Rightarrow> string \<Rightarrow> ('d, 'r) world \<Rightarrow> ('d, 'r) outcome" where
  "get_order D order_no w = (case try_get_cached_order D order_no w of
     (w1, Some cached) \<Rightarrow> (w1, Inr (response_body cached))
   | (w1, None) \<Rightarrow>
       (case exec (sq D) get_sql [BText order_no] (db w1) of
          (d, None) \<Rightarrow>
            error_outcome D 500 ''Internal DB error'' (on_svc record_sqlite_failure (w1\<lparr>db := d\<rparr>))
        | (d, Some (stmt, rc)) \<Rightarrow>
            if rc \<noteq> SQLITE_ROW
            then error_outcome D 404 ''Order not found'' (finish D stmt (w1\<lparr>db := d\<rparr>))
            else throwing (string_of_ptr (sq_column_text (sq D) stmt 1 d)) (w1\<lparr>db := d\<rparr>) (\<lambda>status.
                   (finish D stmt (w1\<lparr>db := d\<rparr>),
                    Inr (json_response (json D) 200
                      (order_value D order_no (sq_column_double (sq D) stmt 0 d) status
                        (sq_column_int64 (sq D) stmt 2 d) (sq_column_int64 (sq D) stmt 3 d)))))))"

subsection \<open>\<open>pay_order\<close>\<close>

text \<open>
  Up to the check of the status: either the response is decided, or the order number, the amount
  and the creation time go on to the update. The two halves are separate calls into the database,
  between which other threads may run.
\<close>

type_synonym pay_ticket = "string \<times> double \<times> i64"

definition pay_lookup ::
  "('d, 's, 'r) deps \<Rightarrow> string \<Rightarrow> ('d, 'r) world \<Rightarrow> ('d, 'r) world \<times> (response result + pay_ticket)" where
  "pay_lookup D order_no w = (case exec (sq D) select_sql [BText order_no] (db w) of
     (d, None) \<Rightarrow>
       (on_svc record_sqlite_failure (w\<lparr>db := d\<rparr>), Inl (Inr (json_error (json D) 500 ''Internal DB error'')))
   | (d, Some (stmt, rc)) \<Rightarrow>
       if rc \<noteq> SQLITE_ROW
       then (finish D stmt (w\<lparr>db := d\<rparr>), Inl (Inr (json_error (json D) 404 ''Order not found'')))
       else (case string_of_ptr (sq_column_text (sq D) stmt 1 d) of
               Inl e \<Rightarrow> (w\<lparr>db := d\<rparr>, Inl (Inl e))
             | Inr status \<Rightarrow>
                 if status = ''PAID''
                 then (finish D stmt (w\<lparr>db := d\<rparr>), Inl (Inr (json_error (json D) 400 ''Already paid'')))
                 else (finish D stmt (w\<lparr>db := d\<rparr>),
                       Inr (order_no, sq_column_double (sq D) stmt 0 d, sq_column_int64 (sq D) stmt 2 d))))"

definition paid_value :: "('d, 's, 'r) deps \<Rightarrow> string \<Rightarrow> double \<Rightarrow> i64 \<Rightarrow> i64 \<Rightarrow> wvalue" where
  "paid_value D order_no amount created_at now =
     wv_put ''paid_at'' (WString (format_time D now))
      (wv_put ''created_at'' (WString (format_time D created_at))
       (wv_put ''amount'' (WDouble amount)
        (wv_put ''status'' (WString ''PAID'')
         (wv_put ''order_no'' (WString order_no) WNull))))"

definition pay_update ::
  "('d, 's, 'r) deps \<Rightarrow> i64 \<Rightarrow> pay_ticket \<Rightarrow> ('d, 'r) world \<Rightarrow> ('d, 'r) outcome" where
  "pay_update D now ticket w = (case ticket of (order_no, amount, created_at) \<Rightarrow>
     case exec (sq D) update_sql [BInt64 now, BText order_no] (db w) of
       (d, None) \<Rightarrow>
         error_outcome D 500 ''Internal DB error'' (on_svc record_sqlite_failure (w\<lparr>db := d\<rparr>))
     | (d, Some (stmt, rc)) \<Rightarrow>
         if rc \<noteq> SQLITE_DONE
         then error_outcome D 500 ''Failed to mark order as paid''
                (finish D stmt (on_svc record_sqlite_failure (w\<lparr>db := d\<rparr>)))
         else let w1 = on_svc (\<lambda>s. s\<lparr>orders_paid := orders_paid s + 1\<rparr>) (finish D stmt (w\<lparr>db := d\<rparr>));
                  w2 = invalidate_cached_order D order_no w1
              in (w2, Inr (json_response (json D) 200 (paid_value D order_no amount created_at now))))"

definition pay_order ::
  "('d, 's, 'r) deps \<Rightarrow> i64 \<Rightarrow> request \<Rightarrow> ('d, 'r) world \<Rightarrow> ('d, 'r) outcome" where
  "pay_order D now req w =
     (let bdy = load (req_body req); S = key_sort D
      in if \<not> rv_bool bdy then error_outcome D 400 ''Invalid JSON format'' w
         else throwing (bind_result (rv_has S bdy ''order_no'') (\<lambda>h.
                if \<not> h then Inr False
                else bind_result (rv_at S bdy ''order_no'') (\<lambda>v. Inr (is_valid_order_no v)))) w (\<lambda>valid.
           if \<not> valid then error_outcome D 400 ''Missing order_no'' w
           else throwing (bind_result (rv_at S bdy ''order_no'') rv_t) w (\<lambda>ty.
             if ty \<noteq> TString then error_outcome D 400 ''order_no must be a string'' w
             else throwing (bind_result (rv_at S bdy ''order_no'') rv_s) w (\<lambda>order_no.
               case pay_lookup D order_no w of
                 (w1, Inl r) \<Rightarrow> (w1, r)
               | (w1, Inr ticket) \<Rightarrow> pay_update D now ticket w1))))"

subsection \<open>\<open>list_orders\<close>\<close>

text \<open>A \<open>char*\<close> assigned to a JSON value must not be null.\<close>

definition cstr_value :: "string option \<Rightarrow> wvalue result" where
  "cstr_value p = (case p of Some t \<Rightarrow> Inr (WString t) | None \<Rightarrow> Inl (UB ''assignment of a null char pointer''))"

definition row_value :: "('d, 's, 'r) deps \<Rightarrow> 's \<Rightarrow> 'd \<Rightarrow> wvalue result" where
  "row_value D stmt d =
     bind_result (cstr_value (sq_column_text (sq D) stmt 0 d)) (\<lambda>no.
     bind_result (cstr_value (sq_column_text (sq D) stmt 2 d)) (\<lambda>st.
       Inr (wv_put ''paid_at'' (paid_at_value D (sq_column_int64 (sq D) stmt 4 d))
             (wv_put ''created_at'' (WString (format_time D (sq_column_int64 (sq D) stmt 3 d)))
              (wv_put ''status'' st
               (wv_put ''amount'' (WDouble (sq_column_double (sq D) stmt 1 d))
                (wv_put ''order_no'' no WNull)))))))"

text \<open>
  The row loop; it ends when the statement gives no further row, which the model does not assume:
  with \<open>fuel\<close> steps it either ends or gives \<open>None\<close>. \<open>index\<close> is the \<open>int\<close> counter of the array.
\<close>

fun list_rows :: "nat \<Rightarrow> ('d, 's, 'r) deps \<Rightarrow> 's \<Rightarrow> int \<Rightarrow> wvalue \<Rightarrow> 'd \<Rightarrow> ('d \<times> wvalue result) option" where
  "list_rows 0 D stmt index arr d = None"
| "list_rows (Suc fuel) D stmt index arr d = (case sq_step (sq D) stmt d of (d1, rc) \<Rightarrow>
     if rc \<noteq> SQLITE_ROW then Some (d1, Inr arr)
     else (case row_value D stmt d1 of
             Inl e \<Rightarrow> Some (d1, Inl e)
           | Inr order \<Rightarrow>
               if index = int_max then Some (d1, Inl (UB ''overflow of the row index''))
               else (case wv_index_update (word_of_int index) (\<lambda>_. order) arr of
                       Inl e \<Rightarrow> Some (d1, Inl e)
                     | Inr arr' \<Rightarrow> list_rows fuel D stmt (index + 1) arr' d1)))"

definition list_body ::
  "nat \<Rightarrow> ('d, 's, 'r) deps \<Rightarrow> 's \<Rightarrow> ('d, 'r) world \<Rightarrow> ('d, 'r) outcome option" where
  "list_body fuel D stmt w = (case list_rows fuel D stmt 0 WNull (db w) of
     None \<Rightarrow> None
   | Some (d, Inl e) \<Rightarrow> Some (w\<lparr>db := d\<rparr>, Inl e)
   | Some (d, Inr arr) \<Rightarrow>
       Some (finish D stmt (w\<lparr>db := d\<rparr>), Inr (json_response (json D) 200 (wv_put ''orders'' arr WNull))))"

definition list_query ::
  "nat \<Rightarrow> ('d, 's, 'r) deps \<Rightarrow> string \<Rightarrow> ('d, 'r) world \<Rightarrow> ('d, 'r) outcome option" where
  "list_query fuel D query w =
     (case sq_prepare (sq D) (if query = [] then sql_all else sql_filtered) (db w) of
        (d, None) \<Rightarrow>
          Some (error_outcome D 500 ''Internal DB error'' (on_svc record_sqlite_failure (w\<lparr>db := d\<rparr>)))
      | (d, Some stmt) \<Rightarrow>
          list_body fuel D stmt
            (w\<lparr>db := bind_all (sq D) stmt (if query = [] then [] else [BText query]) d\<rparr>))"

definition list_orders ::
  "nat \<Rightarrow> ('d, 's, 'r) deps \<Rightarrow> request \<Rightarrow> ('d, 'r) world \<Rightarrow> ('d, 'r) outcome option" where
  "list_orders fuel D req w = (case qs_get (url_params req) ''status'' of
     Inl e \<Rightarrow> Some (w, Inl e)
   | Inr v \<Rightarrow> list_query fuel D (case v of Some t \<Rightarrow> t | None \<Rightarrow> []) w)"

subsection \<open>\<open>delete_order\<close>\<close>

definition delete_order :: "('d, 's, 'r) deps \<Rightarrow> string \<Rightarrow> ('d, 'r) world \<Rightarrow> ('d, 'r) outcome" where
  "delete_order D order_no w = (case exec (sq D) delete_sql [BText order_no] (db w) of
     (d, None) \<Rightarrow>
       error_outcome D 500 ''Internal DB error'' (on_svc record_sqlite_failure (w\<lparr>db := d\<rparr>))
   | (d, Some (stmt, rc)) \<Rightarrow>
       if rc \<noteq> SQLITE_DONE
       then error_outcome D 404 ''Order not found or could not delete'' (finish D stmt (w\<lparr>db := d\<rparr>))
       else let deleted_rows = sq_changes (sq D) d; w1 = finish D stmt (w\<lparr>db := d\<rparr>)
            in if deleted_rows = 0 then error_outcome D 404 ''Order not found'' w1
               else (invalidate_cached_order D order_no w1,
                     Inr (json_response (json D) 200
                       (wv_put ''order_no'' (WString order_no) (wv_put ''deleted'' WTrue WNull)))))"

end
