(* ===== verification/Order_Store.thy ===== *)
theory Order_Store
  imports Orders
begin

text \<open>
  What the order handlers promise, over any database and cache that keep their documented
  contracts. The abstract state is the table of orders; \<open>abs_create\<close>, \<open>abs_pay\<close> and \<open>abs_delete\<close> are
  its operations, and each handler is shown to implement the one its answer announces. The cache
  is related to the table by an invariant that every sequence of handler calls keeps as long as
  deletions in Redis succeed; the lemmas at the end show what breaks it.
\<close>

subsection \<open>The abstract table\<close>

record order =
  amount :: double
  status :: string
  created_at :: i64
  paid_at :: i64

type_synonym table = "string \<Rightarrow> order option"

definition pending_order :: "double \<Rightarrow> i64 \<Rightarrow> order" where
  "pending_order a now = \<lparr>amount = a, status = ''PENDING'', created_at = now, paid_at = 0\<rparr>"

definition abs_create :: "string \<Rightarrow> double \<Rightarrow> i64 \<Rightarrow> table \<Rightarrow> table" where
  "abs_create k a now T = T(k \<mapsto> pending_order a now)"

definition abs_pay :: "string \<Rightarrow> i64 \<Rightarrow> table \<Rightarrow> table" where
  "abs_pay k now T = (case T k of None \<Rightarrow> T | Some ord \<Rightarrow> T(k \<mapsto> ord\<lparr>status := ''PAID'', paid_at := now\<rparr>))"

definition abs_delete :: "string \<Rightarrow> table \<Rightarrow> table" where
  "abs_delete k T = T(k := None)"

subsection \<open>The contract of the database\<close>

text \<open>
  \<open>T\<close> reads the table \<open>orders\<close> out of a database state. A statement that does not prepare, or does
  not reach \<open>SQLITE_DONE\<close>, changes nothing; an insertion that is done had a new key (the column is
  the primary key); a row read back has the columns that were stored; \<open>changes\<close> counts the rows.
\<close>

definition prepare_ok :: "('d, 's) sqlite \<Rightarrow> ('d \<Rightarrow> table) \<Rightarrow> bool" where
  "prepare_ok Q T \<longleftrightarrow>
     (\<forall>sql bs d d'. exec Q sql bs d = (d', None) \<longrightarrow> T d' = T d) \<and> (\<forall>s d. T (sq_finalize Q s d) = T d)"

definition insert_ok :: "('d, 's) sqlite \<Rightarrow> ('d \<Rightarrow> table) \<Rightarrow> bool" where
  "insert_ok Q T \<longleftrightarrow> (\<forall>k a t p d d' s rc.
     exec Q insert_sql [BText k, BDouble a, BText ''PENDING'', BInt64 t, BInt64 p] d = (d', Some (s, rc)) \<longrightarrow>
     (if rc = SQLITE_DONE
      then T d (c_str k) = None \<and>
           (\<not> dbl_isnan a \<longrightarrow> T d' = (T d)(c_str k \<mapsto> \<lparr>amount = a, status = ''PENDING'', created_at = t, paid_at = p\<rparr>))
      else T d' = T d))"

definition row_ok :: "('d, 's) sqlite \<Rightarrow> 's \<Rightarrow> 'd \<Rightarrow> order \<Rightarrow> bool" where
  "row_ok Q s d ord \<longleftrightarrow> sq_column_double Q s 0 d = amount ord \<and>
     sq_column_text Q s 1 d = Some (status ord) \<and> sq_column_int64 Q s 2 d = created_at ord"

definition get_ok :: "('d, 's) sqlite \<Rightarrow> ('d \<Rightarrow> table) \<Rightarrow> bool" where
  "get_ok Q T \<longleftrightarrow> (\<forall>k d d' s rc. exec Q get_sql [BText k] d = (d', Some (s, rc)) \<longrightarrow> T d' = T d \<and>
     (rc = SQLITE_DONE \<longrightarrow> T d (c_str k) = None) \<and>
     (rc = SQLITE_ROW \<longrightarrow>
        (\<exists>ord. T d (c_str k) = Some ord \<and> row_ok Q s d' ord \<and> sq_column_int64 Q s 3 d' = paid_at ord)))"

definition select_ok :: "('d, 's) sqlite \<Rightarrow> ('d \<Rightarrow> table) \<Rightarrow> bool" where
  "select_ok Q T \<longleftrightarrow> (\<forall>k d d' s rc. exec Q select_sql [BText k] d = (d', Some (s, rc)) \<longrightarrow> T d' = T d \<and>
     (rc = SQLITE_DONE \<longrightarrow> T d (c_str k) = None) \<and>
     (rc = SQLITE_ROW \<longrightarrow> (\<exists>ord. T d (c_str k) = Some ord \<and> row_ok Q s d' ord)))"

definition update_ok :: "('d, 's) sqlite \<Rightarrow> ('d \<Rightarrow> table) \<Rightarrow> bool" where
  "update_ok Q T \<longleftrightarrow> (\<forall>k t d d' s rc. exec Q update_sql [BInt64 t, BText k] d = (d', Some (s, rc)) \<longrightarrow>
     T d' = (if rc = SQLITE_DONE then abs_pay (c_str k) t (T d) else T d))"

definition delete_ok :: "('d, 's) sqlite \<Rightarrow> ('d \<Rightarrow> table) \<Rightarrow> bool" where
  "delete_ok Q T \<longleftrightarrow> (\<forall>k d d' s rc. exec Q delete_sql [BText k] d = (d', Some (s, rc)) \<longrightarrow>
     (if rc = SQLITE_DONE
      then T d' = abs_delete (c_str k) (T d) \<and> sq_changes Q d' = (if T d (c_str k) = None then 0 else 1)
      else T d' = T d))"

definition sqlite_ok :: "('d, 's) sqlite \<Rightarrow> ('d \<Rightarrow> table) \<Rightarrow> bool" where
  "sqlite_ok Q T \<longleftrightarrow> prepare_ok Q T \<and> insert_ok Q T \<and> get_ok Q T \<and> select_ok Q T \<and> update_ok Q T \<and> delete_ok Q T"

subsection \<open>The contract of the cache\<close>

text \<open>
  \<open>L\<close> gives the live entries. Entries may expire at any call; a call that reports an error may or
  may not have taken effect.
\<close>

definition redis_set_ok :: "'r redis \<Rightarrow> ('r \<Rightarrow> string \<Rightarrow> string option) \<Rightarrow> bool" where
  "redis_set_ok R L \<longleftrightarrow>
     (\<forall>k v ttl r. L (fst (rd_set R k v ttl r)) \<subseteq>\<^sub>m (L r)(k \<mapsto> v))"

definition redis_get_ok :: "'r redis \<Rightarrow> ('r \<Rightarrow> string \<Rightarrow> string option) \<Rightarrow> bool" where
  "redis_get_ok R L \<longleftrightarrow> (\<forall>k r. L (fst (rd_get R k r)) \<subseteq>\<^sub>m L r
     \<and> (\<forall>v. snd (rd_get R k r) = Inr (Some v) \<longrightarrow> L r k = Some v))"

definition redis_del_ok :: "'r redis \<Rightarrow> ('r \<Rightarrow> string \<Rightarrow> string option) \<Rightarrow> bool" where
  "redis_del_ok R L \<longleftrightarrow> (\<forall>k r. L (fst (rd_del R k r)) \<subseteq>\<^sub>m L r
     \<and> (\<forall>n. snd (rd_del R k r) = Inr n \<longrightarrow> L (fst (rd_del R k r)) k = None))"

definition redis_ok :: "'r redis \<Rightarrow> ('r \<Rightarrow> string \<Rightarrow> string option) \<Rightarrow> bool" where
  "redis_ok R L \<longleftrightarrow> redis_set_ok R L \<and> redis_get_ok R L \<and> redis_del_ok R L"

lemma sqlite_okD:
  assumes "sqlite_ok Q T"
  shows "prepare_ok Q T" "insert_ok Q T" "get_ok Q T" "select_ok Q T" "update_ok Q T" "delete_ok Q T"
  using assms by (simp_all add: sqlite_ok_def)

lemma exec_none: "prepare_ok Q T \<Longrightarrow> exec Q sql bs d = (d', None) \<Longrightarrow> T d' = T d"
  unfolding prepare_ok_def by blast

lemma finalize_table: "prepare_ok Q T \<Longrightarrow> T (sq_finalize Q s d) = T d"
  unfolding prepare_ok_def by blast

lemma exec_insert:
  assumes "insert_ok Q T"
    "exec Q insert_sql [BText k, BDouble a, BText ''PENDING'', BInt64 t, BInt64 p] d = (d', Some (s, rc))"
  shows "rc = SQLITE_DONE \<Longrightarrow> T d (c_str k) = None"
    "rc = SQLITE_DONE \<Longrightarrow> \<not> dbl_isnan a \<Longrightarrow>
       T d' = (T d)(c_str k \<mapsto> \<lparr>amount = a, status = ''PENDING'', created_at = t, paid_at = p\<rparr>)"
    "rc \<noteq> SQLITE_DONE \<Longrightarrow> T d' = T d"
  using assms(1) [unfolded insert_ok_def, rule_format, OF assms(2)] by (simp_all split: if_splits)

lemma exec_get:
  assumes "get_ok Q T" "exec Q get_sql [BText k] d = (d', Some (s, rc))"
  shows "T d' = T d" "rc = SQLITE_DONE \<Longrightarrow> T d (c_str k) = None"
    "rc = SQLITE_ROW \<Longrightarrow> \<exists>ord. T d (c_str k) = Some ord \<and> row_ok Q s d' ord \<and> sq_column_int64 Q s 3 d' = paid_at ord"
  using assms unfolding get_ok_def by blast+

lemma exec_select:
  assumes "select_ok Q T" "exec Q select_sql [BText k] d = (d', Some (s, rc))"
  shows "T d' = T d" "rc = SQLITE_DONE \<Longrightarrow> T d (c_str k) = None"
    "rc = SQLITE_ROW \<Longrightarrow> \<exists>ord. T d (c_str k) = Some ord \<and> row_ok Q s d' ord"
  using assms unfolding select_ok_def by blast+

lemma exec_update:
  assumes "update_ok Q T" "exec Q update_sql [BInt64 t, BText k] d = (d', Some (s, rc))"
  shows "T d' = (if rc = SQLITE_DONE then abs_pay (c_str k) t (T d) else T d)"
  using assms unfolding update_ok_def by blast

lemma exec_delete:
  assumes "delete_ok Q T" "exec Q delete_sql [BText k] d = (d', Some (s, rc))"
  shows "rc = SQLITE_DONE \<Longrightarrow> T d' = abs_delete (c_str k) (T d)"
    "rc = SQLITE_DONE \<Longrightarrow> sq_changes Q d' = (if T d (c_str k) = None then 0 else 1)"
    "rc \<noteq> SQLITE_DONE \<Longrightarrow> T d' = T d"
  using assms(1) [unfolded delete_ok_def, rule_format, OF assms(2)] by (simp_all split: if_splits)

lemma redis_okD:
  assumes "redis_ok R L"
  shows "rd_set R k v ttl r = (r', e) \<Longrightarrow> L r' \<subseteq>\<^sub>m (L r)(k \<mapsto> v)"
    "rd_get R k r = (r', f) \<Longrightarrow> L r' \<subseteq>\<^sub>m L r"
    "rd_get R k r = (r', Inr (Some v)) \<Longrightarrow> L r k = Some v"
    "rd_del R k r = (r', g) \<Longrightarrow> L r' \<subseteq>\<^sub>m L r"
    "rd_del R k r = (r', Inr n) \<Longrightarrow> L r' k = None"
proof -
  have "redis_set_ok R L" "redis_get_ok R L" "redis_del_ok R L" using assms by (simp_all add: redis_ok_def)
  note R = this(1) [unfolded redis_set_ok_def, rule_format]
    this(2) [unfolded redis_get_ok_def, THEN spec, of k, THEN spec, of r]
    this(3) [unfolded redis_del_ok_def, THEN spec, of k, THEN spec, of r]
  show "L r' \<subseteq>\<^sub>m (L r)(k \<mapsto> v)" if "rd_set R k v ttl r = (r', e)" using R(1) [of k v ttl r] that by simp
  show "L r' \<subseteq>\<^sub>m L r" if "rd_get R k r = (r', f)" using R(2) that by simp
  show "L r k = Some v" if "rd_get R k r = (r', Inr (Some v))" using R(2) that by simp
  show "L r' \<subseteq>\<^sub>m L r" if "rd_del R k r = (r', g)" using R(3) that by simp
  show "L r' k = None" if "rd_del R k r = (r', Inr n)" using R(3) that by simp
qed

subsection \<open>What the helpers leave alone\<close>

lemma on_svc_simps [simp]:
  "db (on_svc f w) = db w" "cache (on_svc f w) = cache w" "svc_of (on_svc f w) = f (svc_of w)"
  by (simp_all add: on_svc_def)

lemma finish_simps [simp]:
  "svc_of (finish D s w) = svc_of w" "cache (finish D s w) = cache w"
  "db (finish D s w) = sq_finalize (sq D) s (db w)"
  by (simp_all add: finish_def)

text \<open>The counters that only the order operations themselves move.\<close>

definition order_counters :: "svc \<Rightarrow> i32 \<times> i32 \<times> i32" where
  "order_counters s = (orders_created s, orders_paid s, sqlite_errors s)"

lemma record_redis_counters [simp]:
  "order_counters (record_redis_failure s) = order_counters s"
  "order_counters (record_redis_success s) = order_counters s"
  by (simp_all add: order_counters_def record_redis_failure_def record_redis_success_def)

lemma cache_ops_keep:
  "db (fst (try_cache_order D k v w)) = db w"
  "order_counters (svc_of (fst (try_cache_order D k v w))) = order_counters (svc_of w)"
  "db (invalidate_cached_order D k w) = db w"
  "order_counters (svc_of (invalidate_cached_order D k w)) = order_counters (svc_of w)"
  "db (fst (try_get_cached_order D k w)) = db w"
  "order_counters (svc_of (fst (try_get_cached_order D k w))) = order_counters (svc_of w)"
  by (auto simp: try_cache_order_def invalidate_cached_order_def try_get_cached_order_def
      record_redis_success_def record_redis_failure_def order_counters_def
      split: prod.splits sum.splits option.splits)

subsection \<open>Creating\<close>

lemma int_to_string_no_NUL: "NUL \<notin> set (int_to_string i)"
proof -
  have "NUL \<notin> set (nat_to_string n)" for n
    using nat_to_string_digits [of n] by (auto simp: is_digit_code dest: bspec [of _ _ NUL])
  then show ?thesis by (simp add: int_to_string_def)
qed

lemma c_str_order_no [simp]: "c_str (generate_order_no ts rnd) = generate_order_no ts rnd"
  by (rule c_str_no_NUL) (simp add: generate_order_no_def int_to_string_no_NUL)

lemma create_insert_done:
  assumes "sqlite_ok (sq D) T" "create_insert D k now a w = (w', Inr v)"
  shows "T (db w) (c_str k) = None" "v = order_created_value D k a now" "cache w' = cache w"
    "svc_of w' = (svc_of w)\<lparr>orders_created := orders_created (svc_of w) + 1\<rparr>"
    "\<not> dbl_isnan a \<Longrightarrow> T (db w') = abs_create (c_str k) a now (T (db w))"
  using assms(2)
  by (auto simp: create_insert_def abs_create_def pending_order_def
      exec_insert [OF sqlite_okD(2) [OF assms(1)]] finalize_table [OF sqlite_okD(1) [OF assms(1)]]
      split: prod.splits option.splits if_splits)

lemma create_insert_fails:
  assumes "sqlite_ok (sq D) T" "create_insert D k now a w = (w', Inl r)"
  shows "T (db w') = T (db w)" "rcode r = 500" "svc_of w' = record_sqlite_failure (svc_of w)" "cache w' = cache w"
  using assms(2)
  by (auto simp: create_insert_def exec_none [OF sqlite_okD(1) [OF assms(1)]]
      exec_insert [OF sqlite_okD(2) [OF assms(1)]] finalize_table [OF sqlite_okD(1) [OF assms(1)]]
      split: prod.splits option.splits if_splits)

lemma throwing_simps [simp]:
  "throwing (Inl e) w f = (w, Inl e)" "throwing (Inr x) w f = f x"
  by (simp_all add: throwing_def)

lemma throwing_cases:
  obtains e where "r = Inl e" "throwing r w f = (w, Inl e)" | x where "r = Inr x" "throwing r w f = f x"
  by (cases r) auto

text \<open>An outcome that decides nothing: the world is as before, with an exception or a 400.\<close>

definition rejected :: "('d, 'r) world \<Rightarrow> ('d, 'r) outcome \<Rightarrow> bool" where
  "rejected w out \<longleftrightarrow> fst out = w \<and> (case snd out of Inl e \<Rightarrow> True | Inr res \<Rightarrow> rcode res = 400)"

lemma rejected_simps [simp]: "rejected w (w, Inl e)" "rejected w (error_outcome D 400 m w)"
  by (simp_all add: rejected_def error_outcome_def)

lemma create_order_dispatch:
  obtains "rejected w (create_order D ts rnd now req w)"
  | a where "dbl_pos a" "create_order D ts rnd now req w = insert_order D ts rnd now a w"
proof -
  let ?b = "load (req_body req)"
  let ?v = "bind_result (rv_has (key_sort D) ?b ''amount'') (\<lambda>h.
    if \<not> h then Inr False else bind_result (rv_at (key_sort D) ?b ''amount'') is_valid_amount)"
  show thesis
  proof (cases "rv_bool ?b \<and> ?v = Inr True")
    case True
    then obtain v where v: "rv_at (key_sort D) ?b ''amount'' = Inr v" "is_valid_amount v = Inr True"
      by (auto simp: bind_result_eq_Inr split: if_splits)
    then obtain a where "rv_t v = Inr TNumber" "rv_d v = Inr a" "dbl_pos a"
      by (auto simp: is_valid_amount_def bind_result_eq_Inr split: if_splits)
    with True v show thesis by (intro that(2) [of a]) (simp_all add: create_order_def)
  next
    case False
    then show thesis
      by (intro that(1), cases ?v) (auto simp: create_order_def Let_def)
  qed
qed

lemma insert_order_cases:
  assumes "sqlite_ok (sq D) T" "insert_order D ts rnd now a w = (w', out)" "\<not> dbl_isnan a"
  obtains res where "out = Inr res" "rcode res = 500" "T (db w') = T (db w)"
    "svc_of w' = record_sqlite_failure (svc_of w)" "cache w' = cache w"
  | w1 where "T (db w) (generate_order_no ts rnd) = None"
    "T (db w') = abs_create (generate_order_no ts rnd) a now (T (db w))"
    "orders_created (svc_of w') = orders_created (svc_of w) + 1"
    "orders_paid (svc_of w') = orders_paid (svc_of w)"
    "out = Inr (json_response (json D) 200 (order_created_value D (generate_order_no ts rnd) a now))"
    "w' = fst (try_cache_order D (generate_order_no ts rnd)
       (dump (json D) (order_created_value D (generate_order_no ts rnd) a now)) w1)" "cache w1 = cache w"
proof (cases "create_insert D (generate_order_no ts rnd) now a w")
  case (Pair w1 r)
  show ?thesis
  proof (cases r)
    case (Inl e)
    with Pair assms create_insert_fails [OF assms(1) Pair [unfolded Inl]] show ?thesis
      by (intro that(1) [of e]) (simp_all add: insert_order_def)
  next
    case (Inr v)
    note ins = create_insert_done [OF assms(1) Pair [unfolded Inr]]
    have w': "w' = fst (try_cache_order D (generate_order_no ts rnd) (dump (json D) v) w1)"
      and out: "out = Inr (json_response (json D) 200 v)"
      using assms(2) Pair Inr by (simp_all add: insert_order_def create_cache_def)
    have "order_counters (svc_of w') = order_counters (svc_of w1)" "db w' = db w1"
      by (simp_all add: w' cache_ops_keep)
    with ins assms(3) w' out show ?thesis
      by (intro that(2) [of w1]) (simp_all add: order_counters_def)
  qed
qed

lemma dbl_pos_not_nan: "dbl_pos a \<Longrightarrow> \<not> dbl_isnan a"
  by (cases a) (simp_all add: dbl_pos_def dbl_isnan_def)

subsection \<open>Paying\<close>

text \<open>The order number a payment request names, if it passes the validation.\<close>

definition pay_request_key :: "('d, 's, 'r) deps \<Rightarrow> request \<Rightarrow> string option" where
  "pay_request_key D req =
     (case bind_result (rv_at (key_sort D) (load (req_body req)) ''order_no'') rv_s of
        Inl e \<Rightarrow> None
      | Inr k \<Rightarrow> if take 3 k = ''ORD'' then Some k else None)"

lemma pay_order_dispatch:
  obtains "rejected w (pay_order D now req w)"
  | k where "pay_request_key D req = Some k"
    "pay_order D now req w = (case pay_lookup D k w of (w1, Inl r) \<Rightarrow> (w1, r) | (w1, Inr t) \<Rightarrow> pay_update D now t w1)"
proof -
  let ?b = "load (req_body req)"
  let ?v = "bind_result (rv_has (key_sort D) ?b ''order_no'') (\<lambda>h.
    if \<not> h then Inr False else bind_result (rv_at (key_sort D) ?b ''order_no'') (\<lambda>v. Inr (is_valid_order_no v)))"
  show thesis
  proof (cases "rv_bool ?b \<and> ?v = Inr True")
    case True
    then obtain v where v: "rv_at (key_sort D) ?b ''order_no'' = Inr v" "is_valid_order_no v"
      by (auto simp: bind_result_eq_Inr split: if_splits)
    then obtain k where "rv_t v = Inr TString" "rv_s v = Inr k" "take 3 k = ''ORD''"
      by (auto simp: is_valid_order_no_def bind_result_def split: if_splits sum.splits)
    with True v show thesis by (intro that(2) [of k]) (simp_all add: pay_order_def pay_request_key_def)
  next
    case False
    then show thesis
      by (intro that(1), cases ?v) (auto simp: pay_order_def Let_def)
  qed
qed

lemma pay_lookup_table:
  assumes "sqlite_ok (sq D) T" "pay_lookup D k w = (w1, r)"
  shows "T (db w1) = T (db w)" "cache w1 = cache w" "orders_paid (svc_of w1) = orders_paid (svc_of w)"
    "orders_created (svc_of w1) = orders_created (svc_of w)"
  using assms(2)
  by (auto simp: pay_lookup_def record_sqlite_failure_def exec_none [OF sqlite_okD(1) [OF assms(1)]]
      exec_select [OF sqlite_okD(4) [OF assms(1)]] finalize_table [OF sqlite_okD(1) [OF assms(1)]]
      split: prod.splits option.splits if_splits sum.splits)

lemma pay_lookup_ticket:
  assumes "sqlite_ok (sq D) T" "pay_lookup D k w = (w1, Inr t)"
  obtains ord where "T (db w) (c_str k) = Some ord" "status ord \<noteq> ''PAID''" "t = (k, amount ord, created_at ord)"
proof -
  from assms(2) obtain d s where e: "exec (sq D) select_sql [BText k] (db w) = (d, Some (s, SQLITE_ROW))"
    and r: "\<exists>st. string_of_ptr (sq_column_text (sq D) s 1 d) = Inr st \<and> st \<noteq> ''PAID''"
    "t = (k, sq_column_double (sq D) s 0 d, sq_column_int64 (sq D) s 2 d)"
    by (auto simp: pay_lookup_def split: prod.splits option.splits if_splits sum.splits)
  from exec_select(3) [OF sqlite_okD(4) [OF assms(1)] e] obtain ord where
    "T (db w) (c_str k) = Some ord" "row_ok (sq D) s d ord" by auto
  with r show thesis by (intro that [of ord]) (auto simp: row_ok_def string_of_ptr_def)
qed

lemma pay_lookup_response:
  assumes "pay_lookup D k w = (w1, Inl (Inr res))"
  shows "rcode res \<in> {400, 404, 500}"
  using assms by (auto simp: pay_lookup_def split: prod.splits option.splits if_splits sum.splits)

lemma pay_update_cases:
  assumes "sqlite_ok (sq D) T" "pay_update D now (k, a, c) w = (w', out)"
  obtains res where "out = Inr res" "rcode res = 500" "T (db w') = T (db w)" "cache w' = cache w"
    "orders_paid (svc_of w') = orders_paid (svc_of w)"
  | w1 where "T (db w') = abs_pay (c_str k) now (T (db w))"
    "orders_paid (svc_of w') = orders_paid (svc_of w) + 1"
    "out = Inr (json_response (json D) 200 (paid_value D k a c now))"
    "w' = invalidate_cached_order D k w1" "cache w1 = cache w" "redis_client (svc_of w1) = redis_client (svc_of w)"
proof (cases "exec (sq D) update_sql [BInt64 now, BText k] (db w)")
  case (Pair d r)
  show ?thesis
  proof (cases r)
    case None
    with assms(2) Pair exec_none [OF sqlite_okD(1) [OF assms(1)] Pair [unfolded None]] show ?thesis
      by (intro that(1)) (auto simp: pay_update_def error_outcome_def record_sqlite_failure_def)
  next
    case (Some sr)
    obtain s rc where sr: "sr = (s, rc)" by (cases sr)
    note tab = exec_update [OF sqlite_okD(5) [OF assms(1)] Pair [unfolded Some sr]]
    note fin = finalize_table [OF sqlite_okD(1) [OF assms(1)]]
    show ?thesis
    proof (cases "rc = SQLITE_DONE")
      case True
      define w1 where "w1 = on_svc (\<lambda>s. s\<lparr>orders_paid := orders_paid s + 1\<rparr>) (finish D s (w\<lparr>db := d\<rparr>))"
      have w': "w' = invalidate_cached_order D k w1"
        and out: "out = Inr (json_response (json D) 200 (paid_value D k a c now))"
        using assms(2) Pair Some sr True by (simp_all add: pay_update_def w1_def)
      have "db w' = db w1" "order_counters (svc_of w') = order_counters (svc_of w1)"
        by (simp_all add: w' cache_ops_keep)
      with tab True w' out show ?thesis
        by (intro that(2) [of w1]) (simp_all add: w1_def fin order_counters_def)
    next
      case False
      with assms(2) Pair Some sr tab show ?thesis
        by (intro that(1)) (auto simp: pay_update_def error_outcome_def record_sqlite_failure_def fin)
    qed
  qed
qed

subsection \<open>Deleting and reading\<close>

lemma delete_order_cases:
  assumes "sqlite_ok (sq D) T" "delete_order D k w = (w', out)"
  obtains res where "out = Inr res" "rcode res \<in> {404, 500}" "T (db w') = T (db w)" "cache w' = cache w"
    "redis_client (svc_of w') = redis_client (svc_of w)"
  | w1 res where "T (db w) (c_str k) \<noteq> None" "T (db w') = abs_delete (c_str k) (T (db w))"
    "out = Inr res" "rcode res = 200"
    "w' = invalidate_cached_order D k w1" "cache w1 = cache w" "redis_client (svc_of w1) = redis_client (svc_of w)"
proof (cases "exec (sq D) delete_sql [BText k] (db w)")
  case (Pair d r)
  show ?thesis
  proof (cases r)
    case None
    with assms(2) Pair exec_none [OF sqlite_okD(1) [OF assms(1)] Pair [unfolded None]] show ?thesis
      by (intro that(1)) (auto simp: delete_order_def error_outcome_def record_sqlite_failure_def)
  next
    case (Some sr)
    obtain s rc where sr: "sr = (s, rc)" by (cases sr)
    note tab = exec_delete [OF sqlite_okD(6) [OF assms(1)] Pair [unfolded Some sr]]
    note fin = finalize_table [OF sqlite_okD(1) [OF assms(1)]]
    show ?thesis
    proof (cases "rc = SQLITE_DONE \<and> sq_changes (sq D) d \<noteq> 0")
      case True
      define w1 where "w1 = finish D s (w\<lparr>db := d\<rparr>)"
      have w': "w' = invalidate_cached_order D k w1" and out: "\<exists>res. out = Inr res \<and> rcode res = 200"
        using assms(2) Pair Some sr True by (auto simp: delete_order_def w1_def)
      have "db w' = db w1" by (simp add: w' cache_ops_keep)
      with tab True w' out show ?thesis
        by (auto simp: w1_def fin split: if_splits intro!: that(2))
    next
      case False
      have "T (db w) (c_str k) = None" if "rc = SQLITE_DONE" using that False tab(2) by (auto split: if_splits)
      then have "abs_delete (c_str k) (T (db w)) = T (db w)" if "rc = SQLITE_DONE"
        using that by (auto simp: abs_delete_def)
      with False assms(2) Pair Some sr tab show ?thesis
        by (cases "rc = SQLITE_DONE")
          (intro that(1), auto simp: delete_order_def error_outcome_def fin Let_def)+
    qed
  qed
qed

lemma try_get_cached_hit:
  assumes "redis_ok (rd D) L" "try_get_cached_order D k w = (w1, Some v)"
  shows "L (cache w) (cache_key k) = Some v" "L (cache w1) \<subseteq>\<^sub>m L (cache w)" "redis_client (svc_of w)"
  using assms(2)
  by (auto simp: try_get_cached_order_def redis_okD(2,3) [OF assms(1)] split: if_splits prod.splits sum.splits option.splits)

lemma try_get_cached_cache:
  assumes "redis_ok (rd D) L" "try_get_cached_order D k w = (w1, r)"
  shows "L (cache w1) \<subseteq>\<^sub>m L (cache w)" "redis_client (svc_of w1) = redis_client (svc_of w)"
  using assms(2)
  by (auto simp: try_get_cached_order_def record_redis_failure_def record_redis_success_def
      dest: redis_okD(2) [OF assms(1)] split: if_splits prod.splits sum.splits option.splits)

lemma get_order_cases:
  assumes "sqlite_ok (sq D) T" "get_order D k w = (w', out)"
  obtains v where "try_get_cached_order D k w = (w', Some v)" "out = Inr (response_body v)"
  | w1 res where "try_get_cached_order D k w = (w1, None)" "out = Inr res" "rcode res \<in> {404, 500}"
    "T (db w') = T (db w)" "cache w' = cache w1" "redis_client (svc_of w') = redis_client (svc_of w1)"
  | w1 ord where "try_get_cached_order D k w = (w1, None)" "T (db w) (c_str k) = Some ord"
    "out = Inr (json_response (json D) 200
       (order_value D k (amount ord) (status ord) (created_at ord) (paid_at ord)))"
    "T (db w') = T (db w)" "cache w' = cache w1" "redis_client (svc_of w') = redis_client (svc_of w1)"
proof (cases "try_get_cached_order D k w")
  case (Pair w1 c)
  have db1: "db w1 = db w" using cache_ops_keep(5) [of D k w] Pair by simp
  show ?thesis
  proof (cases c)
    case (Some v)
    with assms(2) Pair show ?thesis by (intro that(1)) (auto simp: get_order_def)
  next
    case None
    obtain d r where e: "exec (sq D) get_sql [BText k] (db w1) = (d, r)" by fastforce
    show ?thesis
    proof (cases r)
      case n: None
      with assms(2) Pair None e exec_none [OF sqlite_okD(1) [OF assms(1)] e [unfolded n]] db1 show ?thesis
        by (intro that(2) [of w1]) (auto simp: get_order_def error_outcome_def record_sqlite_failure_def)
    next
      case (Some sr)
      obtain s rc where sr: "sr = (s, rc)" by (cases sr)
      note tab = exec_get [OF sqlite_okD(3) [OF assms(1)] e [unfolded Some sr]]
      note fin = finalize_table [OF sqlite_okD(1) [OF assms(1)]]
      show ?thesis
      proof (cases "rc = SQLITE_ROW")
        case False
        with assms(2) Pair None e Some sr tab db1 show ?thesis
          by (intro that(2) [of w1]) (auto simp: get_order_def error_outcome_def fin)
      next
        case True
        with tab(3) obtain ord where "T (db w1) (c_str k) = Some ord" "row_ok (sq D) s d ord"
          "sq_column_int64 (sq D) s 3 d = paid_at ord" by blast
        with assms(2) Pair None e Some sr tab(1) db1 True show ?thesis
          by (intro that(3) [of w1 ord]) (auto simp: get_order_def fin row_ok_def string_of_ptr_def)
      qed
    qed
  qed
qed

subsection \<open>Refinement of the abstract table\<close>

text \<open>A call of a handler with the inputs it reads from the clock and the random source.\<close>

datatype call = CCreate i64 int i64 request | CGet string | CPay i64 request | CDelete string

definition run_call :: "('d, 's, 'r) deps \<Rightarrow> call \<Rightarrow> ('d, 'r) world \<Rightarrow> ('d, 'r) outcome" where
  "run_call D c w = (case c of
     CCreate ts rnd now req \<Rightarrow> create_order D ts rnd now req w
   | CGet k \<Rightarrow> get_order D k w
   | CPay now req \<Rightarrow> pay_order D now req w
   | CDelete k \<Rightarrow> delete_order D k w)"

definition run_calls :: "('d, 's, 'r) deps \<Rightarrow> call list \<Rightarrow> ('d, 'r) world \<Rightarrow> ('d, 'r) world" where
  "run_calls D cs w = fold (\<lambda>c w. fst (run_call D c w)) cs w"

text \<open>The life of an order: it is created with a new number, paid once, and may be deleted.\<close>

inductive abs_step :: "table \<Rightarrow> table \<Rightarrow> bool" where
  stutter: "abs_step T T"
| create: "T k = None \<Longrightarrow> dbl_pos a \<Longrightarrow> abs_step T (abs_create k a now T)"
| pay: "T k = Some ord \<Longrightarrow> status ord \<noteq> ''PAID'' \<Longrightarrow> abs_step T (abs_pay k now T)"
| delete: "T k = Some ord \<Longrightarrow> abs_step T (abs_delete k T)"

inductive_cases abs_stepE: "abs_step T T'"

text \<open>\<open>effect\<close>: the abstract operation a call performs when it is answered with 200.\<close>

definition success :: "response result \<Rightarrow> bool" where
  "success out \<longleftrightarrow> (case out of Inr res \<Rightarrow> rcode res = 200 | Inl e \<Rightarrow> False)"

definition effect :: "('d, 's, 'r) deps \<Rightarrow> call \<Rightarrow> table \<Rightarrow> table \<Rightarrow> bool" where
  "effect D c T T' \<longleftrightarrow> (case c of
     CCreate ts rnd now req \<Rightarrow> T (generate_order_no ts rnd) = None
       \<and> (\<exists>a. dbl_pos a \<and> T' = abs_create (generate_order_no ts rnd) a now T)
   | CGet k \<Rightarrow> T' = T
   | CPay now req \<Rightarrow> (\<exists>k ord. pay_request_key D req = Some k \<and> T (c_str k) = Some ord
       \<and> status ord \<noteq> ''PAID'' \<and> T' = abs_pay (c_str k) now T)
   | CDelete k \<Rightarrow> T (c_str k) \<noteq> None \<and> T' = abs_delete (c_str k) T)"

lemma create_refines:
  assumes "sqlite_ok (sq D) T" "create_order D ts rnd now req w = (w', out)"
  shows "if success out then effect D (CCreate ts rnd now req) (T (db w)) (T (db w')) else T (db w') = T (db w)"
proof (cases rule: create_order_dispatch [of w D ts rnd now req])
  case 1
  with assms(2) show ?thesis by (auto simp: rejected_def success_def split: sum.splits)
next
  case (2 a)
  from assms(2) 2(2) have "insert_order D ts rnd now a w = (w', out)" by simp
  from insert_order_cases [OF assms(1) this dbl_pos_not_nan [OF 2(1)]] show ?thesis
    using 2(1) by cases (auto simp: success_def effect_def)
qed

lemma pay_refines:
  assumes "sqlite_ok (sq D) T" "pay_order D now req w = (w', out)"
  shows "if success out then effect D (CPay now req) (T (db w)) (T (db w')) else T (db w') = T (db w)"
proof (cases rule: pay_order_dispatch [of w D now req])
  case 1
  with assms(2) show ?thesis by (auto simp: rejected_def success_def split: sum.splits)
next
  case (2 k)
  obtain w1 r where l: "pay_lookup D k w = (w1, r)" by fastforce
  note tab = pay_lookup_table [OF assms(1) l]
  show ?thesis
  proof (cases r)
    case (Inl x)
    with l 2(2) assms(2) have "out = x" "w' = w1" by auto
    with tab(1) pay_lookup_response l Inl show ?thesis
      by (cases x) (force simp: success_def)+
  next
    case (Inr t)
    obtain ord where ord: "T (db w) (c_str k) = Some ord" "status ord \<noteq> ''PAID''" "t = (k, amount ord, created_at ord)"
      using pay_lookup_ticket [OF assms(1) l [unfolded Inr]] by blast
    from l Inr 2(2) assms(2) ord(3) have "pay_update D now (k, amount ord, created_at ord) w1 = (w', out)" by simp
    from pay_update_cases [OF assms(1) this] show ?thesis
      using ord 2(1) tab(1) by cases (auto simp: success_def effect_def)
  qed
qed

lemma delete_refines:
  assumes "sqlite_ok (sq D) T" "delete_order D k w = (w', out)"
  shows "if success out then effect D (CDelete k) (T (db w)) (T (db w')) else T (db w') = T (db w)"
  using delete_order_cases [OF assms] by cases (auto simp: success_def effect_def)

lemma get_refines:
  assumes "sqlite_ok (sq D) T" "get_order D k w = (w', out)"
  shows "T (db w') = T (db w)"
  using get_order_cases [OF assms] cache_ops_keep(5) [of D k w] by cases auto

lemma run_call_refines:
  assumes "sqlite_ok (sq D) T" "run_call D c w = (w', out)"
  shows "if success out then effect D c (T (db w)) (T (db w')) else T (db w') = T (db w)"
proof (cases c)
  case (CGet k)
  with assms(2) get_refines [OF assms(1)] show ?thesis by (simp add: run_call_def effect_def)
qed (use assms create_refines [OF assms(1)] pay_refines [OF assms(1)] delete_refines [OF assms(1)]
  in \<open>simp_all add: run_call_def\<close>)

lemma effect_abs_step: "effect D c T T' \<Longrightarrow> abs_step T T'"
  by (cases c) (auto simp: effect_def intro: abs_step.intros)

lemma run_call_abs_step:
  assumes "sqlite_ok (sq D) T" "run_call D c w = (w', out)"
  shows "abs_step (T (db w)) (T (db w'))"
  using run_call_refines [OF assms] effect_abs_step stutter by (auto split: if_splits)

lemma run_calls_abs_steps:
  assumes "sqlite_ok (sq D) T"
  shows "abs_step\<^sup>*\<^sup>* (T (db w)) (T (db (run_calls D cs w)))"
proof (induction cs arbitrary: w)
  case (Cons c cs)
  have "abs_step (T (db w)) (T (db (fst (run_call D c w))))"
    using run_call_abs_step [OF assms] by (metis prod.collapse)
  with Cons [of "fst (run_call D c w)"] show ?case by (simp add: run_calls_def)
qed (simp add: run_calls_def)

subsection \<open>Invariants of the table\<close>

definition order_wf :: "order \<Rightarrow> bool" where
  "order_wf ord \<longleftrightarrow> dbl_pos (amount ord) \<and>
     (status ord = ''PENDING'' \<and> paid_at ord = 0 \<or> status ord = ''PAID'')"

definition table_wf :: "table \<Rightarrow> bool" where
  "table_wf T \<longleftrightarrow> (\<forall>k ord. T k = Some ord \<longrightarrow> order_wf ord)"

lemma table_wf_step: "table_wf T \<Longrightarrow> abs_step T T' \<Longrightarrow> table_wf T'"
  by (erule abs_stepE)
    (auto simp: table_wf_def order_wf_def abs_create_def abs_pay_def abs_delete_def pending_order_def
      split: if_splits)

interpretation orders: transition_invariant abs_step table_wf
  by unfold_locales (rule table_wf_step)

lemma run_calls_table_wf:
  "sqlite_ok (sq D) T \<Longrightarrow> table_wf (T (db w)) \<Longrightarrow> table_wf (T (db (run_calls D cs w)))"
  using orders.reachable run_calls_abs_steps by blast

text \<open>A paid order stays as it is until it is deleted.\<close>

definition deletes :: "string \<Rightarrow> call \<Rightarrow> bool" where
  "deletes k c \<longleftrightarrow> (case c of CDelete k' \<Rightarrow> c_str k' = k | _ \<Rightarrow> False)"

lemma effect_paid:
  assumes "effect D c T T'" "T k = Some ord" "status ord = ''PAID''" "\<not> deletes k c"
  shows "T' k = Some ord"
  using assms by (cases c) (auto simp: effect_def abs_create_def abs_pay_def abs_delete_def deletes_def)

lemma run_calls_paid:
  assumes "sqlite_ok (sq D) T" "T (db w) k = Some ord" "status ord = ''PAID''" "\<forall>c \<in> set cs. \<not> deletes k c"
  shows "T (db (run_calls D cs w)) k = Some ord"
  using assms(2,4)
proof (induction cs arbitrary: w)
  case (Cons c cs)
  obtain w' out where r: "run_call D c w = (w', out)" by fastforce
  have "T (db w') k = Some ord"
    using run_call_refines [OF assms(1) r] effect_paid [of D c "T (db w)" "T (db w')" k ord] Cons.prems assms(3)
    by (auto split: if_splits)
  with Cons.IH [of w'] Cons.prems(2) r show ?case by (simp add: run_calls_def)
qed (simp add: run_calls_def)

lemma pay_success_paid:
  assumes "sqlite_ok (sq D) T" "pay_order D now req w = (w', out)" "success out" "pay_request_key D req = Some k"
  shows "\<exists>ord. T (db w') (c_str k) = Some ord \<and> status ord = ''PAID'' \<and> paid_at ord = now"
  using pay_refines [OF assms(1,2)] assms(3,4) by (auto simp: effect_def abs_pay_def)

lemma pay_paid_fails:
  assumes "sqlite_ok (sq D) T" "pay_order D now req w = (w', out)" "pay_request_key D req = Some k"
    "T (db w) (c_str k) = Some ord" "status ord = ''PAID''"
  shows "\<not> success out" "T (db w') = T (db w)"
  using pay_refines [OF assms(1,2)] assms(3-5) by (auto simp: effect_def split: if_splits)

subsection \<open>Coherence of the cache\<close>

text \<open>
  Every live entry is the answer that created an order which is still pending. Without a client
  the service neither reads nor writes the cache.
\<close>

definition coherent :: "('d, 's, 'r) deps \<Rightarrow> ('d \<Rightarrow> table) \<Rightarrow> ('r \<Rightarrow> string \<Rightarrow> string option) \<Rightarrow> ('d, 'r) world \<Rightarrow> bool" where
  "coherent D T L w \<longleftrightarrow> (redis_client (svc_of w) \<longrightarrow>
     (\<forall>k v. L (cache w) (cache_key k) = Some v \<longrightarrow>
        (\<exists>ord. T (db w) k = Some ord \<and> status ord = ''PENDING''
           \<and> v = dump (json D) (order_created_value D k (amount ord) (created_at ord)))))"

definition dels_succeed :: "'r redis \<Rightarrow> bool" where
  "dels_succeed R \<longleftrightarrow> (\<forall>k r. case snd (rd_del R k r) of Inl e \<Rightarrow> False | Inr n \<Rightarrow> True)"

text \<open>No order number with a NUL in it reaches the database or the cache.\<close>

definition plain_call :: "('d, 's, 'r) deps \<Rightarrow> call \<Rightarrow> bool" where
  "plain_call D c \<longleftrightarrow> (case c of
     CPay now req \<Rightarrow> (case pay_request_key D req of Some k \<Rightarrow> NUL \<notin> set k | None \<Rightarrow> True)
   | CDelete k \<Rightarrow> NUL \<notin> set k
   | _ \<Rightarrow> True)"

lemma cache_key_inject [simp]: "cache_key j = cache_key k \<longleftrightarrow> j = k"
  by (simp add: cache_key_def)

lemma coherent_shrink:
  assumes "coherent D T L w" "L (cache w') \<subseteq>\<^sub>m L (cache w)" "T (db w') = T (db w)"
    "redis_client (svc_of w') = redis_client (svc_of w)"
  shows "coherent D T L w'"
  using assms unfolding coherent_def map_le_def by (metis domI)

lemma invalidate_coherent:
  assumes "redis_ok (rd D) L" "dels_succeed (rd D)" "coherent D T L w" "cache w1 = cache w"
    "redis_client (svc_of w1) = redis_client (svc_of w)" "\<And>j. j \<noteq> k \<Longrightarrow> T (db w1) j = T (db w) j"
  shows "coherent D T L (invalidate_cached_order D k w1)"
proof (cases "redis_client (svc_of w)")
  case False
  with assms(5) show ?thesis
    by (simp add: coherent_def invalidate_cached_order_def record_redis_failure_def)
next
  case True
  obtain c r where c: "rd_del (rd D) (cache_key k) (cache w) = (c, r)" by fastforce
  then obtain n where n: "r = Inr n"
    using assms(2) unfolding dels_succeed_def by (metis old.sum.exhaust snd_conv sum.simps(5))
  have le: "L c \<subseteq>\<^sub>m L (cache w)" and no: "L c (cache_key k) = None"
    using redis_okD(4,5) [OF assms(1)] c n by auto
  have w': "invalidate_cached_order D k w1 = on_svc record_redis_success (w1\<lparr>cache := c\<rparr>)"
    using True assms(4,5) c n by (simp add: invalidate_cached_order_def)
  show ?thesis unfolding coherent_def w'
  proof (intro impI allI)
    fix j v assume "L (cache (on_svc record_redis_success (w1\<lparr>cache := c\<rparr>))) (cache_key j) = Some v"
    then have v: "L c (cache_key j) = Some v" by simp
    with no have "j \<noteq> k" by auto
    moreover from v le have "L (cache w) (cache_key j) = Some v" by (metis domI map_le_def)
    ultimately show "\<exists>ord. T (db (on_svc record_redis_success (w1\<lparr>cache := c\<rparr>))) j = Some ord \<and> status ord = ''PENDING''
        \<and> v = dump (json D) (order_created_value D j (amount ord) (created_at ord))"
      using assms(3,6) True by (simp add: coherent_def)
  qed
qed

lemma cache_created_coherent:
  assumes "redis_ok (rd D) L" "coherent D T L w" "cache w1 = cache w"
    "redis_client (svc_of w1) = redis_client (svc_of w)" "T (db w1) = abs_create k a now (T (db w))"
    "T (db w) k = None"
  shows "coherent D T L (fst (try_cache_order D k (dump (json D) (order_created_value D k a now)) w1))"
proof (cases "redis_client (svc_of w)")
  case False
  with assms(4) show ?thesis by (simp add: coherent_def try_cache_order_def record_redis_failure_def)
next
  case True
  let ?v = "dump (json D) (order_created_value D k a now)"
  let ?w' = "fst (try_cache_order D k ?v w1)"
  obtain c r where c: "rd_set (rd D) (cache_key k) ?v (sint (cache_ttl_seconds (svc_of w1))) (cache w) = (c, r)"
    by fastforce
  have le: "L c \<subseteq>\<^sub>m (L (cache w))(cache_key k \<mapsto> ?v)" using redis_okD(1) [OF assms(1) c] .
  have w': "cache ?w' = c" "db ?w' = db w1"
    using True assms(3,4) c by (auto simp: try_cache_order_def split: sum.splits)
  show ?thesis unfolding coherent_def
  proof (intro impI allI)
    fix j u assume "L (cache ?w') (cache_key j) = Some u"
    then have "((L (cache w))(cache_key k \<mapsto> ?v)) (cache_key j) = Some u"
      using le w'(1) by (metis domI map_le_def)
    then show "\<exists>ord. T (db ?w') j = Some ord \<and> status ord = ''PENDING''
        \<and> u = dump (json D) (order_created_value D j (amount ord) (created_at ord))"
      using assms(2,5,6) True w'(2)
      by (cases "j = k") (auto simp: coherent_def abs_create_def pending_order_def)
  qed
qed

lemma invalidate_client: "redis_client (svc_of (invalidate_cached_order D k w)) = redis_client (svc_of w)"
  by (simp add: invalidate_cached_order_def record_redis_failure_def record_redis_success_def
      split: prod.splits sum.splits)

lemma pay_update_client: "redis_client (svc_of (fst (pay_update D now t w))) = redis_client (svc_of w)"
  by (simp add: pay_update_def error_outcome_def record_sqlite_failure_def Let_def invalidate_client
      split: prod.splits option.splits)

lemma create_coherent:
  assumes "sqlite_ok (sq D) T" "redis_ok (rd D) L" "coherent D T L w" "create_order D ts rnd now req w = (w', out)"
  shows "coherent D T L w'"
proof (cases rule: create_order_dispatch [of w D ts rnd now req])
  case 1
  with assms(3,4) show ?thesis by (simp add: rejected_def)
next
  case (2 a)
  let ?k = "generate_order_no ts rnd"
  obtain w1 r where i: "create_insert D ?k now a w = (w1, r)" by fastforce
  from assms(4) 2(2) i have w': "(case r of Inl x \<Rightarrow> (w1, Inr x) | Inr v \<Rightarrow> create_cache D ?k v w1) = (w', out)"
    by (simp add: insert_order_def split: sum.splits)
  show ?thesis
  proof (cases r)
    case (Inl x)
    note f = create_insert_fails [OF assms(1) i [unfolded Inl]]
    show ?thesis by (rule coherent_shrink [OF assms(3)])
        (use f w' Inl in \<open>simp_all add: record_sqlite_failure_def\<close>)
  next
    case (Inr v)
    note ins = create_insert_done [OF assms(1) i [unfolded Inr]]
    have "coherent D T L (fst (try_cache_order D ?k (dump (json D) (order_created_value D ?k a now)) w1))"
      by (rule cache_created_coherent [OF assms(2,3) ins(3)])
        (use ins dbl_pos_not_nan [OF 2(1)] in simp_all)
    with w' Inr ins(2) show ?thesis by (simp add: create_cache_def)
  qed
qed

lemma pay_coherent:
  assumes "sqlite_ok (sq D) T" "redis_ok (rd D) L" "dels_succeed (rd D)" "coherent D T L w"
    "plain_call D (CPay now req)" "pay_order D now req w = (w', out)"
  shows "coherent D T L w'"
proof (cases rule: pay_order_dispatch [of w D now req])
  case 1
  with assms(4,6) show ?thesis by (simp add: rejected_def)
next
  case (2 k)
  with assms(5) have k: "c_str k = k" by (simp add: plain_call_def c_str_no_NUL)
  obtain w1 r where l: "pay_lookup D k w = (w1, r)" by fastforce
  have c1: "redis_client (svc_of w1) = redis_client (svc_of w)"
    using l by (auto simp: pay_lookup_def record_sqlite_failure_def split: prod.splits option.splits if_splits sum.splits)
  have w1: "coherent D T L w1"
    by (rule coherent_shrink [OF assms(4)]) (use pay_lookup_table [OF assms(1) l] c1 in simp_all)
  show ?thesis
  proof (cases r)
    case (Inl x)
    with l 2(2) assms(6) w1 show ?thesis by simp
  next
    case (Inr t)
    obtain ord where "T (db w) (c_str k) = Some ord" "status ord \<noteq> ''PAID''"
      and t: "t = (k, amount ord, created_at ord)"
      by (rule pay_lookup_ticket [OF assms(1) l [unfolded Inr]])
    with l Inr 2(2) assms(6) have "pay_update D now (k, amount ord, created_at ord) w1 = (w', out)" by simp
    then show ?thesis
    proof (cases rule: pay_update_cases [OF assms(1), consumes 1])
      case (1 res)
      have "redis_client (svc_of w') = redis_client (svc_of w1)"
        using pay_update_client \<open>pay_update D now (k, amount ord, created_at ord) w1 = (w', out)\<close> by (metis fst_conv)
      with 1 show ?thesis by (intro coherent_shrink [OF w1]) simp_all
    next
      case (2 w2)
      have "db w' = db w2" using 2(4) by (simp add: cache_ops_keep)
      with 2(1) k have "T (db w2) j = T (db w1) j" if "j \<noteq> k" for j
        using that by (simp add: abs_pay_def split: option.splits)
      with 2 show ?thesis
        unfolding 2(4) by (intro invalidate_coherent [OF assms(2,3) w1]) simp_all
    qed
  qed
qed

lemma delete_coherent:
  assumes "sqlite_ok (sq D) T" "redis_ok (rd D) L" "dels_succeed (rd D)" "coherent D T L w"
    "plain_call D (CDelete k)" "delete_order D k w = (w', out)"
  shows "coherent D T L w'"
  using assms(1,6)
proof (cases rule: delete_order_cases)
  case (1 res)
  then show ?thesis by (intro coherent_shrink [OF assms(4)]) simp_all
next
  case (2 w1 res)
  have "c_str k = k" using assms(5) by (simp add: plain_call_def c_str_no_NUL)
  moreover have "db w' = db w1" using 2(5) by (simp add: cache_ops_keep)
  ultimately have "T (db w1) j = T (db w) j" if "j \<noteq> k" for j
    using 2(2) that by (simp add: abs_delete_def)
  with 2 show ?thesis unfolding 2(5) by (intro invalidate_coherent [OF assms(2,3,4)]) simp_all
qed

lemma get_coherent:
  assumes "sqlite_ok (sq D) T" "redis_ok (rd D) L" "coherent D T L w" "get_order D k w = (w', out)"
  shows "coherent D T L w'"
  using assms(1,4)
proof (cases rule: get_order_cases)
  case (1 v)
  note c = try_get_cached_cache [OF assms(2) 1(1)]
  have "db w' = db w" using cache_ops_keep(5) [of D k w] 1(1) by simp
  with c show ?thesis by (intro coherent_shrink [OF assms(3)]) simp_all
next
  case (2 w1 res)
  with try_get_cached_cache [OF assms(2) 2(1)] show ?thesis
    by (intro coherent_shrink [OF assms(3)]) simp_all
next
  case (3 w1 ord)
  with try_get_cached_cache [OF assms(2) 3(1)] show ?thesis
    by (intro coherent_shrink [OF assms(3)]) simp_all
qed

lemma run_call_coherent:
  assumes "sqlite_ok (sq D) T" "redis_ok (rd D) L" "dels_succeed (rd D)" "coherent D T L w" "plain_call D c"
  shows "coherent D T L (fst (run_call D c w))"
proof -
  obtain w' out where r: "run_call D c w = (w', out)" by fastforce
  have "coherent D T L w'"
    using r create_coherent [OF assms(1,2,4)] get_coherent [OF assms(1,2,4)]
      pay_coherent [OF assms(1,2,3,4)] delete_coherent [OF assms(1,2,3,4)] assms(5)
    by (cases c) (auto simp: run_call_def)
  with r show ?thesis by simp
qed

lemma run_calls_coherent:
  assumes "sqlite_ok (sq D) T" "redis_ok (rd D) L" "dels_succeed (rd D)"
  shows "coherent D T L w \<Longrightarrow> \<forall>c \<in> set cs. plain_call D c \<Longrightarrow> coherent D T L (run_calls D cs w)"
proof (induction cs arbitrary: w)
  case (Cons c cs)
  with run_call_coherent [OF assms] show ?case by (simp add: run_calls_def)
qed (simp add: run_calls_def)

text \<open>The order a successful read shows is the stored one, whether it comes from the cache or not.\<close>

definition shows_order :: "('d, 's, 'r) deps \<Rightarrow> string \<Rightarrow> order \<Rightarrow> string \<Rightarrow> bool" where
  "shows_order D k ord text \<longleftrightarrow>
     text = dump (json D) (order_value D k (amount ord) (status ord) (created_at ord) (paid_at ord))
     \<or> status ord = ''PENDING'' \<and> text = dump (json D) (order_created_value D k (amount ord) (created_at ord))"

lemma get_order_shows:
  assumes "sqlite_ok (sq D) T" "redis_ok (rd D) L" "coherent D T L w" "get_order D k w = (w', Inr res)"
    "NUL \<notin> set k" "rcode res = 200"
  shows "\<exists>ord. T (db w) k = Some ord \<and> shows_order D k ord (body res)"
proof -
  have k: "c_str k = k" using assms(5) by (rule c_str_no_NUL)
  from assms(1,4) show ?thesis
  proof (cases rule: get_order_cases)
    case (1 v)
    with try_get_cached_hit [OF assms(2) 1(1)] assms(3) show ?thesis
      by (auto simp: coherent_def shows_order_def response_body_def new_response_def)
  next
    case (3 w1 ord)
    with k show ?thesis by (auto simp: shows_order_def)
  qed (use assms(6) in auto)
qed

subsection \<open>Order numbers\<close>

text \<open>
  Two numbers are equal only for the same second and the same random part, as long as the two
  timestamps have the same number of digits (they have ten until the year 2286).
\<close>

lemma generate_order_no_inject:
  assumes "length (int_to_string (sint ts)) = length (int_to_string (sint ts'))"
  shows "generate_order_no ts r = generate_order_no ts' r' \<longleftrightarrow> ts = ts' \<and> r mod 100000 = r' mod 100000"
  using assms by (auto simp: generate_order_no_def append_eq_append_conv intro: signed_word_eqI)

lemma generate_order_no_valid: "take 3 (generate_order_no ts r) = ''ORD''"
  by (simp add: generate_order_no_def)

subsection \<open>Listing\<close>

text \<open>A statement that delivers a list of rows and then no further one.\<close>

type_synonym listed = "string \<times> order"

definition listed_ok :: "('d, 's) sqlite \<Rightarrow> 's \<Rightarrow> 'd \<Rightarrow> listed \<Rightarrow> bool" where
  "listed_ok Q s d r \<longleftrightarrow> sq_column_text Q s 0 d = Some (fst r) \<and> sq_column_double Q s 1 d = amount (snd r) \<and>
     sq_column_text Q s 2 d = Some (status (snd r)) \<and> sq_column_int64 Q s 3 d = created_at (snd r) \<and>
     sq_column_int64 Q s 4 d = paid_at (snd r)"

fun delivers :: "('d, 's) sqlite \<Rightarrow> 's \<Rightarrow> 'd \<Rightarrow> listed list \<Rightarrow> bool" where
  "delivers Q s d [] \<longleftrightarrow> snd (sq_step Q s d) \<noteq> SQLITE_ROW"
| "delivers Q s d (r # rs) \<longleftrightarrow> snd (sq_step Q s d) = SQLITE_ROW \<and> listed_ok Q s (fst (sq_step Q s d)) r \<and>
     delivers Q s (fst (sq_step Q s d)) rs"

definition listed_value :: "('d, 's, 'r) deps \<Rightarrow> listed \<Rightarrow> wvalue" where
  "listed_value D r = order_value D (fst r) (amount (snd r)) (status (snd r)) (created_at (snd r)) (paid_at (snd r))"

text \<open>The array after some rows: still null before the first.\<close>

definition array_of :: "wvalue list \<Rightarrow> wvalue" where
  "array_of vs = (if vs = [] then WNull else WList vs)"

lemma row_value_listed: "listed_ok (sq D) s d r \<Longrightarrow> row_value D s d = Inr (listed_value D r)"
  by (simp add: row_value_def listed_ok_def cstr_value_def listed_value_def order_value_def)

lemma index_update_array:
  assumes "int (length vs) < int_max"
  shows "wv_index_update (word_of_int (int (length vs))) (\<lambda>_. x) (array_of vs) = Inr (array_of (vs @ [x]))"
proof -
  let ?i = "word_of_int (int (length vs)) :: 32 word"
  have un: "unat (of_nat n :: 32 word) = n" if "n < 2 ^ 32" for n
    using that by (simp add: unat_of_nat)
  have i: "unat ?i = length vs"
    using assms un [of "length vs"] by (simp add: int_limits)
  have "?i + 1 = of_nat (length vs + 1)" by simp
  then have "unat (?i + 1) = length vs + 1"
    using assms un [of "length vs + 1"] by (simp add: int_limits del: of_nat_add of_nat_Suc)
  with i show ?thesis
    by (cases vs) (simp_all add: wv_index_update_def array_of_def Let_def list_update_append)
qed

lemma list_rows_delivers:
  assumes "delivers (sq D) s d rs" "length rs < fuel" "int (length vs) + int (length rs) < int_max"
  shows "\<exists>d'. list_rows fuel D s (int (length vs)) (array_of vs) d
    = Some (d', Inr (array_of (vs @ map (listed_value D) rs)))"
  using assms
proof (induction rs arbitrary: fuel vs d)
  case Nil
  then obtain f where "fuel = Suc f" by (cases fuel) auto
  with Nil show ?case by (cases "sq_step (sq D) s d") simp
next
  case (Cons r rs)
  then obtain f where f: "fuel = Suc f" "length rs < f" by (cases fuel) auto
  obtain d1 where d1: "sq_step (sq D) s d = (d1, SQLITE_ROW)" "listed_ok (sq D) s d1 r" "delivers (sq D) s d1 rs"
    using Cons.prems(1) by (cases "sq_step (sq D) s d") auto
  have upd: "wv_index_update (word_of_int (int (length vs))) (\<lambda>_. listed_value D r) (array_of vs)
      = Inr (array_of (vs @ [listed_value D r]))"
    using Cons.prems(3) by (intro index_update_array) simp
  have "\<exists>d'. list_rows f D s (int (length (vs @ [listed_value D r]))) (array_of (vs @ [listed_value D r])) d1
      = Some (d', Inr (array_of ((vs @ [listed_value D r]) @ map (listed_value D) rs)))"
    by (rule Cons.IH [OF d1(3) f(2)]) (use Cons.prems(3) in simp)
  with d1 f(1) upd Cons.prems(3) row_value_listed [OF d1(2)] show ?case
    by (simp add: add.commute)
qed

text \<open>The body is one array in the order of the rows; without any row the member is null.\<close>

lemma list_body_delivers:
  assumes "delivers (sq D) s (db w) rs" "length rs < fuel" "int (length rs) < int_max"
  shows "\<exists>w'. list_body fuel D s w = Some (w', Inr (json_response (json D) 200
    (wv_put ''orders'' (array_of (map (listed_value D) rs)) WNull))) \<and> svc_of w' = svc_of w \<and> cache w' = cache w"
proof -
  obtain d' where "list_rows fuel D s 0 WNull (db w) = Some (d', Inr (array_of (map (listed_value D) rs)))"
    using list_rows_delivers [OF assms(1,2), of "[]"] assms(3) by (auto simp: array_of_def)
  then show ?thesis by (simp add: list_body_def)
qed

end
