(* ===== verification/Memory_Store.thy ===== *)
theory Memory_Store
  imports Order_Store
begin

text \<open>
  A database and a cache kept in memory that satisfy the contracts of \<open>Order_Store\<close>: they show that
  the contracts can hold together, and are the instance on which concrete runs of the handlers are
  evaluated, among them the interleavings and inputs that leave a stale cache entry behind.
\<close>

subsection \<open>The database\<close>

record memdb =
  rows :: "(string \<times> order) list"
  cur_sql :: string
  binds :: "(nat \<times> binding) list"
  cursor :: "(string \<times> order) list option"
  current :: "(string \<times> order) option"
  changes :: int

definition empty_memdb :: memdb where
  "empty_memdb = \<lparr>rows = [], cur_sql = [], binds = [], cursor = None, current = None, changes = 0\<rparr>"

definition text_arg :: "memdb \<Rightarrow> nat \<Rightarrow> string" where
  "text_arg d i = (case map_of (binds d) i of Some (BText t) \<Rightarrow> t | _ \<Rightarrow> [])"

definition double_arg :: "memdb \<Rightarrow> nat \<Rightarrow> double" where
  "double_arg d i = (case map_of (binds d) i of Some (BDouble x) \<Rightarrow> x | _ \<Rightarrow> NaN)"

definition int_arg :: "memdb \<Rightarrow> nat \<Rightarrow> i64" where
  "int_arg d i = (case map_of (binds d) i of Some (BInt64 n) \<Rightarrow> n | _ \<Rightarrow> 0)"

definition mem_insert :: "memdb \<Rightarrow> memdb \<times> sqlite_rc" where
  "mem_insert d =
     (case map_of (rows d) (text_arg d 1) of
        Some ord \<Rightarrow> (d, SQLITE_FAIL)
      | None \<Rightarrow> (d\<lparr>rows := rows d @ [(text_arg d 1, \<lparr>amount = double_arg d 2, status = text_arg d 3,
                    created_at = int_arg d 4, paid_at = int_arg d 5\<rparr>)]\<rparr>, SQLITE_DONE))"

definition mem_lookup :: "memdb \<Rightarrow> memdb \<times> sqlite_rc" where
  "mem_lookup d = (case map_of (rows d) (text_arg d 1) of
     Some ord \<Rightarrow> (d\<lparr>current := Some (text_arg d 1, ord)\<rparr>, SQLITE_ROW)
   | None \<Rightarrow> (d, SQLITE_DONE))"

definition mem_update :: "memdb \<Rightarrow> memdb \<times> sqlite_rc" where
  "mem_update d = (d\<lparr>rows := map (\<lambda>(k, ord).
     (k, if k = text_arg d 2 then ord\<lparr>status := ''PAID'', paid_at := int_arg d 1\<rparr> else ord)) (rows d)\<rparr>, SQLITE_DONE)"

definition mem_delete :: "memdb \<Rightarrow> memdb \<times> sqlite_rc" where
  "mem_delete d = (d\<lparr>rows := filter (\<lambda>kv. fst kv \<noteq> text_arg d 1) (rows d),
     changes := (if map_of (rows d) (text_arg d 1) = None then 0 else 1)\<rparr>, SQLITE_DONE)"

definition mem_scan :: "(string \<times> order) list \<Rightarrow> memdb \<Rightarrow> memdb \<times> sqlite_rc" where
  "mem_scan result d = (case (case cursor d of None \<Rightarrow> result | Some rs \<Rightarrow> rs) of
     [] \<Rightarrow> (d\<lparr>cursor := Some []\<rparr>, SQLITE_DONE)
   | kv # rs \<Rightarrow> (d\<lparr>cursor := Some rs, current := Some kv\<rparr>, SQLITE_ROW))"

definition mem_step :: "memdb \<Rightarrow> memdb \<times> sqlite_rc" where
  "mem_step d =
     (if cur_sql d = insert_sql then mem_insert d
      else if cur_sql d = get_sql \<or> cur_sql d = select_sql then mem_lookup d
      else if cur_sql d = update_sql then mem_update d
      else if cur_sql d = delete_sql then mem_delete d
      else if cur_sql d = sql_all then mem_scan (rows d) d
      else if cur_sql d = sql_filtered
      then mem_scan (filter (\<lambda>kv. status (snd kv) = text_arg d 1) (rows d)) d
      else (d, SQLITE_FAIL))"

text \<open>The columns of the two column lists: with and without the order number in front.\<close>

definition column_shift :: "memdb \<Rightarrow> nat" where
  "column_shift d = (if cur_sql d = sql_all \<or> cur_sql d = sql_filtered then 1 else 0)"

definition mem_sqlite :: "(memdb, unit) sqlite" where
  "mem_sqlite = \<lparr>
     sq_prepare = (\<lambda>q d. (d\<lparr>cur_sql := q, binds := [], cursor := None, current := None\<rparr>, Some ())),
     sq_bind_text = (\<lambda>s i t d. d\<lparr>binds := (i, BText t) # binds d\<rparr>),
     sq_bind_double = (\<lambda>s i x d. d\<lparr>binds := (i, BDouble x) # binds d\<rparr>),
     sq_bind_int64 = (\<lambda>s i n d. d\<lparr>binds := (i, BInt64 n) # binds d\<rparr>),
     sq_step = (\<lambda>s d. mem_step d),
     sq_column_double = (\<lambda>s i d. case current d of
        Some (k, ord) \<Rightarrow> if i = column_shift d then amount ord else NaN | None \<Rightarrow> NaN),
     sq_column_int64 = (\<lambda>s i d. case current d of
        Some (k, ord) \<Rightarrow> if i = column_shift d + 2 then created_at ord
                        else if i = column_shift d + 3 then paid_at ord else 0 | None \<Rightarrow> 0),
     sq_column_text = (\<lambda>s i d. case current d of
        Some (k, ord) \<Rightarrow> if i = column_shift d + 1 then Some (status ord)
                        else if i < column_shift d then Some k else None | None \<Rightarrow> None),
     sq_changes = changes,
     sq_finalize = (\<lambda>s d. d)\<rparr>"

definition mem_table :: "memdb \<Rightarrow> table" where
  "mem_table d = map_of (rows d)"

subsection \<open>The cache\<close>

definition mem_redis :: "(string \<times> string) list redis" where
  "mem_redis = \<lparr>
     rd_set = (\<lambda>k v ttl r. ((k, v) # r, Inr ())),
     rd_get = (\<lambda>k r. (r, Inr (map_of r k))),
     rd_del = (\<lambda>k r. (filter (\<lambda>kv. fst kv \<noteq> k) r, Inr 1))\<rparr>"

text \<open>A cache that answers every deletion with an error.\<close>

definition readonly_redis :: "(string \<times> string) list redis" where
  "readonly_redis = mem_redis\<lparr>rd_del := (\<lambda>k r. (r, Inl ''READONLY''))\<rparr>"

definition mem_json :: json_impl where
  "mem_json = \<lparr>decimal_dig = 21, bucket_order = (\<lambda>ks. [0..<length ks])\<rparr>"

definition mem_deps :: "(memdb, unit, (string \<times> string) list) deps" where
  "mem_deps = \<lparr>sq = mem_sqlite, rd = mem_redis, json = mem_json, key_sort = insertion_sort,
     localtime_text = (\<lambda>t. int_to_string (sint t))\<rparr>"

definition mem_world :: "(memdb, (string \<times> string) list) world" where
  "mem_world = \<lparr>svc_of = initial_svc\<lparr>db_ready := True, redis_client := True, redis_available := True\<rparr>,
     db = empty_memdb, cache = []\<rparr>"

subsection \<open>The contracts hold\<close>

lemma sql_distinct:
  "insert_sql \<noteq> get_sql" "insert_sql \<noteq> select_sql" "insert_sql \<noteq> update_sql" "insert_sql \<noteq> delete_sql"
  "get_sql \<noteq> insert_sql" "select_sql \<noteq> insert_sql" "update_sql \<noteq> insert_sql" "delete_sql \<noteq> insert_sql"
  "update_sql \<noteq> get_sql" "update_sql \<noteq> select_sql" "delete_sql \<noteq> get_sql" "delete_sql \<noteq> select_sql"
  "delete_sql \<noteq> update_sql" "get_sql \<noteq> sql_all" "get_sql \<noteq> sql_filtered"
  "select_sql \<noteq> sql_all" "select_sql \<noteq> sql_filtered"
  by (simp_all add: insert_sql_def get_sql_def select_sql_def update_sql_def delete_sql_def sql_all_def sql_filtered_def)

lemma mem_step_list: "cur_sql d = sql_all \<Longrightarrow> mem_step d = mem_scan (rows d) d"
  by (simp add: mem_step_def insert_sql_def get_sql_def select_sql_def update_sql_def delete_sql_def sql_all_def)

lemmas mem_defs = mem_sqlite_def exec_def bind_all_def mem_step_def text_arg_def double_arg_def int_arg_def

lemma mem_prepare_ok: "prepare_ok mem_sqlite mem_table"
  by (auto simp: prepare_ok_def exec_def mem_sqlite_def split: prod.splits)

lemma map_of_append_new: "map_of kvs k = None \<Longrightarrow> map_of (kvs @ [(k, v)]) = (map_of kvs)(k \<mapsto> v)"
  by (rule ext) (simp add: map_add_def split: option.splits)

lemma c_str_PENDING: "c_str ''PENDING'' = ''PENDING''"
  by (simp add: c_str_def)

lemma mem_insert_ok: "insert_ok mem_sqlite mem_table"
  unfolding insert_ok_def
  by (auto simp: mem_defs mem_insert_def mem_table_def map_of_append_new c_str_PENDING simp del: map_of_append
      split: option.splits if_splits prod.splits)

lemma mem_get_ok: "get_ok mem_sqlite mem_table"
  unfolding get_ok_def
  by (auto simp: mem_defs mem_lookup_def mem_table_def row_ok_def column_shift_def sql_distinct
      split: option.splits if_splits prod.splits)

lemma mem_select_ok: "select_ok mem_sqlite mem_table"
  unfolding select_ok_def
  by (auto simp: mem_defs mem_lookup_def mem_table_def row_ok_def column_shift_def sql_distinct
      split: option.splits if_splits prod.splits)

lemma map_of_map_key:
  "map_of (map (\<lambda>(k, v). (k, if k = j then f v else v)) kvs) =
     (case map_of kvs j of None \<Rightarrow> map_of kvs | Some v \<Rightarrow> (map_of kvs)(j \<mapsto> f v))"
  by (induction kvs) (auto split: option.splits)

lemma mem_update_ok: "update_ok mem_sqlite mem_table"
  unfolding update_ok_def
  by (auto simp: mem_defs mem_update_def mem_table_def abs_pay_def sql_distinct map_of_map_key
      split: option.splits)

lemma map_of_filter_key: "map_of (filter (\<lambda>kv. fst kv \<noteq> k) kvs) = (map_of kvs)(k := None)"
  by (induction kvs) auto

lemma mem_delete_ok: "delete_ok mem_sqlite mem_table"
  unfolding delete_ok_def
  by (auto simp: mem_defs mem_delete_def mem_table_def abs_delete_def sql_distinct map_of_filter_key)

lemma mem_sqlite_ok: "sqlite_ok mem_sqlite mem_table"
  by (simp add: sqlite_ok_def mem_prepare_ok mem_insert_ok mem_get_ok mem_select_ok mem_update_ok mem_delete_ok)

lemma mem_redis_ok: "redis_ok mem_redis map_of"
  by (simp add: redis_ok_def redis_set_ok_def redis_get_ok_def redis_del_ok_def mem_redis_def
      map_of_filter_key map_le_def)

lemma readonly_redis_ok: "redis_ok readonly_redis map_of"
  by (simp add: redis_ok_def redis_set_ok_def redis_get_ok_def redis_del_ok_def mem_redis_def
      readonly_redis_def map_le_def)

lemma mem_dels_succeed: "dels_succeed mem_redis"
  by (simp add: dels_succeed_def mem_redis_def)

lemma mem_json_ok: "json_impl_ok mem_json"
  by (simp add: json_impl_ok_def mem_json_def)

subsection \<open>Concrete runs\<close>

definition one_order :: "string \<Rightarrow> (memdb, (string \<times> string) list) world" where
  "one_order k = mem_world\<lparr>db := empty_memdb\<lparr>rows := [(k, pending_order (Fin False 5 0) 7)]\<rparr>\<rparr>"

text \<open>An order that is paid already.\<close>

definition paid_order :: "(memdb, (string \<times> string) list) world" where
  "paid_order = mem_world\<lparr>db := empty_memdb\<lparr>rows := [(''ORD1'', (pending_order (Fin False 5 0) 7)\<lparr>status := ''PAID'', paid_at := 9\<rparr>)]\<rparr>\<rparr>"

text \<open>Requests with a body of one member.\<close>

definition json_member :: "string \<Rightarrow> string \<Rightarrow> string" where
  "json_member k v = ''{'' @ [QUOTE] @ k @ [QUOTE] @ '':'' @ v @ ''}''"

definition create_request :: request where
  "create_request = empty_request\<lparr>req_method := 3, url := ''/order/create'', req_body := json_member ''amount'' ''12.5''\<rparr>"

definition pay_request :: request where
  "pay_request = empty_request\<lparr>req_method := 3, url := ''/order/pay'',
     req_body := json_member ''order_no'' ([QUOTE] @ ''ORD1'' @ [QUOTE])\<rparr>"

lemma load_pay_request: "load (req_body pay_request) = RObject [(''order_no'', RString ''ORD1'' False)] False"
  by code_simp

lemma load_create_request: "load (req_body create_request) = RObject [(''amount'', RNumber ''12.5'')] False"
  by code_simp

lemma single_member:
  "rv_at insertion_sort (RObject [(k, v)] False) k = Inr v"
  "rv_has insertion_sort (RObject [(k, v)] False) k = Inr True"
  by (simp_all add: rv_at_distinct [OF key_sorter_insertion_sort] rv_has_object [OF key_sorter_insertion_sort])

lemma amount_12_5: "extract_double ''12.5'' = Fin False 7036874417766400 (- 49)"
  by (simp add: number_eval)

lemma sq_mem_deps [simp]: "sq mem_deps = mem_sqlite" "rd mem_deps = mem_redis" "json mem_deps = mem_json"
  "key_sort mem_deps = insertion_sort"
  by (simp_all add: mem_deps_def)

lemmas run_defs = mem_defs mem_lookup_def mem_update_def mem_insert_def mem_delete_def mem_redis_def
  sql_distinct column_shift_def string_of_ptr_def row_ok_def

lemma c_str_ORD: "c_str ''ORD1'' = ''ORD1''" "c_str (''ORD1'' @ [NUL]) = ''ORD1''"
  by (simp_all add: c_str_def)

lemmas world_defs = one_order_def paid_order_def mem_world_def empty_memdb_def pending_order_def initial_svc_def
  finish_def on_svc_def invalidate_cached_order_def record_redis_success_def success_def mem_table_def

lemma one_order_wf: "table_wf (mem_table (db (one_order k)))"
  by (simp add: world_defs table_wf_def order_wf_def dbl_pos_def)

lemma one_order_row: "mem_table (db (one_order k)) = [k \<mapsto> pending_order (Fin False 5 0) 7]"
  by (rule ext) (simp add: world_defs)

lemma pay_request_names: "pay_request_key mem_deps pay_request = Some ''ORD1''"
  by (simp add: pay_request_key_def load_pay_request single_member rv_s_def rv_unescape_def rv_text_def)

lemma pay_request_runs:
  "pay_order mem_deps now pay_request w =
     (case pay_lookup mem_deps ''ORD1'' w of (w1, Inl r) \<Rightarrow> (w1, r) | (w1, Inr t) \<Rightarrow> pay_update mem_deps now t w1)"
  by (simp add: pay_order_def load_pay_request single_member rv_s_def rv_unescape_def rv_text_def rv_bool_def
      is_valid_order_no_def)

lemma create_request_runs:
  "create_order mem_deps ts rnd now create_request w =
     insert_order mem_deps ts rnd now (Fin False 7036874417766400 (- 49)) w"
  by (simp add: create_order_def load_create_request single_member rv_d_def rv_text_def rv_bool_def
      is_valid_amount_def amount_12_5 dbl_pos_def)




text \<open>
  When Redis refuses the deletion of the cached entry, the payment succeeds all the same, and the
  next read is still answered with the pending order.
\<close>

lemma failed_del_run:
  "\<exists>w0 out0 w1 t w2 out2 w3.
     create_cache mem_deps ''ORD1'' (order_created_value mem_deps ''ORD1'' (Fin False 5 0) 7) (one_order ''ORD1'') = (w0, out0) \<and>
     pay_lookup (mem_deps\<lparr>rd := readonly_redis\<rparr>) ''ORD1'' w0 = (w1, Inr t) \<and>
     pay_update (mem_deps\<lparr>rd := readonly_redis\<rparr>) 10 t w1 = (w2, out2) \<and> success out2 \<and>
     get_order (mem_deps\<lparr>rd := readonly_redis\<rparr>) ''ORD1'' w2 =
       (w3, Inr (response_body (dump mem_json (order_created_value mem_deps ''ORD1'' (Fin False 5 0) 7)))) \<and>
     map_option status (mem_table (db w3) ''ORD1'') = Some ''PAID''"
  by (simp add: create_cache_def get_order_def try_get_cached_order_def try_cache_order_def readonly_redis_def
      pay_lookup_def pay_update_def mem_deps_def mem_world_def empty_memdb_def one_order_def
      run_defs c_str_def pending_order_def cache_key_def finish_def on_svc_def invalidate_cached_order_def success_def
      mem_table_def initial_svc_def record_redis_success_def record_redis_failure_def)

end
