(* ===== verification/Middleware.thy ===== *)
theory Middleware
  imports Service_State
begin

text \<open>
  The middleware chain: the call order of \<open>crow/middleware.h\<close> (\<open>middleware_call_helper\<close>,
  \<open>after_handlers_call_helper\<close>) and the four middlewares of the service, \<open>LoggingMiddleware\<close>,
  \<open>LifecycleMiddleware\<close>, \<open>ErrorHandlerMiddleware\<close> of \<open>src/main.cpp\<close> and \<open>AuthMiddleware\<close> of
  \<open>include/auth_middleware.h\<close>, in the order in which \<open>main\<close> lists them. The lemmas say what the
  chain does to the counters and when a request reaches its handler.
\<close>

subsection \<open>State\<close>

text \<open>
  The members of the middleware contexts of one connection (\<open>detail::context\<close>), a time point in
  nanoseconds of the steady clock.
\<close>

record mw_context =
  counted_inflight :: bool
  start_time :: i64

definition new_context :: mw_context where
  "new_context = \<lparr>counted_inflight = False, start_time = 0\<rparr>"

text \<open>\<open>ms_clock\<close> holds the readings that the next calls of \<open>steady_clock::now\<close> give.\<close>

record mw_state =
  ms_svc :: svc
  ms_res :: response
  ms_ctx :: mw_context
  ms_clock :: "i64 list"

definition clock_now :: "mw_state \<Rightarrow> i64 \<times> mw_state" where
  "clock_now s = (case ms_clock s of [] \<Rightarrow> (0, s) | t # ts \<Rightarrow> (t, s\<lparr>ms_clock := ts\<rparr>))"

definition upd_svc :: "(svc \<Rightarrow> svc) \<Rightarrow> mw_state \<Rightarrow> mw_state" where
  "upd_svc f s = s\<lparr>ms_svc := f (ms_svc s)\<rparr>"

definition upd_res :: "(response \<Rightarrow> response) \<Rightarrow> mw_state \<Rightarrow> mw_state" where
  "upd_res f s = s\<lparr>ms_res := f (ms_res s)\<rparr>"

text \<open>
  \<open>res.end()\<close> inside a middleware: the connection has removed its callback before it calls the
  chain, so only the response changes.
\<close>

definition mw_end :: "mw_state \<Rightarrow> mw_state" where
  "mw_end s = upd_res (\<lambda>r. snd (response_end id ((), r))) s"

subsection \<open>The call order\<close>

record middleware =
  is_global :: bool
  before_handle :: "request \<Rightarrow> mw_state \<Rightarrow> mw_state"
  after_handle :: "request \<Rightarrow> mw_state \<Rightarrow> mw_state"

text \<open>The result says whether some middleware completed the response.\<close>

fun middleware_call_helper :: "middleware list \<Rightarrow> request \<Rightarrow> mw_state \<Rightarrow> mw_state \<times> bool" where
  "middleware_call_helper [] req s = (s, False)"
| "middleware_call_helper (m # ms) req s =
     (if \<not> is_global m then middleware_call_helper ms req s
      else let s1 = before_handle m req s
           in if completed (ms_res s1) then (after_handle m req s1, True)
              else (case middleware_call_helper ms req s1 of
                      (s2, True) \<Rightarrow> (after_handle m req s2, True)
                    | (s2, False) \<Rightarrow> (s2, False)))"

text \<open>The index runs from the last middleware down to the first.\<close>

fun after_handlers_call_helper :: "middleware list \<Rightarrow> request \<Rightarrow> mw_state \<Rightarrow> mw_state" where
  "after_handlers_call_helper [] req s = s"
| "after_handlers_call_helper (m # ms) req s =
     (let s1 = after_handlers_call_helper ms req s
      in if is_global m then after_handle m req s1 else s1)"

subsection \<open>\<open>LoggingMiddleware\<close>\<close>

definition logging_before :: "request \<Rightarrow> mw_state \<Rightarrow> mw_state" where
  "logging_before req s = (case clock_now s of (t, s1) \<Rightarrow> s1\<lparr>ms_ctx := (ms_ctx s1)\<lparr>start_time := t\<rparr>\<rparr>)"

text \<open>\<open>duration_cast\<close> to milliseconds truncates toward zero.\<close>

definition duration_ms :: "i64 \<Rightarrow> i64 \<Rightarrow> i64" where
  "duration_ms end_time start = (let d = sint (end_time - start)
     in word_of_int (if d < 0 then - ((- d) div 1000000) else d div 1000000))"

definition logging_after :: "request \<Rightarrow> mw_state \<Rightarrow> mw_state" where
  "logging_after req s = (case clock_now s of (t, s1) \<Rightarrow>
     upd_svc (\<lambda>v. observe_request_duration_ms (duration_ms t (start_time (ms_ctx s1)))
                    (v\<lparr>total_requests := total_requests v + 1\<rparr>)) s1)"

subsection \<open>\<open>LifecycleMiddleware\<close>\<close>

definition reject :: "json_impl \<Rightarrow> string \<Rightarrow> string \<Rightarrow> mw_state \<Rightarrow> mw_state" where
  "reject J message retry s =
     mw_end (upd_res (\<lambda>r. set_header ''Retry-After'' retry (response_assign r (json_error J 503 message))) s)"

definition lifecycle_before :: "json_impl \<Rightarrow> request \<Rightarrow> mw_state \<Rightarrow> mw_state" where
  "lifecycle_before J req s =
     (if is_probe_path (url req) then s
      else if shutting_down (ms_svc s)
      then reject J ''Server is shutting down'' ''5''
             (upd_svc (\<lambda>v. v\<lparr>shutdown_rejections := shutdown_rejections v + 1\<rparr>) s)
      else let current_inflight = in_flight_requests (ms_svc s) + 1;
               s1 = (upd_svc (\<lambda>v. v\<lparr>in_flight_requests := in_flight_requests v + 1\<rparr>) s)
                      \<lparr>ms_ctx := (ms_ctx s)\<lparr>counted_inflight := True\<rparr>\<rparr>
           in if max_inflight_requests (ms_svc s1) <s current_inflight
              then reject J ''Server overloaded'' ''1''
                     ((upd_svc (\<lambda>v. v\<lparr>in_flight_requests := in_flight_requests v - 1,
                                     overload_rejections := overload_rejections v + 1\<rparr>) s1)
                        \<lparr>ms_ctx := (ms_ctx s1)\<lparr>counted_inflight := False\<rparr>\<rparr>)
              else s1)"

definition lifecycle_after :: "request \<Rightarrow> mw_state \<Rightarrow> mw_state" where
  "lifecycle_after req s =
     (if counted_inflight (ms_ctx s)
      then upd_svc (\<lambda>v. v\<lparr>in_flight_requests := in_flight_requests v - 1\<rparr>) s else s)"

subsection \<open>\<open>ErrorHandlerMiddleware\<close>\<close>

definition error_before :: "request \<Rightarrow> mw_state \<Rightarrow> mw_state" where
  "error_before req s = s"

definition error_text :: "int \<Rightarrow> string" where
  "error_text c = (if c = 400 then ''Bad Request'' else if c = 404 then ''Not Found''
     else if c = 500 then ''Internal Server Error'' else ''HTTP Error'')"

definition error_body :: "json_impl \<Rightarrow> int \<Rightarrow> string" where
  "error_body J c = dump J (wv_put ''code'' (wv_of_int c) (wv_put ''error'' (WString (error_text c)) WNull))"

definition error_after :: "json_impl \<Rightarrow> request \<Rightarrow> mw_state \<Rightarrow> mw_state" where
  "error_after J req s =
     (if 400 \<le> rcode (ms_res s) \<and> body (ms_res s) = []
      then upd_res (\<lambda>r. (set_header ''Content-Type'' ''application/json'' r)\<lparr>body := error_body J (rcode r)\<rparr>) s
      else s)"

subsection \<open>\<open>AuthMiddleware\<close>\<close>

definition unauthorized_body :: string where
  "unauthorized_body = [CHR ''{'', QUOTE] @ ''error'' @ [QUOTE] @ '': '' @ [QUOTE] @ ''Unauthorized'' @ [QUOTE, CHR ''}'']"

definition auth_before :: "request \<Rightarrow> mw_state \<Rightarrow> mw_state" where
  "auth_before req s =
     (if is_probe_path (url req) then s
      else if req_get_header_value req ''Authorization'' \<noteq> api_key (ms_svc s)
      then mw_end (upd_res (\<lambda>r. res_write unauthorized_body
             (set_header ''Content-Type'' ''application/json'' (r\<lparr>rcode := 401\<rparr>))) s)
      else s)"

definition auth_after :: "request \<Rightarrow> mw_state \<Rightarrow> mw_state" where
  "auth_after req s = s"

subsection \<open>The chain of the application\<close>

definition app_middlewares :: "json_impl \<Rightarrow> middleware list" where
  "app_middlewares J =
     [\<lparr>is_global = True, before_handle = logging_before, after_handle = logging_after\<rparr>,
      \<lparr>is_global = True, before_handle = lifecycle_before J, after_handle = lifecycle_after\<rparr>,
      \<lparr>is_global = True, before_handle = error_before, after_handle = error_after J\<rparr>,
      \<lparr>is_global = True, before_handle = auth_before, after_handle = auth_after\<rparr>]"

definition call_middlewares :: "json_impl \<Rightarrow> request \<Rightarrow> mw_state \<Rightarrow> mw_state \<times> bool" where
  "call_middlewares J req s = middleware_call_helper (app_middlewares J) req s"

definition call_after_handlers :: "json_impl \<Rightarrow> request \<Rightarrow> mw_state \<Rightarrow> mw_state" where
  "call_after_handlers J req s = after_handlers_call_helper (app_middlewares J) req s"

subsection \<open>What each step leaves alone\<close>

lemma upd_simps [simp]:
  "ms_svc (upd_svc f s) = f (ms_svc s)" "ms_res (upd_svc f s) = ms_res s" "ms_ctx (upd_svc f s) = ms_ctx s"
  "ms_clock (upd_svc f s) = ms_clock s"
  "ms_svc (upd_res g s) = ms_svc s" "ms_res (upd_res g s) = g (ms_res s)" "ms_ctx (upd_res g s) = ms_ctx s"
  "ms_clock (upd_res g s) = ms_clock s"
  by (simp_all add: upd_svc_def upd_res_def)

lemma mw_end_simps [simp]:
  "ms_svc (mw_end s) = ms_svc s" "ms_ctx (mw_end s) = ms_ctx s" "ms_clock (mw_end s) = ms_clock s"
  "rcode (ms_res (mw_end s)) = rcode (ms_res s)"
  "completed (ms_res (mw_end s))"
  by (auto simp: mw_end_def response_end_def Let_def)

lemma response_assign_simps [simp]:
  "rcode (response_assign r q) = rcode q" "body (response_assign r q) = body q"
  "headers (response_assign r q) = headers q" "completed (response_assign r q) = completed q"
  "skip_body (response_assign r q) = skip_body r"
  "manual_length_header (response_assign r q) = manual_length_header r"
  "complete_request_handler (response_assign r q) = complete_request_handler r"
  by (simp_all add: response_assign_def)

lemma reject_simps [simp]:
  "ms_svc (reject J m t s) = ms_svc s" "ms_ctx (reject J m t s) = ms_ctx s" "ms_clock (reject J m t s) = ms_clock s"
  "rcode (ms_res (reject J m t s)) = 503" "completed (ms_res (reject J m t s))"
  by (simp_all add: reject_def)

lemma reject_retry: "res_get_header_value (ms_res (reject J m t s)) ''Retry-After'' = t"
proof -
  have "\<not> ci_key_eq ''Content-Length'' ''Retry-After''" "ci_key_eq ''Retry-After'' ''Retry-After''"
    by (simp_all add: ci_key_eq_map)
  then show ?thesis
    by (auto simp: reject_def mw_end_def response_end_def Let_def res_get_header_value_def get_header_value_find
        set_header_assign ci.lookup_assign)
qed

lemma clock_now_simps [simp]:
  "ms_svc (snd (clock_now s)) = ms_svc s" "ms_res (snd (clock_now s)) = ms_res s" "ms_ctx (snd (clock_now s)) = ms_ctx s"
  by (simp_all add: clock_now_def split: list.splits)

lemma logging_before_simps [simp]:
  "ms_svc (logging_before req s) = ms_svc s" "ms_res (logging_before req s) = ms_res s"
  "counted_inflight (ms_ctx (logging_before req s)) = counted_inflight (ms_ctx s)"
  "start_time (ms_ctx (logging_before req s)) = fst (clock_now s)"
  "ms_clock (logging_before req s) = ms_clock (snd (clock_now s))"
  by (simp_all add: logging_before_def case_prod_unfold)

lemma logging_after_simps [simp]:
  "ms_res (logging_after req s) = ms_res s" "ms_ctx (logging_after req s) = ms_ctx s"
  "ms_svc (logging_after req s) = observe_request_duration_ms
     (duration_ms (fst (clock_now s)) (start_time (ms_ctx s)))
     ((ms_svc s)\<lparr>total_requests := total_requests (ms_svc s) + 1\<rparr>)"
  by (simp_all add: logging_after_def case_prod_unfold)

lemma observe_keeps [simp]:
  "in_flight_requests (observe_request_duration_ms d v) = in_flight_requests v"
  "total_requests (observe_request_duration_ms d v) = total_requests v"
  "shutdown_rejections (observe_request_duration_ms d v) = shutdown_rejections v"
  "overload_rejections (observe_request_duration_ms d v) = overload_rejections v"
  "request_duration_samples (observe_request_duration_ms d v) = request_duration_samples v + 1"
  "orders_created (observe_request_duration_ms d v) = orders_created v"
  "orders_paid (observe_request_duration_ms d v) = orders_paid v"
  "shutting_down (observe_request_duration_ms d v) = shutting_down v"
  "max_inflight_requests (observe_request_duration_ms d v) = max_inflight_requests v"
  "api_key (observe_request_duration_ms d v) = api_key v"
  by (simp_all add: observe_request_duration_ms_def)

lemma error_after_simps [simp]:
  "ms_svc (error_after J req s) = ms_svc s" "ms_ctx (error_after J req s) = ms_ctx s"
  "rcode (ms_res (error_after J req s)) = rcode (ms_res s)"
  "ms_clock (error_after J req s) = ms_clock s"
  "completed (ms_res (error_after J req s)) = completed (ms_res s)"
  by (simp_all add: error_after_def)

lemma lifecycle_after_simps [simp]:
  "ms_res (lifecycle_after req s) = ms_res s" "ms_ctx (lifecycle_after req s) = ms_ctx s"
  "in_flight_requests (ms_svc (lifecycle_after req s)) =
     in_flight_requests (ms_svc s) - (if counted_inflight (ms_ctx s) then 1 else 0)"
  "total_requests (ms_svc (lifecycle_after req s)) = total_requests (ms_svc s)"
  "request_duration_samples (ms_svc (lifecycle_after req s)) = request_duration_samples (ms_svc s)"
  "shutdown_rejections (ms_svc (lifecycle_after req s)) = shutdown_rejections (ms_svc s)"
  "overload_rejections (ms_svc (lifecycle_after req s)) = overload_rejections (ms_svc s)"
  "shutting_down (ms_svc (lifecycle_after req s)) = shutting_down (ms_svc s)"
  "max_inflight_requests (ms_svc (lifecycle_after req s)) = max_inflight_requests (ms_svc s)"
  "api_key (ms_svc (lifecycle_after req s)) = api_key (ms_svc s)"
  by (simp_all add: lifecycle_after_def)

subsection \<open>The chain as a whole\<close>

lemma auth_before_pass:
  "completed (ms_res (auth_before req s)) \<longleftrightarrow> completed (ms_res s) \<or>
     \<not> is_probe_path (url req) \<and> req_get_header_value req ''Authorization'' \<noteq> api_key (ms_svc s)"
  by (simp add: auth_before_def)

lemma auth_before_simps [simp]:
  "ms_svc (auth_before req s) = ms_svc s" "ms_ctx (auth_before req s) = ms_ctx s"
  "ms_clock (auth_before req s) = ms_clock s"
  by (simp_all add: auth_before_def)

text \<open>The tests of the chain, in their order.\<close>

definition over_limit :: "svc \<Rightarrow> bool" where
  "over_limit v \<longleftrightarrow> max_inflight_requests v <s in_flight_requests v + 1"

definition authorized :: "request \<Rightarrow> svc \<Rightarrow> bool" where
  "authorized req v \<longleftrightarrow> req_get_header_value req ''Authorization'' = api_key v"

lemma lifecycle_before_cases:
  "is_probe_path (url req) \<Longrightarrow> lifecycle_before J req s = s"
  "\<not> is_probe_path (url req) \<Longrightarrow> shutting_down (ms_svc s) \<Longrightarrow>
     completed (ms_res (lifecycle_before J req s)) \<and> rcode (ms_res (lifecycle_before J req s)) = 503 \<and>
     ms_ctx (lifecycle_before J req s) = ms_ctx s \<and>
     ms_svc (lifecycle_before J req s) = (ms_svc s)\<lparr>shutdown_rejections := shutdown_rejections (ms_svc s) + 1\<rparr> \<and>
     res_get_header_value (ms_res (lifecycle_before J req s)) ''Retry-After'' = ''5''"
  "\<not> is_probe_path (url req) \<Longrightarrow> \<not> shutting_down (ms_svc s) \<Longrightarrow> over_limit (ms_svc s) \<Longrightarrow>
     completed (ms_res (lifecycle_before J req s)) \<and> rcode (ms_res (lifecycle_before J req s)) = 503 \<and>
     \<not> counted_inflight (ms_ctx (lifecycle_before J req s)) \<and>
     ms_svc (lifecycle_before J req s) = (ms_svc s)\<lparr>overload_rejections := overload_rejections (ms_svc s) + 1\<rparr> \<and>
     res_get_header_value (ms_res (lifecycle_before J req s)) ''Retry-After'' = ''1''"
  "\<not> is_probe_path (url req) \<Longrightarrow> \<not> shutting_down (ms_svc s) \<Longrightarrow> \<not> over_limit (ms_svc s) \<Longrightarrow>
     ms_res (lifecycle_before J req s) = ms_res s \<and> counted_inflight (ms_ctx (lifecycle_before J req s)) \<and>
     ms_svc (lifecycle_before J req s) = (ms_svc s)\<lparr>in_flight_requests := in_flight_requests (ms_svc s) + 1\<rparr>"
  by (simp_all add: lifecycle_before_def over_limit_def reject_retry Let_def)

definition admitted :: "request \<Rightarrow> svc \<Rightarrow> bool" where
  "admitted req v \<longleftrightarrow> is_probe_path (url req) \<or> \<not> shutting_down v \<and> \<not> over_limit v \<and> authorized req v"

lemma call_middlewares_chain:
  "call_middlewares J req s =
     (let s1 = lifecycle_before J req (logging_before req s)
      in if completed (ms_res (logging_before req s)) then (logging_after req (logging_before req s), True)
         else if completed (ms_res s1) then (logging_after req (lifecycle_after req s1), True)
         else if completed (ms_res (auth_before req s1))
         then (logging_after req (lifecycle_after req (error_after J req (auth_before req s1))), True)
         else (auth_before req s1, False))"
  by (simp add: call_middlewares_def app_middlewares_def error_before_def auth_after_def Let_def)

lemma call_middlewares_pass:
  assumes "\<not> completed (ms_res s)" "admitted req (ms_svc s)"
  obtains s' where "call_middlewares J req s = (s', False)" "ms_res s' = ms_res s"
    "ms_svc s' = (ms_svc s)\<lparr>in_flight_requests :=
       in_flight_requests (ms_svc s) + (if is_probe_path (url req) then 0 else 1)\<rparr>"
    "counted_inflight (ms_ctx s') = (if is_probe_path (url req) then counted_inflight (ms_ctx s) else True)"
proof (cases "is_probe_path (url req)")
  case True
  then have "auth_before req (logging_before req s) = logging_before req s" by (simp add: auth_before_def)
  with True assms(1) that [of "logging_before req s"] show thesis
    by (simp add: call_middlewares_chain lifecycle_before_cases(1) Let_def)
next
  case False
  let ?s1 = "lifecycle_before J req (logging_before req s)"
  have s1: "ms_res ?s1 = ms_res s" "counted_inflight (ms_ctx ?s1)"
    "ms_svc ?s1 = (ms_svc s)\<lparr>in_flight_requests := in_flight_requests (ms_svc s) + 1\<rparr>"
    using False assms(2) lifecycle_before_cases(4) [of req "logging_before req s" J] by (simp_all add: admitted_def)
  have "auth_before req ?s1 = ?s1"
    using False assms(2) s1 by (simp add: auth_before_def admitted_def authorized_def)
  with s1 False assms(1) that [of ?s1] show thesis by (simp add: call_middlewares_chain Let_def)
qed

lemma call_middlewares_reject:
  assumes "\<not> completed (ms_res s)" "\<not> admitted req (ms_svc s)" "\<not> counted_inflight (ms_ctx s)"
  obtains s' where "call_middlewares J req s = (s', True)"
    "in_flight_requests (ms_svc s') = in_flight_requests (ms_svc s)"
    "total_requests (ms_svc s') = total_requests (ms_svc s) + 1"
    "request_duration_samples (ms_svc s') = request_duration_samples (ms_svc s) + 1"
    "rcode (ms_res s') = (if shutting_down (ms_svc s) \<or> over_limit (ms_svc s) then 503 else 401)"
    "completed (ms_res s')"
proof -
  let ?s0 = "logging_before req s"
  let ?s1 = "lifecycle_before J req ?s0"
  have np: "\<not> is_probe_path (url req)" using assms(2) by (simp add: admitted_def)
  show thesis
  proof (cases "shutting_down (ms_svc s) \<or> over_limit (ms_svc s)")
    case True
    have "completed (ms_res ?s1)" "rcode (ms_res ?s1) = 503" "\<not> counted_inflight (ms_ctx ?s1)"
      "in_flight_requests (ms_svc ?s1) = in_flight_requests (ms_svc s)"
      "total_requests (ms_svc ?s1) = total_requests (ms_svc s)"
      "request_duration_samples (ms_svc ?s1) = request_duration_samples (ms_svc s)"
      using np True assms(3) lifecycle_before_cases(2,3) [of req ?s0 J]
      by (cases "shutting_down (ms_svc s)"; simp)+
    with True assms(1) that [of "logging_after req (lifecycle_after req ?s1)"] show thesis
      by (simp add: call_middlewares_chain Let_def)
  next
    case False
    then have s1: "ms_res ?s1 = ms_res s" "counted_inflight (ms_ctx ?s1)"
      "ms_svc ?s1 = (ms_svc s)\<lparr>in_flight_requests := in_flight_requests (ms_svc s) + 1\<rparr>"
      using np lifecycle_before_cases(4) [of req ?s0 J] by simp_all
    have "completed (ms_res (auth_before req ?s1))" "rcode (ms_res (auth_before req ?s1)) = 401"
      using False np assms(2) s1 by (simp_all add: auth_before_def admitted_def authorized_def res_write_def)
    with False s1 assms(1) that [of "logging_after req (lifecycle_after req (error_after J req (auth_before req ?s1)))"]
    show thesis by (simp add: call_middlewares_chain Let_def)
  qed
qed

lemma call_after_handlers_chain:
  "call_after_handlers J req s = logging_after req (lifecycle_after req (error_after J req s))"
  by (simp add: call_after_handlers_def app_middlewares_def auth_after_def Let_def)

text \<open>The settings that decide over admission; only their owner changes them.\<close>

definition policy :: "svc \<Rightarrow> bool \<times> i32 \<times> string" where
  "policy v = (shutting_down v, max_inflight_requests v, api_key v)"

lemma admitted_same:
  "in_flight_requests v' = in_flight_requests v \<Longrightarrow> policy v' = policy v \<Longrightarrow> admitted req v' = admitted req v"
  by (simp add: admitted_def over_limit_def authorized_def policy_def)

text \<open>An error response that leaves the chain has a body.\<close>

lemma error_after_body: "400 \<le> rcode (ms_res s) \<Longrightarrow> body (ms_res (call_after_handlers J req s)) \<noteq> []"
  by (simp add: call_after_handlers_chain error_after_def error_body_def dump_def dump_indent_def wv_put_def
      wv_key_update_def)

text \<open>
  One request over the chain with the handler in between: whatever the handler does to the
  response and to the other counters, the gauge of requests in flight is back where it was.
\<close>

lemma chain_balanced:
  assumes "\<not> completed (ms_res s)" "admitted req (ms_svc s)" "\<not> counted_inflight (ms_ctx s)"
    "call_middlewares J req s = (s1, False)"
    "ms_ctx s2 = ms_ctx s1" "in_flight_requests (ms_svc s2) = in_flight_requests (ms_svc s1)"
  shows "in_flight_requests (ms_svc (call_after_handlers J req s2)) = in_flight_requests (ms_svc s)"
proof -
  obtain s' where "call_middlewares J req s = (s', False)" "ms_res s' = ms_res s"
    "ms_svc s' = (ms_svc s)\<lparr>in_flight_requests :=
       in_flight_requests (ms_svc s) + (if is_probe_path (url req) then 0 else 1)\<rparr>"
    "counted_inflight (ms_ctx s') = (if is_probe_path (url req) then counted_inflight (ms_ctx s) else True)"
    by (rule call_middlewares_pass [OF assms(1,2)])
  with assms(3-6) show ?thesis by (simp add: call_after_handlers_chain)
qed

text \<open>
  Running the after-handlers again on a context that an earlier request left behind takes the
  gauge down once more.
\<close>

lemma stale_context_decrements:
  "counted_inflight (ms_ctx s) \<Longrightarrow>
     in_flight_requests (ms_svc (call_after_handlers J req s)) = in_flight_requests (ms_svc s) - 1"
  by (simp add: call_after_handlers_chain)

end
