(* ===== verification/Concurrency.thy ===== *)
theory Concurrency
  imports Middleware
begin

text \<open>
  The parts of the service that several threads run at once, as step relations in which each
  atomic operation is one step: the request budget of \<open>LifecycleMiddleware::before_handle\<close>, the
  compare-and-exchange loop of \<open>metrics::observe_request_duration_ms\<close>, and the signal watcher of
  \<open>main\<close>. Relaxed atomics of one variable are linearizable, and each protocol here decides on one
  variable at a time.
\<close>

subsection \<open>Counting threads\<close>

definition count_if :: "('a \<Rightarrow> bool) \<Rightarrow> 'a list \<Rightarrow> nat" where
  "count_if P xs = length (filter P xs)"

lemma count_if_update:
  "i < length xs \<Longrightarrow>
    count_if P (xs[i := x]) + (if P (xs ! i) then 1 else 0) = count_if P xs + (if P x then 1 else 0)"
proof (induction xs arbitrary: i)
  case (Cons y ys)
  then show ?case by (cases i) (auto simp: count_if_def)
qed simp

lemma count_if_le: "count_if P xs \<le> length xs"
  by (simp add: count_if_def)

lemma count_if_mono: "(\<And>x. x \<in> set xs \<Longrightarrow> P x \<Longrightarrow> Q x) \<Longrightarrow> count_if P xs \<le> count_if Q xs"
  by (induction xs) (auto simp: count_if_def le_SucI)

lemma count_if_less: "i < length xs \<Longrightarrow> \<not> P (xs ! i) \<Longrightarrow> count_if P xs < length xs"
  by (metis count_if_def length_filter_less nth_mem)

subsection \<open>The request budget\<close>

text \<open>
  A thread outside the gate first reads \<open>shutting_down\<close>, then adds to the counter, then compares
  the value it got with the limit, and either goes in or takes its addition back.
\<close>

datatype phase = Outside | Checked | Added i32 | Inside i32

record gate =
  counter :: i32
  limit :: i32
  shut :: bool
  threads :: "phase list"

inductive gate_step :: "gate \<Rightarrow> gate \<Rightarrow> bool" where
  check: "i < length (threads g) \<Longrightarrow> threads g ! i = Outside \<Longrightarrow> \<not> shut g \<Longrightarrow>
     gate_step g (g\<lparr>threads := (threads g)[i := Checked]\<rparr>)"
| refuse: "i < length (threads g) \<Longrightarrow> threads g ! i = Outside \<Longrightarrow> shut g \<Longrightarrow> gate_step g g"
| add: "i < length (threads g) \<Longrightarrow> threads g ! i = Checked \<Longrightarrow>
     gate_step g (g\<lparr>counter := counter g + 1, threads := (threads g)[i := Added (counter g + 1)]\<rparr>)"
| admit: "i < length (threads g) \<Longrightarrow> threads g ! i = Added v \<Longrightarrow> \<not> limit g <s v \<Longrightarrow>
     gate_step g (g\<lparr>threads := (threads g)[i := Inside v]\<rparr>)"
| overload: "i < length (threads g) \<Longrightarrow> threads g ! i = Added v \<Longrightarrow> limit g <s v \<Longrightarrow>
     gate_step g (g\<lparr>counter := counter g - 1, threads := (threads g)[i := Outside]\<rparr>)"
| leave: "i < length (threads g) \<Longrightarrow> threads g ! i = Inside v \<Longrightarrow>
     gate_step g (g\<lparr>counter := counter g - 1, threads := (threads g)[i := Outside]\<rparr>)"
| shutdown: "gate_step g (g\<lparr>shut := True\<rparr>)"

inductive_cases gate_stepE: "gate_step g g'"

text \<open>The value a thread got from its addition while it is still in the counter.\<close>

definition held :: "phase \<Rightarrow> nat option" where
  "held p = (case p of Added v \<Rightarrow> Some (unat v) | Inside v \<Rightarrow> Some (unat v) | _ \<Rightarrow> None)"

definition holds :: "phase \<Rightarrow> bool" where
  "holds p \<longleftrightarrow> held p \<noteq> None"

definition holds_upto :: "nat \<Rightarrow> phase \<Rightarrow> bool" where
  "holds_upto k p \<longleftrightarrow> (case held p of Some v \<Rightarrow> v \<le> k | None \<Rightarrow> False)"

definition within :: "i32 \<Rightarrow> phase \<Rightarrow> bool" where
  "within l p \<longleftrightarrow> (case p of Inside v \<Rightarrow> \<not> l <s v | _ \<Rightarrow> True)"

definition bounded :: "nat \<Rightarrow> phase \<Rightarrow> bool" where
  "bounded n p \<longleftrightarrow> (case held p of Some v \<Rightarrow> v \<le> n | None \<Rightarrow> True)"

definition is_inside :: "phase \<Rightarrow> bool" where
  "is_inside p \<longleftrightarrow> (case p of Inside _ \<Rightarrow> True | _ \<Rightarrow> False)"

lemma phase_simps [simp]:
  "\<not> holds Outside" "\<not> holds Checked" "holds (Added v)" "holds (Inside v)"
  "\<not> holds_upto k Outside" "\<not> holds_upto k Checked"
  "holds_upto k (Added v) \<longleftrightarrow> unat v \<le> k" "holds_upto k (Inside v) \<longleftrightarrow> unat v \<le> k"
  "\<not> is_inside Outside" "\<not> is_inside Checked" "\<not> is_inside (Added v)" "is_inside (Inside v)"
  "within l Outside" "within l Checked" "within l (Added v)" "within l (Inside v) \<longleftrightarrow> \<not> l <s v"
  "bounded n Outside" "bounded n Checked" "bounded n (Added v) \<longleftrightarrow> unat v \<le> n" "bounded n (Inside v) \<longleftrightarrow> unat v \<le> n"
  by (simp_all add: holds_def held_def holds_upto_def is_inside_def within_def bounded_def)

text \<open>
  The counter is the number of threads that hold a value, at most \<open>k\<close> of them hold a value up to
  \<open>k\<close>, and a thread inside holds one within the limit.
\<close>

definition gate_inv :: "i32 \<Rightarrow> nat \<Rightarrow> gate \<Rightarrow> bool" where
  "gate_inv l n g \<longleftrightarrow>
     limit g = l \<and> length (threads g) = n \<and> counter g = of_nat (count_if holds (threads g)) \<and>
     (\<forall>k. count_if (holds_upto k) (threads g) \<le> k) \<and>
     list_all (within l) (threads g) \<and> list_all (bounded n) (threads g)"

lemma count_if_update_eq:
  assumes "i < length xs"
  shows "P (xs ! i) = P x \<Longrightarrow> count_if P (xs[i := x]) = count_if P xs"
    "\<not> P (xs ! i) \<Longrightarrow> P x \<Longrightarrow> count_if P (xs[i := x]) = count_if P xs + 1"
    "P (xs ! i) \<Longrightarrow> \<not> P x \<Longrightarrow> count_if P (xs[i := x]) + 1 = count_if P xs"
  using count_if_update [OF assms, of P x] by (auto split: if_splits)

lemma list_all_update: "list_all R xs \<Longrightarrow> R x \<Longrightarrow> list_all R (xs[i := x])"
  using set_update_subset_insert [of xs i x] by (auto simp: list_all_iff)

lemma unat_count: "m < 2 ^ 32 \<Longrightarrow> unat (of_nat m :: i32) = m"
  by (simp add: unat_of_nat)

lemma gate_inv_add:
  assumes inv: "gate_inv l n g" and n: "n < 2 ^ 31" and i: "i < length (threads g)" "threads g ! i = Checked"
  shows "gate_inv l n (g\<lparr>counter := counter g + 1, threads := (threads g)[i := Added (counter g + 1)]\<rparr>)"
proof -
  let ?h = "count_if holds (threads g)"
  let ?ts = "(threads g)[i := Added (counter g + 1)]"
  have "?h < length (threads g)" by (rule count_if_less [OF i(1)]) (simp add: i)
  with inv have hn: "?h + 1 \<le> n" by (simp add: gate_inv_def)
  with n have h: "?h + 1 < 2 ^ 32" by simp
  have c: "counter g + 1 = of_nat (?h + 1)" using inv by (simp add: gate_inv_def)
  have u: "unat (counter g + 1) = ?h + 1" unfolding c using h by (rule unat_count)
  have h': "count_if holds ?ts = ?h + 1" using i by (simp add: count_if_update_eq)
  have "count_if (holds_upto k) ?ts \<le> k" for k
  proof (cases "?h + 1 \<le> k")
    case True
    have "count_if (holds_upto k) ?ts \<le> count_if holds ?ts"
      by (rule count_if_mono) (auto simp: holds_upto_def holds_def split: option.splits)
    with h' True show ?thesis by simp
  next
    case False
    then have "count_if (holds_upto k) ?ts = count_if (holds_upto k) (threads g)"
      using i u by (intro count_if_update_eq(1)) auto
    with inv show ?thesis by (simp add: gate_inv_def)
  qed
  with inv h' c u hn show ?thesis by (simp add: gate_inv_def list_all_update)
qed

lemma gate_inv_drop:
  assumes inv: "gate_inv l n g" and i: "i < length (threads g)" "holds (threads g ! i)"
  shows "gate_inv l n (g\<lparr>counter := counter g - 1, threads := (threads g)[i := Outside]\<rparr>)"
proof -
  have "count_if holds ((threads g)[i := Outside]) + 1 = count_if holds (threads g)"
    using i by (intro count_if_update_eq(3)) auto
  moreover have "counter g = of_nat (count_if holds (threads g))" using inv by (simp add: gate_inv_def)
  ultimately have "counter g = of_nat (count_if holds ((threads g)[i := Outside]) + 1)" by simp
  then have c: "counter g - 1 = of_nat (count_if holds ((threads g)[i := Outside]))" by simp
  have "count_if (holds_upto k) ((threads g)[i := Outside]) \<le> count_if (holds_upto k) (threads g)" for k
    using count_if_update [OF i(1), of "holds_upto k" Outside] by (simp split: if_splits)
  moreover have "count_if (holds_upto k) (threads g) \<le> k" for k using inv by (simp add: gate_inv_def)
  ultimately have "count_if (holds_upto k) ((threads g)[i := Outside]) \<le> k" for k by (rule le_trans)
  with inv c show ?thesis by (simp add: gate_inv_def list_all_update)
qed

lemma gate_inv_step:
  assumes "n < 2 ^ 31" "gate_inv l n g" "gate_step g g'"
  shows "gate_inv l n g'"
  using assms(3)
proof cases
  case (check i)
  with assms(2) show ?thesis by (simp add: gate_inv_def count_if_update_eq list_all_update)
next
  case (add i)
  with gate_inv_add [OF assms(2,1)] show ?thesis by simp
next
  case (admit i v)
  then have "unat v \<le> n" using assms(2) by (auto simp: gate_inv_def list_all_length)
  with admit assms(2) show ?thesis by (simp add: gate_inv_def count_if_update_eq list_all_update)
next
  case (overload i v)
  with gate_inv_drop [OF assms(2)] show ?thesis by simp
next
  case (leave i v)
  with gate_inv_drop [OF assms(2)] show ?thesis by simp
qed (use assms(2) in \<open>simp_all add: gate_inv_def\<close>)

text \<open>\<open>n\<close> threads, fewer than the counter can count.\<close>

definition gate_sys_inv :: "gate \<Rightarrow> bool" where
  "gate_sys_inv g \<longleftrightarrow> length (threads g) < 2 ^ 31 \<and> gate_inv (limit g) (length (threads g)) g"

lemma gate_step_shape: "gate_step g g' \<Longrightarrow> limit g' = limit g \<and> length (threads g') = length (threads g)"
  by (erule gate_stepE) auto

interpretation gate: transition_invariant gate_step gate_sys_inv
proof
  fix g g' assume "gate_sys_inv g" "gate_step g g'"
  with gate_step_shape [of g g'] show "gate_sys_inv g'"
    by (auto simp: gate_sys_inv_def intro: gate_inv_step)
qed

definition gate_init :: "i32 \<Rightarrow> nat \<Rightarrow> gate" where
  "gate_init l n = \<lparr>counter = 0, limit = l, shut = False, threads = replicate n Outside\<rparr>"

lemma count_if_replicate: "\<not> P x \<Longrightarrow> count_if P (replicate n x) = 0"
  by (simp add: count_if_def)

lemma gate_init_inv: "n < 2 ^ 31 \<Longrightarrow> gate_sys_inv (gate_init l n)"
  by (simp add: gate_sys_inv_def gate_inv_def gate_init_def count_if_replicate list_all_iff)

lemma gate_reach_shape: "gate_step\<^sup>*\<^sup>* g g' \<Longrightarrow> limit g' = limit g \<and> length (threads g') = length (threads g)"
  by (induction rule: rtranclp_induct) (auto dest: gate_step_shape)

lemma inside_upto_limit:
  fixes l v :: i32
  assumes "\<not> l <s v" "0 \<le> sint l" "unat v < 2 ^ 31"
  shows "unat v \<le> nat (sint l)"
proof -
  have "int (unat v) < int (2 ^ 31)" using assms(3) by (simp only: of_nat_less_iff)
  then have "int (unat v) < 2 ^ 31" by (simp only: of_nat_power of_nat_numeral)
  then have "uint v < 2 ^ 31" by (simp only: uint_nat)
  moreover have "- (2 ^ 31) \<le> uint v" by (rule order_trans [of _ 0]) simp_all
  ultimately have "signed_take_bit 31 (uint v) = uint v" by (rule signed_take_bit_int_eq_self [rotated])
  then have "sint v = int (unat v)" by (simp add: sint_uint)
  with assms(1) have "int (unat v) \<le> sint l" by (simp only: word_sless_alt not_less)
  with assms(2) show ?thesis by (simp only: le_nat_iff)
qed

lemma gate_inside_bound:
  assumes "gate_sys_inv g" "0 \<le> sint (limit g)"
  shows "int (count_if is_inside (threads g)) \<le> sint (limit g)"
proof -
  let ?k = "nat (sint (limit g))"
  have "holds_upto ?k p" if "p \<in> set (threads g)" "is_inside p" for p
  proof -
    from that(2) obtain v where p: "p = Inside v" by (cases p) auto
    have "\<not> limit g <s v" "unat v < 2 ^ 31"
      using assms(1) that(1) p by (auto simp: gate_sys_inv_def gate_inv_def list_all_iff)
    with inside_upto_limit assms(2) p show ?thesis by simp
  qed
  then have "count_if is_inside (threads g) \<le> count_if (holds_upto ?k) (threads g)" by (rule count_if_mono)
  also have "\<dots> \<le> ?k" using assms(1) by (simp add: gate_sys_inv_def gate_inv_def)
  finally show ?thesis using assms(2) by simp
qed

text \<open>Once the flag is set and no thread is between its check and its decision, nobody goes in any more.\<close>

definition undecided :: "phase \<Rightarrow> bool" where
  "undecided p \<longleftrightarrow> (case p of Checked \<Rightarrow> True | Added _ \<Rightarrow> True | _ \<Rightarrow> False)"

definition draining :: "gate \<Rightarrow> bool" where
  "draining g \<longleftrightarrow> shut g \<and> list_all (\<lambda>p. \<not> undecided p) (threads g)"

lemma draining_step:
  assumes "draining g" "gate_step g g'"
  shows "draining g' \<and> count_if is_inside (threads g') \<le> count_if is_inside (threads g)"
  using assms(2)
proof cases
  case (leave i v)
  have "count_if is_inside ((threads g)[i := Outside]) \<le> count_if is_inside (threads g)"
    using count_if_update [OF leave(2), of is_inside Outside] by (simp split: if_splits)
  with assms(1) leave show ?thesis by (simp add: draining_def list_all_update undecided_def)
qed (use assms(1) in \<open>auto simp: draining_def list_all_length undecided_def\<close>)

interpretation draining: transition_invariant gate_step draining
  by unfold_locales (use draining_step in blast)

subsection \<open>The running maximum of the request durations\<close>

text \<open>
  \<open>observe_request_duration_ms\<close> between its load of the maximum and its return. The weak
  compare-and-exchange either writes, or fails (spuriously even when the values agree) and leaves
  the value it saw in \<open>current_max\<close>.
\<close>

datatype observer = ObsStart i64 | ObsLoop i64 i64 | ObsDone i64

record maximum =
  stored :: i64
  observers :: "observer list"

inductive max_step :: "maximum \<Rightarrow> maximum \<Rightarrow> bool" where
  load_max: "i < length (observers s) \<Longrightarrow> observers s ! i = ObsStart d \<Longrightarrow>
     max_step s (s\<lparr>observers := (observers s)[i := ObsLoop d (stored s)]\<rparr>)"
| finished: "i < length (observers s) \<Longrightarrow> observers s ! i = ObsLoop d c \<Longrightarrow> \<not> c <s d \<Longrightarrow>
     max_step s (s\<lparr>observers := (observers s)[i := ObsDone d]\<rparr>)"
| exchanged: "i < length (observers s) \<Longrightarrow> observers s ! i = ObsLoop d c \<Longrightarrow> c <s d \<Longrightarrow> stored s = c \<Longrightarrow>
     max_step s (s\<lparr>stored := d, observers := (observers s)[i := ObsDone d]\<rparr>)"
| exchange_failed: "i < length (observers s) \<Longrightarrow> observers s ! i = ObsLoop d c \<Longrightarrow> c <s d \<Longrightarrow>
     max_step s (s\<lparr>observers := (observers s)[i := ObsLoop d (stored s)]\<rparr>)"

inductive_cases max_stepE: "max_step s s'"

definition duration :: "observer \<Rightarrow> i64" where
  "duration p = (case p of ObsStart d \<Rightarrow> d | ObsLoop d _ \<Rightarrow> d | ObsDone d \<Rightarrow> d)"

definition observer_ok :: "int \<Rightarrow> observer \<Rightarrow> bool" where
  "observer_ok m p \<longleftrightarrow> (case p of ObsStart _ \<Rightarrow> True | ObsLoop _ c \<Rightarrow> sint c \<le> m | ObsDone d \<Rightarrow> sint d \<le> m)"

definition is_done :: "observer \<Rightarrow> bool" where
  "is_done p \<longleftrightarrow> (case p of ObsDone _ \<Rightarrow> True | _ \<Rightarrow> False)"

lemma observer_simps [simp]:
  "duration (ObsStart d) = d" "duration (ObsLoop d c) = d" "duration (ObsDone d) = d"
  "observer_ok m (ObsStart d)" "observer_ok m (ObsLoop d c) \<longleftrightarrow> sint c \<le> m" "observer_ok m (ObsDone d) \<longleftrightarrow> sint d \<le> m"
  "\<not> is_done (ObsStart d)" "\<not> is_done (ObsLoop d c)" "is_done (ObsDone d)"
  by (simp_all add: duration_def observer_ok_def is_done_def)

text \<open>The stored value is the initial one or a duration of the run, and it bounds what was seen and finished.\<close>

definition max_inv :: "i64 \<Rightarrow> i64 list \<Rightarrow> maximum \<Rightarrow> bool" where
  "max_inv m0 ds s \<longleftrightarrow>
     map duration (observers s) = ds \<and> sint m0 \<le> sint (stored s) \<and> stored s \<in> insert m0 (set ds) \<and>
     list_all (observer_ok (sint (stored s))) (observers s)"

lemma observer_ok_mono: "m \<le> m' \<Longrightarrow> list_all (observer_ok m) ps \<Longrightarrow> list_all (observer_ok m') ps"
  by (rule list.pred_mono_strong [of "observer_ok m"]) (auto simp: observer_ok_def split: observer.splits)

lemma map_update_same: "i < length xs \<Longrightarrow> f x = f (xs ! i) \<Longrightarrow> map f (xs[i := x]) = map f xs"
  by (simp add: map_update list_update_same_conv)

lemma max_inv_step:
  assumes "max_inv m0 ds s" "max_step s s'"
  shows "max_inv m0 ds s'"
  using assms(2)
proof cases
  case (load_max i d)
  with assms(1) show ?thesis by (simp add: max_inv_def map_update_same list_all_update)
next
  case (finished i d c)
  then have "sint c \<le> sint (stored s)" using assms(1) by (auto simp: max_inv_def list_all_length)
  with finished assms(1) show ?thesis by (simp add: max_inv_def map_update_same list_all_update word_sless_alt)
next
  case (exchanged i d c)
  then have le: "sint (stored s) \<le> sint d" by (simp add: word_sless_alt)
  have "observers s ! i \<in> set (observers s)" using exchanged(2) by (rule nth_mem)
  then have "duration (observers s ! i) \<in> set (map duration (observers s))" by simp
  then have "d \<in> set ds" using exchanged(3) assms(1) by (auto simp: max_inv_def)
  moreover have "list_all (observer_ok (sint d)) (observers s)"
    using assms(1) by (intro observer_ok_mono [OF le]) (simp add: max_inv_def)
  ultimately show ?thesis using exchanged(1-3) le assms(1)
    by (simp add: max_inv_def map_update_same list_all_update)
next
  case (exchange_failed i d c)
  with assms(1) show ?thesis by (simp add: max_inv_def map_update_same list_all_update)
qed

interpretation maximum: transition_invariant max_step "max_inv m0 ds" for m0 ds
  by unfold_locales (rule max_inv_step)

definition max_init :: "i64 \<Rightarrow> i64 list \<Rightarrow> maximum" where
  "max_init m0 ds = \<lparr>stored = m0, observers = map ObsStart ds\<rparr>"

lemma max_init_inv: "max_inv m0 ds (max_init m0 ds)"
  by (simp add: max_inv_def max_init_def list_all_length o_def)

lemma max_inv_done:
  assumes "max_inv m0 ds s" "list_all is_done (observers s)"
  shows "sint (stored s) = Max (insert (sint m0) (sint ` set ds))"
proof (rule Max_eqI [symmetric])
  fix y assume "y \<in> insert (sint m0) (sint ` set ds)"
  moreover have "sint (duration p) \<le> sint (stored s)" if "p \<in> set (observers s)" for p
    using assms that by (cases p) (auto simp: max_inv_def list_all_iff)
  ultimately show "y \<le> sint (stored s)" using assms(1) by (auto simp: max_inv_def)
qed (use assms(1) in \<open>auto simp: max_inv_def\<close>)

subsection \<open>The signal watcher\<close>

text \<open>
  The watcher thread of \<open>main\<close> with the signal handler, the main thread, and the three flags they share.
  \<open>Polling\<close> stands for the top of the loop of the watcher, \<open>Draining\<close> for the sleep after \<open>exchange\<close> returned
  false, \<open>Gone\<close> for the finished thread. The main thread starts the watcher while it is \<open>Registering\<close> the
  routes, so that the server object does not exist; it is \<open>Building\<close> between the creation of the server
  and that of its last worker, and \<open>Accepting\<close> from then on. \<open>app.stop\<close> does nothing without a server object, and
  the loop in \<open>Server::stop\<close> cannot stop a worker that is created after it, for which \<open>run\<close> then waits.
\<close>

datatype main_thread = Registering | Building | Accepting

datatype watcher = Polling | Draining | Gone

record control =
  received :: bool
  down :: bool
  stop_watcher :: bool
  app_stopped :: bool
  run_returned :: bool
  joined :: bool
  watcher_at :: watcher
  main_at :: main_thread

inductive control_step :: "control \<Rightarrow> control \<Rightarrow> bool" where
  signal: "control_step c (c\<lparr>received := True\<rparr>)"
| poll: "watcher_at c = Polling \<Longrightarrow> \<not> stop_watcher c \<Longrightarrow> \<not> received c \<Longrightarrow> control_step c c"
| enter_drain: "watcher_at c = Polling \<Longrightarrow> \<not> stop_watcher c \<Longrightarrow> received c \<Longrightarrow> \<not> down c \<Longrightarrow>
     control_step c (c\<lparr>down := True, watcher_at := Draining\<rparr>)"
| already_down: "watcher_at c = Polling \<Longrightarrow> \<not> stop_watcher c \<Longrightarrow> received c \<Longrightarrow> down c \<Longrightarrow>
     control_step c (c\<lparr>watcher_at := Gone\<rparr>)"
| told_to_stop: "watcher_at c = Polling \<Longrightarrow> stop_watcher c \<Longrightarrow> control_step c (c\<lparr>watcher_at := Gone\<rparr>)"
| create_server: "main_at c = Registering \<Longrightarrow> control_step c (c\<lparr>main_at := Building\<rparr>)"
| build_workers: "main_at c = Building \<Longrightarrow> control_step c (c\<lparr>main_at := Accepting\<rparr>)"
| drained: "watcher_at c = Draining \<Longrightarrow> control_step c (c\<lparr>app_stopped := (main_at c = Accepting), watcher_at := Gone\<rparr>)"
| returned: "app_stopped c \<Longrightarrow> \<not> run_returned c \<Longrightarrow> control_step c (c\<lparr>run_returned := True, stop_watcher := True\<rparr>)"
| join: "run_returned c \<Longrightarrow> watcher_at c = Gone \<Longrightarrow> control_step c (c\<lparr>joined := True\<rparr>)"

inductive_cases control_stepE: "control_step c c'"

definition initial_control :: control where
  "initial_control = \<lparr>received = False, down = False, stop_watcher = False, app_stopped = False,
     run_returned = False, joined = False, watcher_at = Polling, main_at = Registering\<rparr>"

text \<open>
  The server stops only after the drain, the drain starts only after a signal, and the process
  leaves only after the watcher; a signal is never lost while the watcher polls.
\<close>

definition control_inv :: "control \<Rightarrow> bool" where
  "control_inv c \<longleftrightarrow>
     (joined c \<longrightarrow> run_returned c) \<and> (run_returned c \<longrightarrow> app_stopped c) \<and> (app_stopped c \<longrightarrow> watcher_at c = Gone) \<and>
     (stop_watcher c \<longrightarrow> run_returned c) \<and> (down c \<longrightarrow> received c) \<and>
     (watcher_at c = Polling \<longleftrightarrow> \<not> down c) \<and> (app_stopped c \<longrightarrow> main_at c = Accepting)"

text \<open>The stop has reached the server or will reach it: the workers were there before the drain was over.\<close>

definition stop_effective :: "control \<Rightarrow> bool" where
  "stop_effective c \<longleftrightarrow> main_at c = Accepting \<and> (watcher_at c = Gone \<longrightarrow> app_stopped c)"

text \<open>The watcher is gone and has stopped nothing.\<close>

definition stop_lost :: "control \<Rightarrow> bool" where
  "stop_lost c \<longleftrightarrow> watcher_at c = Gone \<and> \<not> app_stopped c \<and> \<not> run_returned c \<and> \<not> joined c"

lemma stop_lost_step: "stop_lost c \<Longrightarrow> control_step c c' \<Longrightarrow> stop_lost c'"
  by (auto simp: stop_lost_def elim!: control_stepE)

interpretation lost: transition_invariant control_step stop_lost
  by unfold_locales (rule stop_lost_step)

interpretation control: transition_invariant control_step control_inv
proof
  fix c c' assume inv: "control_inv c" and step: "control_step c c'"
  from step inv show "control_inv c'"
    by cases (simp_all add: control_inv_def, fastforce+)
qed

text \<open>The steps of the watcher, the signal handler and the main thread that make progress.\<close>

definition progress :: "control \<Rightarrow> control" where
  "progress c =
     (if watcher_at c = Polling then c\<lparr>down := True, watcher_at := Draining\<rparr>
      else if watcher_at c = Draining then c\<lparr>app_stopped := True, watcher_at := Gone\<rparr>
      else if \<not> run_returned c then c\<lparr>run_returned := True, stop_watcher := True\<rparr>
      else c\<lparr>joined := True\<rparr>)"

lemma progress_step:
  assumes "control_inv c" "received c" "stop_effective c"
  shows "control_step c (progress c) \<and> stop_effective (progress c)"
proof (cases "watcher_at c")
  case Draining
  then show ?thesis using assms(3) drained [OF Draining] by (simp add: progress_def stop_effective_def)
qed (use assms in \<open>auto simp: progress_def control_inv_def stop_effective_def intro: enter_drain returned join\<close>)

text \<open>How far a state is from the exit; no step after the signal moves away from it.\<close>

definition distance :: "control \<Rightarrow> nat" where
  "distance c =
     (case watcher_at c of Polling \<Rightarrow> 4 | Draining \<Rightarrow> 3 | Gone \<Rightarrow>
        if \<not> run_returned c then 2 else if \<not> joined c then 1 else 0)"

lemma control_step_distance:
  assumes "control_inv c" "received c" "control_step c c'"
  shows "received c' \<and> distance c' \<le> distance c"
  using assms(3,1,2)
  by cases (auto simp: control_inv_def distance_def split: watcher.splits)

end
