(* ===== verification/Routing.thy ===== *)
theory Routing
  imports Http
begin

text \<open>
  The router of \<open>crow/routing.h\<close>: the search tree (\<open>Trie\<close>) with its construction (\<open>add\<close>), its
  path compression (\<open>optimizeNode\<close>) and its search (\<open>find\<close>), the rules and the tables per method
  (\<open>Router::internal_add_rule_object\<close>, \<open>validate\<close>), the first routing step of a request
  (\<open>handle_initial\<close>) and the call of the handler (\<open>handle\<close>). The lemmas refine the tree to a plain
  list of patterns: the search returns the smallest rule index among the patterns that match.
\<close>


subsection \<open>\<open>strtod\<close>\<close>

text \<open>
  The forms of a floating-point text that the library function accepts. \<open>ERANGE\<close> is an overflow, or
  a subnormal or zero result that is not exact.
\<close>

definition is_prefix_ci :: "string \<Rightarrow> string \<Rightarrow> bool" where
  "is_prefix_ci p s \<longleftrightarrow> map c_tolower (take (length p) s) = p"

definition hex_val :: "char \<Rightarrow> nat" where
  "hex_val c = (if is_digit c then digit_val c else code (c_tolower c) - 87)"

definition hex_digits_val :: "string \<Rightarrow> nat" where
  "hex_digits_val ds = foldl (\<lambda>n c. 16 * n + hex_val c) 0 ds"

definition dbl_inexact_tiny :: "double \<Rightarrow> nat \<Rightarrow> nat \<Rightarrow> bool" where
  "dbl_inexact_tiny x n d = (case x of
     Fin s m e \<Rightarrow> n \<noteq> 0 \<and> m < 2 ^ 52 \<and>
       (if 0 \<le> e then m * 2 ^ nat e * d \<noteq> n else m * d \<noteq> n * 2 ^ nat (- e))
   | _ \<Rightarrow> False)"

definition ratio_strtod :: "bool \<Rightarrow> nat \<Rightarrow> nat \<Rightarrow> double \<times> bool" where
  "ratio_strtod neg n d = (let x = round_double neg n d in (x, dbl_isinf x \<or> dbl_inexact_tiny x n d))"

definition scan_hex :: "string \<Rightarrow> (string \<times> int \<times> string) option" where
  "scan_hex s =
     (let ip = takeWhile is_hex s; s2 = dropWhile is_hex s;
          (fp, s3) = (if cur s2 = CHR ''.'' then (takeWhile is_hex (tl s2), dropWhile is_hex (tl s2)) else ([], s2));
          (neg, s4) = scan_sign (tl s3); (ds, s5) = scan_digits s4
      in if ip @ fp = [] then None
         else if c_tolower (cur s3) = CHR ''p'' \<and> ds \<noteq> []
         then Some (ip @ fp, (if neg then - int (digits_val ds) else int (digits_val ds)) - 4 * int (length fp), s5)
         else Some (ip @ fp, - 4 * int (length fp), s3))"

definition nan_payload :: "string \<Rightarrow> nat" where
  "nan_payload s =
     (let n = length (takeWhile (\<lambda>c. is_digit c \<or> c = CHR ''_'' \<or> CHR ''a'' \<le> c_tolower c \<and> c_tolower c \<le> CHR ''z'') (tl s))
      in if cur s = CHR ''('' \<and> at s (Suc n) = CHR '')'' then n + 2 else 0)"

definition strtod :: "string \<Rightarrow> double \<times> nat \<times> bool" where
  "strtod s0 =
     (let s = dropWhile c_isspace s0; (neg, s1) = scan_sign s;
          used = \<lambda>rest. length s0 - length rest
      in if is_prefix_ci ''infinity'' s1 then (Inf neg, used (drop 8 s1), False)
         else if is_prefix_ci ''inf'' s1 then (Inf neg, used (drop 3 s1), False)
         else if is_prefix_ci ''nan'' s1 then (NaN, used (drop (3 + nan_payload (drop 3 s1)) s1), False)
         else case (if is_prefix_ci ''0x'' s1 then scan_hex (drop 2 s1) else None) of
           Some (ds, x, rest) \<Rightarrow>
             (case (if 0 \<le> x then ratio_strtod neg (hex_digits_val ds * 2 ^ nat x) 1
                    else ratio_strtod neg (hex_digits_val ds) (2 ^ nat (- x))) of
                (v, erange) \<Rightarrow> (v, used rest, erange))
         | None \<Rightarrow>
             (case scan_decimal s of
                None \<Rightarrow> (Fin False 0 0, 0, False)
              | Some (_, ds, x, rest) \<Rightarrow>
                  (case (if 0 \<le> x then ratio_strtod neg (digits_val ds * 10 ^ nat x) 1
                         else ratio_strtod neg (digits_val ds) (10 ^ nat (- x))) of
                     (v, erange) \<Rightarrow> (v, used rest, erange))))"

subsection \<open>Parameters of a route\<close>

datatype ParamType = P_INT | P_UINT | P_DOUBLE | P_STRING | P_PATH | P_MAX

record routing_params =
  int_params :: "i64 list"
  uint_params :: "u64 list"
  double_params :: "double list"
  string_params :: "string list"

definition no_params :: routing_params where
  "no_params = \<lparr>int_params = [], uint_params = [], double_params = [], string_params = []\<rparr>"

record routing_handle_result =
  rule_index :: u16
  blueprint_indices :: "u16 list"
  r_params :: routing_params

subsection \<open>The search tree\<close>

definition INVALID_BP_ID :: u16 where "INVALID_BP_ID = - 1"

text \<open>\<open>Trie::Node\<close>: rule index, blueprint index, key, parameter type and children.\<close>

datatype node = Node (n_rule: u16) (n_bp: u16) (n_key: string) (n_param: ParamType) (n_children: "node list")

definition new_node :: node where
  "new_node = Node 0 INVALID_BP_ID [] P_MAX []"

definition IsSimpleNode :: "node \<Rightarrow> bool" where
  "IsSimpleNode n \<longleftrightarrow> n_rule n = 0 \<and> n_bp n = INVALID_BP_ID \<and> length (n_children n) < 2 \<and> n_param n = P_MAX \<and>
     list_all (\<lambda>x. n_param x = P_MAX) (n_children n)"

definition trie_is_empty :: "node \<Rightarrow> bool" where
  "trie_is_empty head \<longleftrightarrow> n_children head = []"

text \<open>The node takes over its only child, then is looked at again.\<close>

function optimizeNode :: "node \<Rightarrow> node" where
  "optimizeNode (Node r b k p cs) =
     (if cs = [] then Node r b k p cs
      else if IsSimpleNode (Node r b k p cs)
      then optimizeNode (Node (n_rule (hd cs)) (n_bp (hd cs)) (k @ n_key (hd cs)) p (n_children (hd cs)))
      else Node r b k p (map optimizeNode cs))"
  by pat_completeness auto

fun node_count :: "node \<Rightarrow> nat" where
  "node_count (Node r b k p cs) = Suc (sum_list (map node_count cs))"

lemma node_count_member: "c \<in> set cs \<Longrightarrow> node_count c \<le> sum_list (map node_count cs)"
  by (simp add: member_le_sum_list)

termination optimizeNode
proof (relation "measure node_count", simp, goal_cases)
  case (1 r b k p cs)
  then obtain c cs' where "cs = c # cs'" by (cases cs) auto
  moreover obtain r' b' k' p' ds where "c = Node r' b' k' p' ds" by (cases c)
  ultimately show ?case by simp
next
  case (2 r b k p cs c)
  then show ?case using node_count_member [of c cs] by simp
qed

declare optimizeNode.simps [simp del]

definition optimize :: "node \<Rightarrow> node" where
  "optimize head = (case head of Node r b k p cs \<Rightarrow> Node r b k p (map optimizeNode cs))"

definition trie_validate :: "node \<Rightarrow> node result" where
  "trie_validate head = (if \<not> IsSimpleNode head
     then Inl (RuntimeError ''Internal error: Trie header should be simple!'') else Inr (optimize head))"

subsubsection \<open>Search\<close>

text \<open>
  What a parameter child takes from position \<open>pos\<close>: the end of the text it consumes and the
  parameters with the value appended. \<open>strtoll\<close> and its kin read the NUL-terminated data.
\<close>

definition param_read :: "ParamType \<Rightarrow> string \<Rightarrow> nat \<Rightarrow> routing_params \<Rightarrow> (nat \<times> routing_params) option" where
  "param_read p req_url pos ps =
     (let c = at req_url pos; s = c_str (drop pos req_url) in case p of
        P_INT \<Rightarrow>
          if is_digit c \<or> c = CHR ''+'' \<or> c = CHR ''-''
          then (case strto_int int64_min int64_max s of (v, n, erange) \<Rightarrow>
                  if \<not> erange \<and> n \<noteq> 0
                  then Some (pos + n, ps\<lparr>int_params := int_params ps @ [word_of_int v]\<rparr>) else None)
          else None
      | P_UINT \<Rightarrow>
          if is_digit c \<or> c = CHR ''+''
          then (case strto_int 0 uint64_max s of (v, n, erange) \<Rightarrow>
                  if \<not> erange \<and> n \<noteq> 0
                  then Some (pos + n, ps\<lparr>uint_params := uint_params ps @ [word_of_int v]\<rparr>) else None)
          else None
      | P_DOUBLE \<Rightarrow>
          if is_digit c \<or> c = CHR ''+'' \<or> c = CHR ''-'' \<or> c = CHR ''.''
          then (case strtod s of (v, n, erange) \<Rightarrow>
                  if \<not> erange \<and> n \<noteq> 0
                  then Some (pos + n, ps\<lparr>double_params := double_params ps @ [v]\<rparr>) else None)
          else None
      | P_STRING \<Rightarrow>
          (let epos = pos + length (takeWhile (\<lambda>x. x \<noteq> CHR ''/'') (drop pos req_url))
           in if epos \<noteq> pos
              then Some (epos, ps\<lparr>string_params := string_params ps @ [take (epos - pos) (drop pos req_url)]\<rparr>) else None)
      | P_PATH \<Rightarrow>
          (let epos = length req_url
           in if epos \<noteq> pos
              then Some (epos, ps\<lparr>string_params := string_params ps @ [take (epos - pos) (drop pos req_url)]\<rparr>) else None)
      | P_MAX \<Rightarrow> None)"

text \<open>The step a child allows: through a parameter or through its key.\<close>

definition child_step :: "node \<Rightarrow> string \<Rightarrow> nat \<Rightarrow> routing_params \<Rightarrow> (nat \<times> routing_params) option" where
  "child_step child req_url pos ps =
     (if n_param child \<noteq> P_MAX then param_read (n_param child) req_url pos ps
      else if take (length (n_key child)) (drop pos req_url) = n_key child
      then Some (pos + length (n_key child), ps) else None)"

text \<open>The lambda \<open>update_found\<close> on \<open>found\<close>, \<open>found_BP\<close> and \<open>match_params\<close>.\<close>

definition update_found :: "routing_handle_result \<Rightarrow> routing_handle_result \<Rightarrow> routing_handle_result" where
  "update_found acc ret =
     (let acc1 = acc\<lparr>blueprint_indices := blueprint_indices ret\<rparr>
      in if rule_index ret \<noteq> 0 \<and> (rule_index acc = 0 \<or> rule_index ret < rule_index acc)
         then acc1\<lparr>rule_index := rule_index ret, r_params := r_params ret\<rparr> else acc1)"

text \<open>
  \<open>find\<close> with the vector \<open>blueprints\<close> that it shares with its callers as second result. A vector
  that was moved from is empty. The parameters are pushed and popped around each recursive call.
\<close>

fun find_node :: "string \<Rightarrow> node \<Rightarrow> nat \<Rightarrow> routing_params \<Rightarrow> u16 list \<Rightarrow> routing_handle_result \<times> u16 list"
  and find_children :: "string \<Rightarrow> node list \<Rightarrow> nat \<Rightarrow> routing_params \<Rightarrow> u16 list \<Rightarrow> routing_handle_result \<Rightarrow> bool
     \<Rightarrow> routing_handle_result \<times> u16 list" where
  "find_node req_url (Node r b k p cs) pos ps bps =
     (if pos = length req_url then (\<lparr>rule_index = r, blueprint_indices = [], r_params = ps\<rparr>, [])
      else find_children req_url cs pos ps bps
             \<lparr>rule_index = 0, blueprint_indices = [], r_params = no_params\<rparr> False)"
| "find_children req_url [] pos ps bps acc found_fragment =
     (if \<not> found_fragment then (acc\<lparr>blueprint_indices := bps\<rparr>, []) else (acc, bps))"
| "find_children req_url (child # cs) pos ps bps acc found_fragment =
     (case child_step child req_url pos ps of
        None \<Rightarrow> find_children req_url cs pos ps bps acc found_fragment
      | Some (epos, ps') \<Rightarrow>
          (let bps1 = (if n_bp child \<noteq> INVALID_BP_ID then bps @ [n_bp child] else bps)
           in case find_node req_url child epos ps' bps1 of (ret, bps2) \<Rightarrow>
                find_children req_url cs pos ps (butlast bps2) (update_found acc ret) True))"

definition trie_find :: "node \<Rightarrow> string \<Rightarrow> routing_handle_result" where
  "trie_find head req_url = fst (find_node req_url head 0 no_params [])"

subsubsection \<open>Construction\<close>

definition paramTraits :: "(ParamType \<times> string) list" where
  "paramTraits = [(P_INT, ''<int>''), (P_UINT, ''<uint>''), (P_DOUBLE, ''<float>''), (P_DOUBLE, ''<double>''),
     (P_STRING, ''<str>''), (P_STRING, ''<string>''), (P_PATH, ''<path>'')]"

definition match_trait :: "string \<Rightarrow> (ParamType \<times> nat) option" where
  "match_trait s = map_option (\<lambda>(t, name). (t, length name))
     (find (\<lambda>(t, name). take (length name) s = name) paramTraits)"

lemma match_trait_length: "match_trait s = Some (t, n) \<Longrightarrow> 0 < n \<and> n \<le> length s \<and> t \<noteq> P_MAX"
  by (auto simp: match_trait_def paramTraits_def find.simps split: if_splits dest!: arg_cong [of "take _ s" _ length])

text \<open>
  The child that \<open>idx\<close> moves to: the first one that satisfies a test, or a new one at the end.
\<close>

definition select_child :: "(node \<Rightarrow> bool) \<Rightarrow> node \<Rightarrow> node list \<Rightarrow> nat \<times> node" where
  "select_child P fresh cs =
     (let j = length (takeWhile (\<lambda>c. \<not> P c) cs) in (j, if j < length cs then cs ! j else fresh))"

definition put_child :: "nat \<Rightarrow> node \<Rightarrow> node list \<Rightarrow> node list" where
  "put_child j child cs = (if j < length cs then cs[j := child] else cs @ [child])"

definition within_node :: "node \<Rightarrow> nat \<Rightarrow> node result option \<Rightarrow> node result option" where
  "within_node n j sub = (case n of Node r b k p cs \<Rightarrow>
     map_option (\<lambda>res. bind_result res (\<lambda>child. Inr (Node r b k p (put_child j child cs)))) sub)"

text \<open>
  \<open>add\<close> below the node that \<open>idx\<close> points to, at position \<open>i\<close> of the rule, whose rest is the first
  argument. A \<open><\<close> that starts no parameter name repeats the same iteration for ever, which is the
  value \<open>None\<close>.
\<close>

function add_at :: "string \<Rightarrow> nat \<Rightarrow> string \<Rightarrow> u16 \<Rightarrow> nat \<Rightarrow> u16 \<Rightarrow> node \<Rightarrow> node result option" where
  "add_at [] i rule idx bp_len bp n =
     Some (if n_rule n \<noteq> 0 then Inl (RuntimeError (''handler already exists for '' @ rule))
           else Inr (case n of Node r b k p cs \<Rightarrow> Node idx b k p cs))"
| "add_at (c # rest) i rule idx bp_len bp n =
     (if c = CHR ''<''
      then (case match_trait (c # rest) of
              None \<Rightarrow> None
            | Some (t, len) \<Rightarrow>
                (case select_child (\<lambda>x. n_param x = t) (Node 0 INVALID_BP_ID [] t []) (n_children n) of (j, child) \<Rightarrow>
                   within_node n j (add_at (drop len (c # rest)) (i + len) rule idx bp_len bp child)))
      else (case select_child (\<lambda>x. cur (n_key x) = c)
                   (Node 0 (if bp_len \<noteq> 0 \<and> bp \<noteq> INVALID_BP_ID \<and> i = bp_len then bp else INVALID_BP_ID) [c] P_MAX [])
                   (n_children n) of (j, child) \<Rightarrow>
              within_node n j (add_at rest (i + 1) rule idx bp_len bp child)))"
  by pat_completeness auto
termination
  by (relation "measure (\<lambda>(rest, _). length rest)") (auto dest!: match_trait_length)

declare add_at.simps [simp del]

definition trie_add :: "string \<Rightarrow> u16 \<Rightarrow> nat \<Rightarrow> u16 \<Rightarrow> node \<Rightarrow> node result option" where
  "trie_add rule idx bp_len bp head = add_at rule 0 rule idx bp_len bp head"

subsection \<open>Patterns\<close>

text \<open>
  A rule as a list of tokens, what it means for a token list to match a url from a position on,
  and the rules that a tree holds.
\<close>

datatype tok = Lit char | Par ParamType

function rule_tokens :: "string \<Rightarrow> tok list option" where
  "rule_tokens [] = Some []"
| "rule_tokens (c # rest) =
     (if c = CHR ''<''
      then (case match_trait (c # rest) of
              None \<Rightarrow> None
            | Some (t, len) \<Rightarrow> map_option (Cons (Par t)) (rule_tokens (drop len (c # rest))))
      else map_option (Cons (Lit c)) (rule_tokens rest))"
  by pat_completeness auto
termination
  by (relation "measure length") (auto dest!: match_trait_length)

fun rule_match :: "tok list \<Rightarrow> string \<Rightarrow> nat \<Rightarrow> routing_params \<Rightarrow> routing_params option" where
  "rule_match [] u pos ps = (if pos = length u then Some ps else None)"
| "rule_match (Lit c # ts) u pos ps = (if pos < length u \<and> u ! pos = c then rule_match ts u (Suc pos) ps else None)"
| "rule_match (Par t # ts) u pos ps =
     (if pos < length u
      then (case param_read t u pos ps of None \<Rightarrow> None | Some (epos, ps') \<Rightarrow> rule_match ts u epos ps') else None)"

definition toks_of :: "node \<Rightarrow> tok list" where
  "toks_of n = (if n_param n \<noteq> P_MAX then [Par (n_param n)] else map Lit (n_key n))"

fun paths :: "node \<Rightarrow> (tok list \<times> u16) list" where
  "paths (Node r b k p cs) = (if r \<noteq> 0 then [([], r)] else []) @
     concat (map (\<lambda>c. map (\<lambda>(ts, r'). (toks_of c @ ts, r')) (paths c)) cs)"

definition own_paths :: "node \<Rightarrow> (tok list \<times> u16) list" where
  "own_paths n = map (\<lambda>(ts, r). (toks_of n @ ts, r)) (paths n)"

lemma paths_children: "paths (Node r b k p cs) = (if r \<noteq> 0 then [([], r)] else []) @ concat (map own_paths cs)"
  by (simp add: own_paths_def [abs_def])

declare paths.simps [simp del]

text \<open>No step of the tree is empty.\<close>

fun keyed :: "node \<Rightarrow> bool" where
  "keyed (Node r b k p cs) \<longleftrightarrow> list_all (\<lambda>c. toks_of c \<noteq> [] \<and> keyed c) cs"

text \<open>The first hit with the smallest rule index.\<close>

definition hits :: "(tok list \<times> u16) list \<Rightarrow> string \<Rightarrow> nat \<Rightarrow> routing_params \<Rightarrow> (u16 \<times> routing_params) list" where
  "hits rs u pos ps = concat (map (\<lambda>(ts, r). case rule_match ts u pos ps of None \<Rightarrow> [] | Some ps' \<Rightarrow> [(r, ps')]) rs)"

fun better :: "(u16 \<times> routing_params) option \<Rightarrow> (u16 \<times> routing_params) option \<Rightarrow> (u16 \<times> routing_params) option" where
  "better None h = h"
| "better (Some a) None = Some a"
| "better (Some a) (Some h) = (if fst h < fst a then Some h else Some a)"

definition best :: "(u16 \<times> routing_params) list \<Rightarrow> (u16 \<times> routing_params) option" where
  "best hs = foldr (\<lambda>h acc. better (Some h) acc) hs None"

definition found_of :: "routing_handle_result \<Rightarrow> (u16 \<times> routing_params) option" where
  "found_of ret = (if rule_index ret = 0 then None else Some (rule_index ret, r_params ret))"

subsection \<open>The search returns the best match\<close>

lemma better_assoc: "better (better a b) c = better a (better b c)"
  by (cases a; cases b; cases c; (auto split: if_splits)?; order?)

lemma better_None [simp]: "better a None = a"
  by (cases a) simp_all

lemma best_append: "best (xs @ ys) = better (best xs) (best ys)"
  by (induction xs) (simp_all add: best_def better_assoc)

lemma best_simps [simp]: "best [] = None" "best [h] = Some h"
  by (simp_all add: best_def)

lemma hits_simps [simp]: "hits [] u pos ps = []" "hits (xs @ ys) u pos ps = hits xs u pos ps @ hits ys u pos ps"
  by (simp_all add: hits_def)

lemma hits_leaf [simp]: "hits [([], r)] u pos ps = (if pos = length u then [(r, ps)] else [])"
  by (simp add: hits_def)

lemma hits_concat: "hits (concat xss) u pos ps = concat (map (\<lambda>xs. hits xs u pos ps) xss)"
  by (induction xss) simp_all

lemma found_of_update: "found_of (update_found acc ret) = better (found_of acc) (found_of ret)"
  by (simp add: found_of_def update_found_def Let_def)

lemma rule_match_lits:
  "pos \<le> length u \<Longrightarrow> rule_match (map Lit k @ ts) u pos ps =
     (if take (length k) (drop pos u) = k then rule_match ts u (pos + length k) ps else None)"
proof (induction k arbitrary: pos)
  case (Cons c k)
  show ?case
  proof (cases "pos < length u")
    case True
    then have "drop pos u = u ! pos # drop (Suc pos) u" by (rule Cons_nth_drop_Suc [symmetric])
    with True Cons.IH [of "Suc pos"] show ?thesis by auto
  qed (use Cons.prems in simp)
qed simp

lemma rule_match_toks:
  assumes "pos < length u"
  shows "rule_match (toks_of c @ ts) u pos ps =
    (case child_step c u pos ps of None \<Rightarrow> None | Some (epos, ps') \<Rightarrow> rule_match ts u epos ps')"
  using assms by (simp add: toks_of_def child_step_def rule_match_lits)

lemma hits_own:
  assumes "pos < length u"
  shows "hits (own_paths c) u pos ps =
    (case child_step c u pos ps of None \<Rightarrow> [] | Some (epos, ps') \<Rightarrow> hits (paths c) u epos ps')"
proof -
  have "hits (map (\<lambda>(ts, r). (toks_of c @ ts, r)) rs) u pos ps =
      (case child_step c u pos ps of None \<Rightarrow> [] | Some (epos, ps') \<Rightarrow> hits rs u epos ps')" for rs
    by (induction rs) (auto simp: hits_def rule_match_toks [OF assms] split: option.splits)
  then show ?thesis by (simp add: own_paths_def)
qed

lemma c_str_length: "length (c_str s) \<le> length s"
  by (simp add: c_str_def length_takeWhile_le)

lemma strto_int_used: "strto_int lo hi s = (v, n, e) \<Longrightarrow> n \<le> length s"
  by (auto simp: strto_int_def Let_def split: prod.splits if_splits)

lemma strtod_used: "strtod s = (v, n, e) \<Longrightarrow> n \<le> length s"
  by (auto simp: strtod_def Let_def split: prod.splits if_splits option.splits)

lemma param_read_bound:
  assumes "param_read p u pos ps = Some (epos, ps')" "pos \<le> length u"
  shows "epos \<le> length u"
proof -
  have "length (c_str (drop pos u)) \<le> length u - pos" using c_str_length [of "drop pos u"] by simp
  moreover have "length (takeWhile (\<lambda>x. x \<noteq> CHR ''/'') (drop pos u)) \<le> length u - pos"
    using length_takeWhile_le [of _ "drop pos u"] by simp
  ultimately show ?thesis using assms
    by (auto simp: param_read_def Let_def split: ParamType.splits prod.splits if_splits
        dest!: strto_int_used strtod_used)
qed

lemma child_step_bound:
  assumes "child_step c u pos ps = Some (epos, ps')" "pos \<le> length u"
  shows "epos \<le> length u"
proof (cases "n_param c = P_MAX")
  case True
  then have "take (length (n_key c)) (drop pos u) = n_key c" and "epos = pos + length (n_key c)"
    using assms(1) by (auto simp: child_step_def split: if_splits)
  moreover from this(1) have "length (n_key c) \<le> length u - pos" by (metis length_drop length_take min.cobounded1 min.commute)
  ultimately show ?thesis using assms(2) by simp
qed (use assms param_read_bound in \<open>auto simp: child_step_def\<close>)

lemma hits_own_end: "toks_of c \<noteq> [] \<Longrightarrow> hits (own_paths c) u (length u) ps = []"
proof -
  assume "toks_of c \<noteq> []"
  then obtain t ts where t: "toks_of c = t # ts" by (auto simp: neq_Nil_conv)
  have "rule_match (t # ts @ ts') u (length u) ps = None" for ts' by (cases t) simp_all
  with t show ?thesis by (simp add: hits_def own_paths_def o_def case_prod_unfold)
qed

lemma find_best:
  "pos \<le> length u \<Longrightarrow> keyed n \<Longrightarrow> found_of (fst (find_node u n pos ps bps)) = best (hits (paths n) u pos ps)"
  "pos < length u \<Longrightarrow> list_all keyed cs \<Longrightarrow> found_of (fst (find_children u cs pos ps bps acc ff)) =
     better (found_of acc) (best (hits (concat (map own_paths cs)) u pos ps))"
proof (induction u n pos ps bps and u cs pos ps bps acc ff rule: find_node_find_children.induct)
  case (1 u r b k p cs pos ps bps)
  show ?case
  proof (cases "pos = length u")
    case True
    have "hits (concat (map own_paths cs)) u (length u) ps = []"
      using 1(3) hits_own_end by (auto simp: hits_concat list_all_iff)
    with True show ?thesis by (simp add: paths_children found_of_def)
  next
    case False
    with 1 have "pos < length u" "list_all keyed cs" by (auto simp: list_all_iff)
    with False 1(1) have "found_of (fst (find_node u (Node r b k p cs) pos ps bps)) =
        best (hits (concat (map own_paths cs)) u pos ps)" by (simp add: found_of_def)
    also have "\<dots> = best (hits (paths (Node r b k p cs)) u pos ps)"
      using False by (simp add: paths_children)
    finally show ?thesis .
  qed
next
  case (3 u c cs pos ps bps acc ff)
  show ?case
  proof (cases "child_step c u pos ps")
    case None
    with 3 show ?thesis by (simp add: hits_own)
  next
    case (Some x)
    obtain epos ps' where x: "x = (epos, ps')" by (cases x)
    obtain ret bps' where r: "find_node u c epos ps' (if n_bp c \<noteq> INVALID_BP_ID then bps @ [n_bp c] else bps) = (ret, bps')"
      by fastforce
    have "epos \<le> length u" using Some x 3(4) child_step_bound [of c u pos ps] by simp
    with 3(2) [OF Some [unfolded x] refl refl] 3(5) r have "found_of ret = best (hits (paths c) u epos ps')" by simp
    moreover have "found_of (fst (find_children u cs pos ps (butlast bps') (update_found acc ret) True)) =
        better (found_of (update_found acc ret)) (best (hits (concat (map own_paths cs)) u pos ps))"
      using 3(3) [OF Some [unfolded x] refl refl r [symmetric]] 3(4,5) by simp
    ultimately show ?thesis
      using Some x r 3(4) by (simp add: Let_def hits_own best_append found_of_update better_assoc)
  qed
qed (simp_all add: found_of_def)

subsection \<open>Compression keeps the rules\<close>

lemma toks_of_Node [simp]: "toks_of (Node r b k p cs) = (if p \<noteq> P_MAX then [Par p] else map Lit k)"
  by (simp add: toks_of_def)

lemma own_paths_merge:
  assumes "n_param c = P_MAX"
  shows "own_paths (Node 0 b k P_MAX [c]) = own_paths (Node (n_rule c) (n_bp c) (k @ n_key c) P_MAX (n_children c))"
  using assms by (cases c) (simp add: own_paths_def paths_children case_prod_unfold o_def toks_of_def map_concat)

lemma simple_single:
  assumes "cs \<noteq> []" "IsSimpleNode (Node r b k p cs)"
  obtains c where "cs = [c]" "n_param c = P_MAX" "r = 0" "p = P_MAX"
  using assms by (cases cs) (auto simp: IsSimpleNode_def)

lemma optimizeNode_keeps:
  "own_paths (optimizeNode n) = own_paths n"
  "keyed n \<Longrightarrow> keyed (optimizeNode n)"
  "toks_of n \<noteq> [] \<Longrightarrow> toks_of (optimizeNode n) \<noteq> []"
proof (induction n rule: optimizeNode.induct)
  case (1 r b k p cs)
  let ?n = "Node r b k p cs"
  consider (leaf) "cs = []" | (simple) c where "cs = [c]" "n_param c = P_MAX" "r = 0" "p = P_MAX" "IsSimpleNode ?n"
    | (other) "cs \<noteq> []" "\<not> IsSimpleNode ?n"
    using simple_single by blast
  note cases = this
  {
    case 1
    from cases show ?case
    proof cases
      case simple
      with "1.IH"(1) own_paths_merge [of c b k] show ?thesis by (simp add: optimizeNode.simps [of 0])
    next
      case other
      then have "map own_paths (map optimizeNode cs) = map own_paths cs" using "1.IH"(4) by simp
      then have "paths (Node r b k p (map optimizeNode cs)) = paths ?n" by (simp only: paths_children)
      with other show ?thesis by (simp add: optimizeNode.simps own_paths_def)
    qed (simp add: optimizeNode.simps)
  next
    case 2
    from cases show ?case
    proof cases
      case simple
      with 2 have "keyed c" by simp
      then have "keyed (Node (n_rule c) (n_bp c) (k @ n_key c) p (n_children c))" by (cases c) simp
      with simple "1.IH"(2) show ?thesis by (simp add: optimizeNode.simps [of 0])
    next
      case other
      with 2 "1.IH"(5,6) show ?thesis by (auto simp: optimizeNode.simps [of r] list_all_iff)
    qed (simp add: optimizeNode.simps)
  next
    case 3
    from cases show ?case
    proof cases
      case simple
      with 3 "1.IH"(3) show ?thesis by (simp add: optimizeNode.simps [of 0])
    next
      case other
      with 3 show ?thesis by (simp add: optimizeNode.simps [of r])
    qed (use 3 in \<open>simp add: optimizeNode.simps\<close>)
  }
qed

lemma optimize_keeps:
  "paths (optimize head) = paths head" "keyed head \<Longrightarrow> keyed (optimize head)"
proof -
  obtain r b k p cs where h: "head = Node r b k p cs" by (cases head)
  have "own_paths \<circ> optimizeNode = own_paths" by (simp add: fun_eq_iff optimizeNode_keeps)
  with h show "paths (optimize head) = paths head" by (simp add: optimize_def paths_children)
  from h show "keyed head \<Longrightarrow> keyed (optimize head)"
    by (auto simp: optimize_def list_all_iff optimizeNode_keeps)
qed

subsection \<open>Construction adds one rule\<close>

text \<open>The uncompressed tree: one character or one parameter per step, no two children with the same step.\<close>

definition child_ok :: "node \<Rightarrow> bool" where
  "child_ok c \<longleftrightarrow> (if n_param c = P_MAX then length (n_key c) = 1 \<and> n_key c \<noteq> [NUL] else n_key c = [])"

fun trie_wf :: "node \<Rightarrow> bool" where
  "trie_wf (Node r b k p cs) \<longleftrightarrow> distinct (map toks_of cs) \<and> list_all (\<lambda>c. child_ok c \<and> trie_wf c) cs"

lemma child_ok_toks: "child_ok c \<Longrightarrow> \<exists>t. toks_of c = [t]"
  by (auto simp: child_ok_def toks_of_def length_Suc_conv split: if_splits)

lemma trie_wf_keyed: "trie_wf n \<Longrightarrow> keyed n"
  by (induction n rule: trie_wf.induct) (fastforce simp: list_all_iff dest: child_ok_toks)

lemma child_ok_param: "child_ok c \<Longrightarrow> t \<noteq> P_MAX \<Longrightarrow> n_param c = t \<longleftrightarrow> toks_of c = [Par t]"
  by (auto simp: child_ok_def toks_of_def)

lemma child_ok_key: "child_ok c \<Longrightarrow> x \<noteq> NUL \<Longrightarrow> cur (n_key c) = x \<longleftrightarrow> toks_of c = [Lit x]"
  by (auto simp: child_ok_def toks_of_def length_Suc_conv cur_def split: if_splits)

text \<open>What replacing the selected child does to the rules of a node.\<close>

lemma select_split:
  assumes "select_child P fresh cs = (j, child)"
  obtains (old) as bs where "cs = as @ child # bs" "P child" "\<And>x. put_child j x cs = as @ x # bs"
  | (fresh) "child = fresh" "\<forall>c \<in> set cs. \<not> P c" "\<And>x. put_child j x cs = cs @ [x]"
proof (cases "length (takeWhile (\<lambda>c. \<not> P c) cs) < length cs")
  case True
  with assms have j: "j = length (takeWhile (\<lambda>c. \<not> P c) cs)" "child = cs ! j" "j < length cs"
    by (auto simp: select_child_def Let_def)
  then have "P child" using nth_length_takeWhile [of "\<lambda>c. \<not> P c" cs] by simp
  with j old [of "take j cs" "drop (Suc j) cs"] show thesis
    by (simp add: put_child_def id_take_nth_drop [symmetric] upd_conv_take_nth_drop)
next
  case False
  with assms have "child = fresh" "\<not> j < length cs" by (auto simp: select_child_def Let_def)
  moreover have "\<forall>c \<in> set cs. \<not> P c"
    using False by (metis (mono_tags, lifting) length_takeWhile_le nat_less_le takeWhile_eq_all_conv takeWhile_eq_take take_all_iff leI)
  ultimately show thesis using fresh by (simp add: put_child_def)
qed

lemma own_paths_Cons: "toks_of c = [t] \<Longrightarrow> set (own_paths c) = (\<lambda>(ts, r). (t # ts, r)) ` set (paths c)"
  by (simp add: own_paths_def)

lemma selected_toks:
  assumes sel: "select_child P fresh cs = (j, child)" and P: "\<And>c. c \<in> set cs \<Longrightarrow> P c \<longleftrightarrow> toks_of c = [t]"
    and fresh: "toks_of fresh = [t]" "child_ok fresh" "trie_wf fresh"
    and wf: "list_all (\<lambda>c. child_ok c \<and> trie_wf c) cs"
  shows "toks_of child = [t] \<and> child_ok child \<and> trie_wf child"
  using sel by (cases rule: select_split) (use P fresh wf in auto)

lemma put_selected:
  assumes sel: "select_child P fresh cs = (j, child)" and P: "\<And>c. c \<in> set cs \<Longrightarrow> P c \<longleftrightarrow> toks_of c = [t]"
    and fresh: "paths fresh = []" and toks: "toks_of child = [t]" "toks_of child' = [t]"
    and wf: "distinct (map toks_of cs)" "list_all (\<lambda>c. child_ok c \<and> trie_wf c) cs"
    and child': "child_ok child'" "trie_wf child'" "set (paths child') = insert (ts, idx) (set (paths child))"
  shows "set (concat (map own_paths (put_child j child' cs))) = insert (t # ts, idx) (set (concat (map own_paths cs)))"
    and "distinct (map toks_of (put_child j child' cs))"
    and "list_all (\<lambda>c. child_ok c \<and> trie_wf c) (put_child j child' cs)"
proof -
  have own: "set (own_paths child') = insert (t # ts, idx) (set (own_paths child))"
    using child'(3) toks by (simp add: own_paths_Cons)
  from sel show "set (concat (map own_paths (put_child j child' cs))) = insert (t # ts, idx) (set (concat (map own_paths cs)))"
    by (cases rule: select_split) (use own fresh in \<open>auto simp: own_paths_def [of fresh]\<close>)
  from sel show "distinct (map toks_of (put_child j child' cs))"
  proof (cases rule: select_split)
    case fresh
    with P have "[t] \<notin> toks_of ` set cs" by (metis imageE)
    with fresh toks wf(1) show ?thesis by simp
  qed (use wf(1) toks in auto)
  from sel show "list_all (\<lambda>c. child_ok c \<and> trie_wf c) (put_child j child' cs)"
    by (cases rule: select_split) (use wf(2) child' in auto)
qed

lemma selected_paths:
  assumes sel: "select_child P fresh cs = (j, child)" and P: "\<And>c. c \<in> set cs \<Longrightarrow> P c \<longleftrightarrow> toks_of c = [t]"
    and fresh: "paths fresh = []" and toks: "toks_of child = [t]"
    and wf: "distinct (map toks_of cs)" "list_all (\<lambda>c. child_ok c \<and> trie_wf c) cs"
  shows "(t # ts, r) \<in> set (concat (map own_paths cs)) \<longleftrightarrow> (ts, r) \<in> set (paths child)"
proof -
  have only: "toks_of c = [t]" if "c \<in> set cs" "(t # ts, r) \<in> set (own_paths c)" for c
  proof -
    from that(1) wf(2) obtain u where "toks_of c = [u]" using child_ok_toks by (auto simp: list_all_iff)
    with that(2) show ?thesis by (auto simp: own_paths_Cons)
  qed
  show ?thesis using sel
  proof (cases rule: select_split)
    case (old as bs)
    have "c = child" if "c \<in> set cs" "toks_of c = [t]" for c
      using that old toks wf(1) by (metis distinct_map in_set_conv_decomp inj_onD)
    with only have "(\<exists>c \<in> set cs. (t # ts, r) \<in> set (own_paths c)) \<longleftrightarrow> (t # ts, r) \<in> set (own_paths child)"
      using old(1) by (metis in_set_conv_decomp)
    with toks show ?thesis by (auto simp: own_paths_Cons)
  next
    case fresh
    with only P have "\<forall>c \<in> set cs. (t # ts, r) \<notin> set (own_paths c)" by metis
    with fresh(1) assms(3) show ?thesis by simp
  qed
qed

text \<open>What adding the rule \<open>ts\<close> with index \<open>idx\<close> to a node may give.\<close>

definition add_result :: "exn \<Rightarrow> tok list \<Rightarrow> u16 \<Rightarrow> node \<Rightarrow> node result option \<Rightarrow> bool" where
  "add_result e ts idx n res \<longleftrightarrow>
     (if ts \<in> fst ` set (paths n) then res = Some (Inl e)
      else \<exists>n'. res = Some (Inr n') \<and> n_param n' = n_param n \<and> n_key n' = n_key n \<and> trie_wf n' \<and>
             set (paths n') = insert (ts, idx) (set (paths n)))"

lemma add_result_step:
  assumes sel: "select_child P fresh (n_children n) = (j, child)"
    and P: "\<And>c. c \<in> set (n_children n) \<Longrightarrow> P c \<longleftrightarrow> toks_of c = [t]"
    and fresh: "toks_of fresh = [t]" "paths fresh = []" "child_ok fresh" "trie_wf fresh"
    and wf: "trie_wf n" and sub: "trie_wf child \<Longrightarrow> add_result e ts idx child sub"
  shows "add_result e (t # ts) idx n (within_node n j sub)"
proof -
  obtain r b k p cs where n: "n = Node r b k p cs" by (cases n)
  note sel = sel [unfolded n node.sel] and P = P [unfolded n node.sel]
  have cs: "distinct (map toks_of cs)" "list_all (\<lambda>c. child_ok c \<and> trie_wf c) cs" using wf n by simp_all
  have child: "toks_of child = [t] \<and> child_ok child \<and> trie_wf child"
    using selected_toks [OF sel P fresh(1,3,4) cs(2)] by simp
  have "t # ts \<in> fst ` set (paths n) \<longleftrightarrow> (\<exists>r'. (t # ts, r') \<in> set (concat (map own_paths cs)))"
    unfolding n paths_children by force
  also have "\<dots> \<longleftrightarrow> ts \<in> fst ` set (paths child)"
    using selected_paths [OF sel P fresh(2) _ cs] child by force
  finally have dup: "t # ts \<in> fst ` set (paths n) \<longleftrightarrow> ts \<in> fst ` set (paths child)" .
  show ?thesis
  proof (cases "ts \<in> fst ` set (paths child)")
    case True
    with sub child dup n show ?thesis by (simp add: add_result_def within_node_def)
  next
    case False
    then obtain c' where c': "sub = Some (Inr c')" "n_param c' = n_param child" "n_key c' = n_key child" "trie_wf c'"
      "set (paths c') = insert (ts, idx) (set (paths child))" using sub child by (auto simp: add_result_def)
    have t: "toks_of c' = [t]" "child_ok c'" using child by (auto simp: toks_of_def child_ok_def c'(2,3))
    note put = put_selected [OF sel P fresh(2) _ t(1) cs t(2) c'(4,5)]
    from put child have "trie_wf (Node r b k p (put_child j c' cs))"
      "set (paths (Node r b k p (put_child j c' cs))) = insert (t # ts, idx) (set (paths n))"
      unfolding n paths_children by auto
    with False dup c'(1) n show ?thesis by (simp add: add_result_def within_node_def)
  qed
qed

lemma add_at_result:
  "rule_tokens rest = Some ts \<Longrightarrow> NUL \<notin> set rest \<Longrightarrow> trie_wf n \<Longrightarrow> idx \<noteq> 0 \<Longrightarrow>
     add_result (RuntimeError (''handler already exists for '' @ rule)) ts idx n (add_at rest i rule idx bp_len bp n)"
proof (induction rest arbitrary: ts n i rule: rule_tokens.induct)
  case 1
  obtain r b k p cs where n: "n = Node r b k p cs" by (cases n)
  have "[] \<notin> fst ` set (concat (map own_paths cs))"
    using 1(3) child_ok_toks by (fastforce simp: n list_all_iff own_paths_def)
  then show ?case using 1 by (auto simp: n add_at.simps add_result_def paths_children)
next
  case (2 c rest)
  have ok: "child_ok x" if "x \<in> set (n_children n)" for x
    using "2.prems"(3) that by (cases n) (simp add: list_all_iff)
  show ?case
  proof (cases "c = CHR ''<''")
    case True
    then obtain t len ts' where t: "match_trait (c # rest) = Some (t, len)"
      "rule_tokens (drop len (c # rest)) = Some ts'" "ts = Par t # ts'"
      using "2.prems"(1) by (auto split: option.splits)
    have tm: "t \<noteq> P_MAX" using match_trait_length t(1) by blast
    obtain j child where sel: "select_child (\<lambda>x. n_param x = t) (Node 0 INVALID_BP_ID [] t []) (n_children n) = (j, child)"
      by fastforce
    have "NUL \<notin> set (drop len (c # rest))" using "2.prems"(2) by (meson in_set_dropD)
    then have "add_result (RuntimeError (''handler already exists for '' @ rule)) (Par t # ts') idx n
        (within_node n j (add_at (drop len (c # rest)) (i + len) rule idx bp_len bp child))"
      using tm "2.IH"(1) [OF True t(1) refl t(2)] "2.prems"(3,4) child_ok_param [OF ok tm]
      by (intro add_result_step [OF sel]) (simp_all add: child_ok_def paths_children)
    with True t sel show ?thesis by (simp add: add_at.simps)
  next
    case False
    then obtain ts' where t: "rule_tokens rest = Some ts'" "ts = Lit c # ts'" using "2.prems"(1) by auto
    let ?fresh = "Node 0 (if bp_len \<noteq> 0 \<and> bp \<noteq> INVALID_BP_ID \<and> i = bp_len then bp else INVALID_BP_ID) [c] P_MAX []"
    have cn: "c \<noteq> NUL" using "2.prems"(2) by auto
    obtain j child where sel: "select_child (\<lambda>x. cur (n_key x) = c) ?fresh (n_children n) = (j, child)"
      by fastforce
    have "add_result (RuntimeError (''handler already exists for '' @ rule)) (Lit c # ts') idx n
        (within_node n j (add_at rest (i + 1) rule idx bp_len bp child))"
      using cn "2.IH"(2) [OF False t(1)] "2.prems"(2-4) child_ok_key [OF ok cn]
      by (intro add_result_step [OF sel]) (simp_all add: child_ok_def paths_children)
    with False t sel show ?thesis by (simp add: add_at.simps)
  qed
qed

subsection \<open>The interface of the search tree\<close>

text \<open>
  What the router relies on: a rule that is not there yet can be added, and a search gives the
  matching rule with the smallest index. Registering rules one after the other then means that
  the first registered rule that matches wins.
\<close>

fun insert_all :: "(string \<Rightarrow> u16 \<Rightarrow> 't \<Rightarrow> 't result option) \<Rightarrow> string list \<Rightarrow> nat \<Rightarrow> 't \<Rightarrow> 't result option" where
  "insert_all ins [] k t = Some (Inr t)"
| "insert_all ins (s # ss) k t = (case ins s (of_nat k) t of Some (Inr t') \<Rightarrow> insert_all ins ss (Suc k) t' | res \<Rightarrow> res)"

fun first_match :: "string list \<Rightarrow> nat \<Rightarrow> string \<Rightarrow> (u16 \<times> routing_params) option" where
  "first_match [] k u = None"
| "first_match (s # ss) k u =
     (case rule_match (the (rule_tokens s)) u 0 no_params of
        Some ps \<Rightarrow> Some (of_nat k, ps) | None \<Rightarrow> first_match ss (Suc k) u)"

fun numbered :: "string list \<Rightarrow> nat \<Rightarrow> (tok list \<times> u16) list" where
  "numbered [] k = []"
| "numbered (s # ss) k = (the (rule_tokens s), of_nat k) # numbered ss (Suc k)"

definition rules_ok :: "string list \<Rightarrow> bool" where
  "rules_ok ss \<longleftrightarrow> list_all (\<lambda>s. rule_tokens s \<noteq> None \<and> NUL \<notin> set s) ss \<and> distinct (map (\<lambda>s. the (rule_tokens s)) ss)"

lemma numbered_fst: "fst ` set (numbered ss k) = (\<lambda>s. the (rule_tokens s)) ` set ss"
  by (induction ss arbitrary: k) auto

lemma numbered_above:
  "(ts, r) \<in> set (numbered ss k) \<Longrightarrow> k + length ss \<le> 2 ^ 16 \<Longrightarrow> \<exists>i. r = of_nat i \<and> k \<le> i \<and> i < k + length ss"
  by (induction ss arbitrary: k) (auto, fastforce)

lemma of_nat_u16_le: "i < 2 ^ 16 \<Longrightarrow> j < 2 ^ 16 \<Longrightarrow> (of_nat i :: u16) \<le> of_nat j \<longleftrightarrow> i \<le> j"
  by (simp add: word_le_nat_alt unat_of_nat)

lemma first_match_least:
  "k + length ss \<le> 2 ^ 16 \<Longrightarrow> first_match ss k u = Some (r, ps) \<Longrightarrow>
     (\<exists>ts. (ts, r) \<in> set (numbered ss k) \<and> rule_match ts u 0 no_params = Some ps) \<and>
     (\<forall>ts' r'. (ts', r') \<in> set (numbered ss k) \<longrightarrow> rule_match ts' u 0 no_params \<noteq> None \<longrightarrow> r \<le> r')"
proof (induction ss arbitrary: k)
  case (Cons s ss)
  show ?case
  proof (cases "rule_match (the (rule_tokens s)) u 0 no_params")
    case None
    with Cons.IH [of "Suc k"] Cons.prems show ?thesis by auto
  next
    case (Some ps')
    have "r \<le> r'" if mem: "(ts', r') \<in> set (numbered ss (Suc k))" for ts' r'
    proof -
      obtain i where "r' = of_nat i" "Suc k \<le> i" "i < k + length (s # ss)"
        using numbered_above [OF mem] Cons.prems(1) by auto
      then show ?thesis using Some Cons.prems by (auto simp: of_nat_u16_le)
    qed
    with Some Cons.prems show ?thesis by auto
  qed
qed simp

lemma first_match_None:
  "first_match ss k u = None \<longleftrightarrow> (\<forall>ts r. (ts, r) \<in> set (numbered ss k) \<longrightarrow> rule_match ts u 0 no_params = None)"
  by (induction ss arbitrary: k) (auto split: option.splits)

lemma numbered_inj:
  "k + length ss \<le> 2 ^ 16 \<Longrightarrow> (ts, r) \<in> set (numbered ss k) \<Longrightarrow> (ts', r) \<in> set (numbered ss k) \<Longrightarrow> ts = ts'"
proof (induction ss arbitrary: k)
  case (Cons s ss)
  have "r \<noteq> of_nat k" if mem: "(x, r) \<in> set (numbered ss (Suc k))" for x
  proof -
    obtain i where "r = of_nat i" "Suc k \<le> i" "i < k + length (s # ss)"
      using numbered_above [OF mem] Cons.prems(1) by auto
    then show ?thesis using Cons.prems(1) of_nat_u16_le [of i k] by auto
  qed
  with Cons.IH [of "Suc k"] Cons.prems show ?case by auto
qed simp

locale rule_store =
  fixes inv :: "'t \<Rightarrow> bool" and rules_in :: "'t \<Rightarrow> (tok list \<times> u16) set"
    and insert_rule :: "string \<Rightarrow> u16 \<Rightarrow> 't \<Rightarrow> 't result option"
    and search :: "'t \<Rightarrow> string \<Rightarrow> (u16 \<times> routing_params) option"
  assumes insert_new: "inv t \<Longrightarrow> rule_tokens s = Some ts \<Longrightarrow> NUL \<notin> set s \<Longrightarrow> idx \<noteq> 0 \<Longrightarrow> ts \<notin> fst ` rules_in t \<Longrightarrow>
      \<exists>t'. insert_rule s idx t = Some (Inr t') \<and> inv t' \<and> rules_in t' = insert (ts, idx) (rules_in t)"
    and search_sound: "inv t \<Longrightarrow> search t u = Some (r, ps) \<Longrightarrow>
      \<exists>ts. (ts, r) \<in> rules_in t \<and> rule_match ts u 0 no_params = Some ps"
    and search_least: "inv t \<Longrightarrow> search t u = Some (r, ps) \<Longrightarrow> (ts', r') \<in> rules_in t \<Longrightarrow>
      rule_match ts' u 0 no_params \<noteq> None \<Longrightarrow> r \<le> r'"
    and search_complete: "inv t \<Longrightarrow> search t u = None \<Longrightarrow> (ts, r) \<in> rules_in t \<Longrightarrow> rule_match ts u 0 no_params = None"
begin

lemma insert_all_numbered:
  "inv t \<Longrightarrow> rules_ok ss \<Longrightarrow> 0 < k \<Longrightarrow> k + length ss \<le> 2 ^ 16 \<Longrightarrow>
     (\<forall>s \<in> set ss. the (rule_tokens s) \<notin> fst ` rules_in t) \<Longrightarrow>
     \<exists>t'. insert_all insert_rule ss k t = Some (Inr t') \<and> inv t' \<and> rules_in t' = rules_in t \<union> set (numbered ss k)"
proof (induction ss arbitrary: k t)
  case (Cons s ss)
  obtain ts where ts: "rule_tokens s = Some ts" "NUL \<notin> set s" using Cons.prems(2) by (auto simp: rules_ok_def)
  have "(of_nat k :: u16) \<noteq> 0" using Cons.prems(3,4) by (simp add: word_of_nat_eq_0_iff) (auto dest: dvd_imp_le)
  then obtain t1 where t1: "insert_rule s (of_nat k) t = Some (Inr t1)" "inv t1"
      "rules_in t1 = insert (ts, of_nat k) (rules_in t)"
    using insert_new [OF Cons.prems(1) ts, of "of_nat k"] Cons.prems(5) ts(1) by auto
  have "\<forall>x \<in> set ss. the (rule_tokens x) \<notin> fst ` rules_in t1"
    using Cons.prems(2,5) ts(1) t1(3) by (auto simp: rules_ok_def)
  moreover have "rules_ok ss" using Cons.prems(2) by (simp add: rules_ok_def)
  ultimately show ?case using Cons.IH [OF t1(2), of "Suc k"] Cons.prems(4) t1 ts(1) by auto
qed simp

lemma search_first_match:
  assumes "inv t" "rules_in t = set (numbered ss k)" "k + length ss \<le> 2 ^ 16"
  shows "search t u = first_match ss k u"
proof (cases "search t u")
  case None
  then have "first_match ss k u = None" using search_complete [OF assms(1)] assms(2) by (simp add: first_match_None)
  with None show ?thesis by simp
next
  case (Some rp)
  obtain r ps where rp: "rp = (r, ps)" by (cases rp)
  obtain ts where ts: "(ts, r) \<in> rules_in t" "rule_match ts u 0 no_params = Some ps"
    using search_sound [OF assms(1)] Some rp by blast
  then obtain r' ps' where f: "first_match ss k u = Some (r', ps')"
    using first_match_None [of ss k u] assms(2) by (cases "first_match ss k u") auto
  obtain ts' where ts': "(ts', r') \<in> set (numbered ss k)" "rule_match ts' u 0 no_params = Some ps'"
    using first_match_least [OF assms(3) f] by blast
  have "r' \<le> r" using first_match_least [OF assms(3) f] ts assms(2) by auto
  moreover have "r \<le> r'" using search_least [OF assms(1), of u r ps ts' r'] Some rp ts' assms(2) by auto
  ultimately have "r = r'" by simp
  with ts ts' assms(2,3) have "ts = ts'" using numbered_inj by blast
  with \<open>r = r'\<close> ts(2) ts'(2) Some rp f show ?thesis by simp
qed

end

lemma best_Cons: "best (h # hs) = better (Some h) (best hs)"
  by (simp add: best_def)

lemma best_None: "best hs = None \<longleftrightarrow> hs = []"
proof (cases hs)
  case (Cons h hs')
  then show ?thesis by (cases "best hs'") (simp_all add: best_Cons)
qed simp

lemma best_least: "best hs = Some (r, ps) \<Longrightarrow> (r, ps) \<in> set hs \<and> (\<forall>(r', ps') \<in> set hs. r \<le> r')"
proof (induction hs arbitrary: r ps)
  case (Cons h hs)
  show ?case
  proof (cases "best hs")
    case None
    then have "hs = []" by (simp add: best_None)
    with Cons.prems show ?thesis by auto
  next
    case (Some a)
    obtain r' ps' where a: "a = (r', ps')" by (cases a)
    note IH = Cons.IH [OF Some [unfolded a]]
    show ?thesis
    proof (cases "r' < fst h")
      case True
      with Some a Cons.prems IH show ?thesis by (auto simp: best_Cons)
    next
      case False
      with Some a Cons.prems have "h = (r, ps)" by (simp add: best_Cons)
      with False IH show ?thesis by fastforce
    qed
  qed
qed simp

lemma hits_member: "(r, ps') \<in> set (hits rs u pos ps) \<longleftrightarrow> (\<exists>ts. (ts, r) \<in> set rs \<and> rule_match ts u pos ps = Some ps')"
  by (force simp: hits_def split: option.splits)

definition trie_search :: "node \<Rightarrow> string \<Rightarrow> (u16 \<times> routing_params) option" where
  "trie_search t u = found_of (trie_find (optimize t) u)"

lemma trie_search_best: "trie_wf t \<Longrightarrow> trie_search t u = best (hits (paths t) u 0 no_params)"
  unfolding trie_search_def trie_find_def by (subst find_best) (simp_all add: optimize_keeps trie_wf_keyed)

definition trie_insert :: "string \<Rightarrow> u16 \<Rightarrow> node \<Rightarrow> node result option" where
  "trie_insert s idx t = trie_add s idx 0 INVALID_BP_ID t"

interpretation trie: rule_store trie_wf "\<lambda>t. set (paths t)" trie_insert trie_search
proof
  fix t s ts and idx :: u16
  assume "trie_wf t" "rule_tokens s = Some ts" "NUL \<notin> set s" "idx \<noteq> 0" "ts \<notin> fst ` set (paths t)"
  then show "\<exists>t'. trie_insert s idx t = Some (Inr t') \<and> trie_wf t' \<and> set (paths t') = insert (ts, idx) (set (paths t))"
    using add_at_result [of s ts t idx s 0 0 INVALID_BP_ID] by (auto simp: add_result_def trie_insert_def trie_add_def)
next
  fix t u r ps assume "trie_wf t" "trie_search t u = Some (r, ps)"
  then have b: "best (hits (paths t) u 0 no_params) = Some (r, ps)" by (simp add: trie_search_best)
  then show "\<exists>ts. (ts, r) \<in> set (paths t) \<and> rule_match ts u 0 no_params = Some ps"
    using best_least hits_member by blast
  show "r \<le> r'" if "(ts', r') \<in> set (paths t)" "rule_match ts' u 0 no_params \<noteq> None" for ts' r'
    using best_least [OF b] hits_member [of r' _ "paths t" u 0 no_params] that by fastforce
next
  fix t u ts r assume "trie_wf t" "trie_search t u = None" "(ts, r) \<in> set (paths t)"
  then have "hits (paths t) u 0 no_params = []" by (simp add: trie_search_best best_None)
  with \<open>(ts, r) \<in> set (paths t)\<close> show "rule_match ts u 0 no_params = None"
    using hits_member [of r _ "paths t" u 0 no_params] by (metis empty_iff empty_set not_None_eq)
qed

end
