(* ===== verification/Router.thy ===== *)
theory Router
  imports Routing
begin

text \<open>
  The rules and the router of \<open>crow/routing.h\<close> on top of the search tree: the methods of a rule
  (\<open>BaseRule::foreach_method\<close>, \<open>RuleParameterTraits::methods\<close>), the registration of the rules
  (\<open>internal_add_rule_object\<close>, \<open>validate\<close>), the first step of a request (\<open>handle_initial\<close>,
  \<open>get_error\<close>) and the call of the handler with the mapping of its exceptions (\<open>handle\<close>,
  \<open>wrapped_handler_call\<close>, \<open>default_exception_handler\<close>). The application has no blueprint, no
  catch-all rule and no local middleware, so those members are empty here.
\<close>

subsection \<open>Rules\<close>

text \<open>
  A handler gets the request and the parameters of the url, works on the state \<open>'w\<close> and returns a
  response or throws; \<open>None\<close> when its loop is not finished within the fuel it was given.
\<close>

type_synonym 'w handler = "request \<Rightarrow> routing_params \<Rightarrow> 'w \<Rightarrow> ('w \<times> response result) option"

record 'w rule =
  r_methods :: u32
  r_rule :: string
  r_name :: string
  r_added :: bool
  r_handler :: "'w handler option"

definition new_rule :: "string \<Rightarrow> 'w rule" where
  "new_rule s = \<lparr>r_methods = push_bit (method_num Get) 1, r_rule = s, r_name = [], r_added = False, r_handler = None\<rparr>"

text \<open>\<open>1 << method\<close> is computed in \<open>int\<close>: past bit 31 the shift is undefined.\<close>

definition method_bit :: "HTTPMethod \<Rightarrow> u32 result" where
  "method_bit m = (if method_num m < 32 then Inr (push_bit (method_num m) 1) else Inl (UB ''shift count past the width of int''))"

fun methods_of :: "HTTPMethod \<Rightarrow> HTTPMethod list \<Rightarrow> u32 result" where
  "methods_of m [] = method_bit m"
| "methods_of m (m' # ms) = bind_result (methods_of m' ms) (\<lambda>rest. bind_result (method_bit m) (\<lambda>b. Inr (rest OR b)))"

definition rule_methods :: "HTTPMethod \<Rightarrow> HTTPMethod list \<Rightarrow> 'w rule \<Rightarrow> 'w rule result" where
  "rule_methods m ms r = bind_result (methods_of m ms) (\<lambda>bits. Inr (r\<lparr>r_methods := bits\<rparr>))"

definition rule_call :: "'w handler \<Rightarrow> 'w rule \<Rightarrow> 'w rule" where
  "rule_call f r = r\<lparr>r_handler := Some f\<rparr>"

text \<open>The methods in the order in which \<open>foreach_method\<close> visits them; the bit is shifted out after 32 steps.\<close>

definition foreach_method :: "u32 \<Rightarrow> nat list" where
  "foreach_method bits = filter (\<lambda>m. bits AND push_bit m 1 \<noteq> 0) [0..<internal_method_count]"

definition rule_validate :: "'w rule \<Rightarrow> unit result" where
  "rule_validate r =
     (if r_rule r = [] then Inl (StdError ''basic_string::at'')
      else if hd (r_rule r) \<noteq> CHR ''/'' then Inl (RuntimeError (''Internal error: Routes must start with a '' @ [CHR 0x27] @ ''/'' @ [CHR 0x27]))
      else if r_handler r = None
      then Inl (RuntimeError (r_name r @ (if r_name r \<noteq> [] then '': '' else []) @ ''no handler for url '' @ r_rule r))
      else Inr ())"

subsection \<open>Registration\<close>

definition RULE_SPECIAL_REDIRECT_SLASH :: nat where "RULE_SPECIAL_REDIRECT_SLASH = 1"

text \<open>The first two slots of \<open>rules\<close> are null pointers.\<close>

record 'w per_method =
  rules :: "'w rule option list"
  trie :: node

record 'w router =
  per_methods :: "'w per_method list"
  all_rules :: "'w rule list"

definition new_per_method :: "'w per_method" where
  "new_per_method = \<lparr>rules = [None, None], trie = new_node\<rparr>"

definition new_router :: "'w router" where
  "new_router = \<lparr>per_methods = replicate internal_method_count new_per_method, all_rules = []\<rparr>"

definition add_for_method :: "'w rule \<Rightarrow> 'w per_method \<Rightarrow> 'w per_method result option" where
  "add_for_method r p =
     (let rule = r_rule r; rules' = rules p @ [Some r]
      in then_do (trie_add rule (of_nat (length rules' - 1)) 0 INVALID_BP_ID (trie p)) (\<lambda>t.
         then_do (if 1 < length rule \<and> last rule = CHR ''/''
                  then trie_add (butlast rule) (of_nat RULE_SPECIAL_REDIRECT_SLASH) 0 INVALID_BP_ID t
                  else Some (Inr t)) (\<lambda>t'.
         Some (Inr \<lparr>rules = rules', trie = t'\<rparr>))))"

fun add_for_methods :: "nat list \<Rightarrow> 'w rule \<Rightarrow> 'w per_method list \<Rightarrow> 'w per_method list result option" where
  "add_for_methods [] r ps = Some (Inr ps)"
| "add_for_methods (m # ms) r ps =
     then_do (add_for_method r (ps ! m)) (\<lambda>p. add_for_methods ms r (ps[m := p]))"

definition internal_add_rule_object :: "'w rule \<Rightarrow> 'w per_method list \<Rightarrow> 'w per_method list result option" where
  "internal_add_rule_object r ps = add_for_methods (foreach_method (r_methods r)) r ps"

fun add_rules :: "'w rule list \<Rightarrow> 'w per_method list \<Rightarrow> ('w rule list \<times> 'w per_method list) result option" where
  "add_rules [] ps = Some (Inr ([], ps))"
| "add_rules (r # rs) ps =
     then_do (if r_added r then Some (Inr (r, ps))
              else then_do (Some (rule_validate r)) (\<lambda>_.
                   then_do (internal_add_rule_object r ps) (\<lambda>ps'. Some (Inr (r\<lparr>r_added := True\<rparr>, ps'))))) (\<lambda>(r', ps1).
     then_do (add_rules rs ps1) (\<lambda>(rs', ps2). Some (Inr (r' # rs', ps2))))"

fun validate_tries :: "'w per_method list \<Rightarrow> 'w per_method list result" where
  "validate_tries [] = Inr []"
| "validate_tries (p # ps) =
     bind_result (trie_validate (trie p)) (\<lambda>t. bind_result (validate_tries ps) (\<lambda>ps'. Inr (p\<lparr>trie := t\<rparr> # ps')))"

definition router_validate :: "'w router \<Rightarrow> 'w router result option" where
  "router_validate R =
     then_do (add_rules (all_rules R) (per_methods R)) (\<lambda>(rs, ps).
       Some (bind_result (validate_tries ps) (\<lambda>ps'. Inr \<lparr>per_methods = ps', all_rules = rs\<rparr>)))"

subsection \<open>The first step of a request\<close>

text \<open>
  The result of a routing step: the rule index, the parameters and the method whose table they
  refer to. The two-argument constructor leaves the method unset, which is \<open>None\<close>.
\<close>

record found =
  f_rule :: nat
  f_params :: routing_params
  f_method :: "nat option"

definition found_result :: "routing_handle_result \<Rightarrow> nat option \<Rightarrow> found" where
  "found_result ret m = \<lparr>f_rule = unat (rule_index ret), f_params = r_params ret, f_method = m\<rparr>"

definition nothing_found :: "nat option \<Rightarrow> found" where
  "nothing_found m = \<lparr>f_rule = 0, f_params = no_params, f_method = m\<rparr>"

definition find_in :: "'w router \<Rightarrow> nat \<Rightarrow> string \<Rightarrow> routing_handle_result" where
  "find_in R m u = trie_find (trie (per_methods R ! m)) u"

definition matches_in :: "'w router \<Rightarrow> nat \<Rightarrow> string \<Rightarrow> bool" where
  "matches_in R m u \<longleftrightarrow> rule_index (find_in R m u) \<noteq> 0"

text \<open>Without catch-all rules \<open>get_error\<close> only sets the code.\<close>

definition get_error :: "int \<Rightarrow> response \<Rightarrow> response" where
  "get_error c res = res\<lparr>rcode := c\<rparr>"

definition allow_list :: "nat list \<Rightarrow> string" where
  "allow_list ms = ''OPTIONS, HEAD'' @ concat (map (\<lambda>m. '', '' @ method_name m) ms)"

definition not_head :: "nat \<Rightarrow> bool" where
  "not_head m \<longleftrightarrow> m \<noteq> method_num Head"

text \<open>\<open>k\<close> is the callback that \<open>res.end()\<close> runs when one is installed.\<close>

definition end_with :: "('v \<times> response \<Rightarrow> 'v \<times> response) \<Rightarrow> 'v \<Rightarrow> response \<Rightarrow> found \<Rightarrow> found \<times> 'v \<times> response" where
  "end_with k w res f = (f, response_end k (w, res))"

definition handle_options ::
  "'w router \<Rightarrow> ('v \<times> response \<Rightarrow> 'v \<times> response) \<Rightarrow> request \<Rightarrow> 'v \<Rightarrow> response \<Rightarrow> found \<times> 'v \<times> response" where
  "handle_options R k req w res =
     (if url req = ''/*''
      then end_with k w (set_header ''Allow''
             (allow_list (filter (\<lambda>m. not_head m \<and> \<not> trie_is_empty (trie (per_methods R ! m))) [0..<internal_method_count]))
             (response_assign res (response_code 204))) (nothing_found (Some (req_method req)))
      else let ms = filter (\<lambda>m. matches_in R m (url req)) [0..<internal_method_count]
           in if ms \<noteq> []
              then end_with k w (set_header ''Allow'' (allow_list (filter not_head ms))
                     (response_assign res (response_code 204))) (nothing_found (Some (req_method req)))
              else end_with k w (response_assign res (response_code 404)) (nothing_found (Some internal_method_count)))"

definition handle_initial ::
  "'w router \<Rightarrow> ('v \<times> response \<Rightarrow> 'v \<times> response) \<Rightarrow> request \<Rightarrow> 'v \<Rightarrow> response \<Rightarrow> found \<times> 'v \<times> response" where
  "handle_initial R k req w res =
     (let m = req_method req; u = url req
      in if internal_method_count \<le> m then (nothing_found (Some internal_method_count), w, res)
         else if m = method_num Head
         then (if matches_in R m u then (found_result (find_in R m u) (Some m), w, res\<lparr>skip_body := True\<rparr>)
               else if matches_in R (method_num Get) u
               then (found_result (find_in R (method_num Get) u) (Some (method_num Get)), w, res\<lparr>skip_body := True\<rparr>)
               else end_with k w (response_assign res (response_code 404)) (found_result (find_in R (method_num Get) u) None))
         else if m = method_num Options then handle_options R k req w res
         else if matches_in R m u then (found_result (find_in R m u) (Some m), w, res)
         else end_with k w
                (get_error (if list_ex (\<lambda>i. matches_in R i u) [0..<internal_method_count] then 405 else 404) res)
                (found_result (find_in R m u) None))"

subsection \<open>The call of the handler\<close>

definition default_exception_handler :: "exn \<Rightarrow> response \<Rightarrow> response" where
  "default_exception_handler e res = (case e of
     BadRequest what \<Rightarrow> (response_assign res (response_code 400))\<lparr>body := what\<rparr>
   | _ \<Rightarrow> response_assign res (response_code 500))"

text \<open>
  \<open>wrapped_handler_call\<close> inside the \<open>try\<close> block of \<open>handle\<close>: a response is assigned and ended, an
  exception becomes a response of its own. Undefined behaviour is no exception and stays.
\<close>

definition wrapped_handler_call ::
  "'w handler \<Rightarrow> ('w \<times> response \<Rightarrow> 'w \<times> response) \<Rightarrow> request \<Rightarrow> routing_params \<Rightarrow> 'w \<Rightarrow> response
     \<Rightarrow> ('w \<times> response) result option" where
  "wrapped_handler_call f k req ps w res = (case f req ps w of
     None \<Rightarrow> None
   | Some (w', Inl (UB what)) \<Rightarrow> Some (Inl (UB what))
   | Some (w', Inl e) \<Rightarrow> Some (Inr (response_end k (w', default_exception_handler e res)))
   | Some (w', Inr r) \<Rightarrow> Some (Inr (response_end k (w', response_assign res r))))"

definition router_handle ::
  "'w router \<Rightarrow> ('w \<times> response \<Rightarrow> 'w \<times> response) \<Rightarrow> request \<Rightarrow> found \<Rightarrow> 'w \<Rightarrow> response \<Rightarrow> ('w \<times> response) result option" where
  "router_handle R k req f w res = (case f_method f of
     None \<Rightarrow> Some (Inl (UB ''the method of the result was never set''))
   | Some m \<Rightarrow>
       if internal_method_count \<le> m then Some (Inl (UB ''index past the end of per_methods_''))
       else let rs = rules (per_methods R ! m)
            in if length rs \<le> f_rule f then Some (Inl (RuntimeError ''Trie internal structure corrupted!''))
               else if f_rule f = RULE_SPECIAL_REDIRECT_SLASH
               then Some (Inr (response_end k (w, add_header ''Location'' (url req @ ''/'') (response_assign res (response_code 301)))))
               else (case rs ! f_rule f of
                       Some r \<Rightarrow> (case r_handler r of
                         Some h \<Rightarrow> wrapped_handler_call h k req (f_params f) w res
                       | None \<Rightarrow> Some (Inr (response_end k (w, default_exception_handler (StdError ''bad_function_call'') res))))
                     | None \<Rightarrow> Some (Inl (UB ''null rule''))))"

subsection \<open>Registered rules are found in their order\<close>

text \<open>The root: no rule of its own, and all rules below one slash.\<close>

definition head_ok :: "node \<Rightarrow> bool" where
  "head_ok n \<longleftrightarrow> n_rule n = 0 \<and> n_bp n = INVALID_BP_ID \<and> n_param n = P_MAX \<and>
     list_all (\<lambda>c. n_param c = P_MAX \<and> n_key c = ''/'') (n_children n)"

lemma within_node_Inr:
  "within_node n j sub = Some (Inr n') \<longleftrightarrow>
     (\<exists>child. sub = Some (Inr child) \<and> n' = Node (n_rule n) (n_bp n) (n_key n) (n_param n) (put_child j child (n_children n)))"
  by (cases n) (auto simp: within_node_def bind_result_eq_Inr)

lemma add_at_own: "add_at rest i rule idx bl bp n = Some (Inr n') \<Longrightarrow> n_param n' = n_param n \<and> n_key n' = n_key n"
  by (cases rest; cases n)
    (auto simp: add_at.simps within_node_Inr split: if_splits option.splits prod.splits)

lemma list_all_put: "list_all P cs \<Longrightarrow> P child \<Longrightarrow> list_all P (put_child j child cs)"
  using set_update_subset_insert [of cs j child] by (auto simp: put_child_def list_all_iff)

lemma add_at_head:
  assumes "add_at (CHR ''/'' # rest) i rule idx bl INVALID_BP_ID n = Some (Inr n')" "head_ok n"
  shows "head_ok n'"
proof -
  let ?P = "\<lambda>c. n_param c = P_MAX \<and> n_key c = ''/''"
  obtain j child where sel: "select_child (\<lambda>x. cur (n_key x) = CHR ''/'') (Node 0 INVALID_BP_ID ''/'' P_MAX []) (n_children n) = (j, child)"
    by fastforce
  with assms(1) obtain child' where c: "add_at rest (i + 1) rule idx bl INVALID_BP_ID child = Some (Inr child')"
    and n': "n' = Node (n_rule n) (n_bp n) (n_key n) (n_param n) (put_child j child' (n_children n))"
    by (auto simp: add_at.simps within_node_Inr)
  have "?P child" using sel
    by (cases rule: select_split) (use assms(2) in \<open>auto simp: head_ok_def list_all_iff\<close>)
  with add_at_own [OF c] have "?P child'" by simp
  with n' assms(2) show ?thesis by (simp add: head_ok_def list_all_put)
qed

lemma head_ok_simple:
  assumes "head_ok n" "trie_wf n"
  shows "IsSimpleNode n"
proof -
  have "\<forall>c \<in> set (n_children n). toks_of c = [Lit (CHR ''/'')]"
    using assms(1) by (simp add: head_ok_def toks_of_def list_all_iff)
  moreover have "distinct (map toks_of (n_children n))" using assms(2) by (cases n) simp
  ultimately have "length (n_children n) < 2"
    by (cases "n_children n"; cases "tl (n_children n)") auto
  with assms(1) show ?thesis by (auto simp: IsSimpleNode_def head_ok_def list_all_iff)
qed

text \<open>The table of one method after the rules \<open>rs\<close> were registered for it.\<close>

definition table_inv :: "'w rule list \<Rightarrow> 'w per_method \<Rightarrow> bool" where
  "table_inv rs p \<longleftrightarrow> rules p = None # None # map Some rs \<and> trie_wf (trie p) \<and> head_ok (trie p) \<and>
     set (paths (trie p)) = set (numbered (map r_rule rs) 2)"

definition route_ok :: "'w rule \<Rightarrow> bool" where
  "route_ok r \<longleftrightarrow> rule_tokens (r_rule r) \<noteq> None \<and> NUL \<notin> set (r_rule r) \<and> cur (r_rule r) = CHR ''/'' \<and>
     (r_rule r = ''/'' \<or> last (r_rule r) \<noteq> CHR ''/'') \<and> r_handler r \<noteq> None \<and> \<not> r_added r"

abbreviation route_tokens :: "'w rule \<Rightarrow> tok list" where
  "route_tokens r \<equiv> the (rule_tokens (r_rule r))"

lemma numbered_snoc: "numbered (ss @ [s]) k = numbered ss k @ [(the (rule_tokens s), of_nat (k + length ss))]"
  by (induction ss arbitrary: k) simp_all

lemma add_for_method_inv:
  assumes inv: "table_inv rs p" and r: "route_ok r" "route_tokens r \<notin> route_tokens ` set rs"
    and len: "length rs + 3 \<le> 2 ^ 16"
  shows "\<exists>p'. add_for_method r p = Some (Inr p') \<and> table_inv (rs @ [r]) p'"
proof -
  let ?idx = "of_nat (2 + length rs) :: u16"
  obtain ts where ts: "rule_tokens (r_rule r) = Some ts" "NUL \<notin> set (r_rule r)" using r(1) by (auto simp: route_ok_def)
  obtain rest where rest: "r_rule r = CHR ''/'' # rest" using r(1) by (cases "r_rule r") (auto simp: route_ok_def cur_def)
  have "?idx \<noteq> 0" using len by (simp only: word_of_nat_eq_0_iff) (auto dest: dvd_imp_le)
  moreover have "ts \<notin> fst ` set (paths (trie p))"
    using r(2) ts(1) inv by (auto simp: table_inv_def numbered_fst image_iff)
  ultimately obtain t where t: "trie_insert (r_rule r) ?idx (trie p) = Some (Inr t)" "trie_wf t"
      "set (paths t) = insert (ts, ?idx) (set (paths (trie p)))"
    using trie.insert_new [of "trie p" "r_rule r" ts ?idx] ts inv by (auto simp: table_inv_def)
  then have "head_ok t" using add_at_head [of rest] rest inv by (auto simp: trie_insert_def trie_add_def table_inv_def)
  moreover have "\<not> (1 < length (r_rule r) \<and> last (r_rule r) = CHR ''/'')" using r(1) by (auto simp: route_ok_def)
  moreover have "length (rules p) = 2 + length rs" using inv by (simp add: table_inv_def)
  ultimately have "add_for_method r p = Some (Inr \<lparr>rules = rules p @ [Some r], trie = t\<rparr>)"
    using t(1) by (auto simp: add_for_method_def Let_def then_do_def trie_insert_def)
  moreover have "table_inv (rs @ [r]) \<lparr>rules = rules p @ [Some r], trie = t\<rparr>"
    using inv t \<open>head_ok t\<close> ts(1) by (simp add: table_inv_def numbered_snoc)
  ultimately show ?thesis by blast
qed

definition rules_for :: "nat \<Rightarrow> 'w rule list \<Rightarrow> 'w rule list" where
  "rules_for m rs = filter (\<lambda>r. m \<in> set (foreach_method (r_methods r))) rs"

definition routes_ok :: "'w rule list \<Rightarrow> bool" where
  "routes_ok rs \<longleftrightarrow> list_all route_ok rs \<and> length rs + 2 \<le> 2 ^ 16 \<and>
     list_all (\<lambda>m. distinct (map route_tokens (rules_for m rs))) [0..<internal_method_count]"

definition tables_inv :: "'w rule list \<Rightarrow> 'w per_method list \<Rightarrow> bool" where
  "tables_inv rs ps \<longleftrightarrow> length ps = internal_method_count \<and> (\<forall>m < internal_method_count. table_inv (rules_for m rs) (ps ! m))"

lemma foreach_method_range: "m \<in> set (foreach_method b) \<Longrightarrow> m < internal_method_count" "distinct (foreach_method b)"
  by (auto simp: foreach_method_def)

lemma add_for_methods_inv:
  assumes "route_ok r"
  shows "distinct ms \<Longrightarrow> (\<forall>m \<in> set ms. m < length ps \<and> table_inv (F m) (ps ! m) \<and>
      route_tokens r \<notin> route_tokens ` set (F m) \<and> length (F m) + 3 \<le> 2 ^ 16) \<Longrightarrow>
    \<exists>ps'. add_for_methods ms r ps = Some (Inr ps') \<and> length ps' = length ps \<and>
      (\<forall>m < length ps. if m \<in> set ms then table_inv (F m @ [r]) (ps' ! m) else ps' ! m = ps ! m)"
proof (induction ms arbitrary: ps)
  case (Cons m ms)
  obtain p where p: "add_for_method r (ps ! m) = Some (Inr p)" "table_inv (F m @ [r]) p"
    using add_for_method_inv [of "F m" "ps ! m" r] assms Cons.prems(2) by auto
  have "\<exists>ps'. add_for_methods ms r (ps[m := p]) = Some (Inr ps') \<and> length ps' = length (ps[m := p]) \<and>
      (\<forall>i < length (ps[m := p]). if i \<in> set ms then table_inv (F i @ [r]) (ps' ! i) else ps' ! i = ps[m := p] ! i)"
    using Cons.prems by (intro Cons.IH) (auto simp: nth_list_update)
  then obtain ps' where "add_for_methods ms r (ps[m := p]) = Some (Inr ps')" "length ps' = length ps"
      "\<forall>i < length ps. if i \<in> set ms then table_inv (F i @ [r]) (ps' ! i) else ps' ! i = ps[m := p] ! i"
    by auto
  with p Cons.prems show ?case by (auto simp: then_do_def nth_list_update)
qed simp

lemma internal_add_inv:
  assumes "tables_inv rs ps" "routes_ok (rs @ [r])"
  shows "\<exists>ps'. internal_add_rule_object r ps = Some (Inr ps') \<and> tables_inv (rs @ [r]) ps'"
proof -
  have r: "route_ok r" using assms(2) by (simp add: routes_ok_def)
  have fresh: "m < length ps \<and> table_inv (rules_for m rs) (ps ! m) \<and>
      route_tokens r \<notin> route_tokens ` set (rules_for m rs) \<and> length (rules_for m rs) + 3 \<le> 2 ^ 16"
    if m: "m \<in> set (foreach_method (r_methods r))" for m
  proof -
    have "m < internal_method_count" using m by (rule foreach_method_range)
    moreover from this have "distinct (map route_tokens (rules_for m (rs @ [r])))"
      using assms(2) by (simp add: routes_ok_def list_all_iff)
    moreover have "length (rules_for m rs) + 3 \<le> length rs + 3" "length rs + 3 \<le> 2 ^ 16"
      using assms(2) by (simp_all add: rules_for_def routes_ok_def)
    from le_trans [OF this] have "length (rules_for m rs) + 3 \<le> 2 ^ 16" .
    ultimately show ?thesis using assms(1) m by (auto simp: tables_inv_def rules_for_def)
  qed
  obtain ps' where ps': "internal_add_rule_object r ps = Some (Inr ps')" "length ps' = length ps"
      "\<forall>m < length ps. if m \<in> set (foreach_method (r_methods r)) then table_inv (rules_for m rs @ [r]) (ps' ! m)
         else ps' ! m = ps ! m"
    using add_for_methods_inv [OF r foreach_method_range(2), of "r_methods r" ps "\<lambda>m. rules_for m rs"] fresh
    unfolding internal_add_rule_object_def by blast
  then have "tables_inv (rs @ [r]) ps'" using assms(1) by (auto simp: tables_inv_def rules_for_def split: if_splits)
  with ps'(1) show ?thesis by blast
qed

lemma rules_for_append: "rules_for m (rs @ qs) = rules_for m rs @ rules_for m qs"
  by (simp add: rules_for_def)

lemma routes_ok_prefix: "routes_ok (rs @ qs) \<Longrightarrow> routes_ok rs"
  by (auto simp: routes_ok_def rules_for_append list_all_iff)

lemma add_rules_inv:
  "tables_inv rs ps \<Longrightarrow> routes_ok (rs @ qs) \<Longrightarrow>
     \<exists>qs' ps'. add_rules qs ps = Some (Inr (qs', ps')) \<and> tables_inv (rs @ qs) ps'"
proof (induction qs arbitrary: rs ps)
  case (Cons q qs)
  have ok: "routes_ok (rs @ [q])" using routes_ok_prefix [of "rs @ [q]" qs] Cons.prems(2) by simp
  then have "\<not> r_added q" "rule_validate q = Inr ()"
    by (auto simp: routes_ok_def route_ok_def rule_validate_def cur_def split: list.splits)
  moreover obtain ps1 where "internal_add_rule_object q ps = Some (Inr ps1)" "tables_inv (rs @ [q]) ps1"
    using internal_add_inv [OF Cons.prems(1) ok] by blast
  moreover from this(2) Cons.IH [of "rs @ [q]" ps1] Cons.prems(2)
  obtain qs' ps' where "add_rules qs ps1 = Some (Inr (qs', ps'))" "tables_inv (rs @ q # qs) ps'" by auto
  ultimately show ?case by (simp add: then_do_def)
qed auto

lemma validate_tries_ok:
  "list_all (\<lambda>p. IsSimpleNode (trie p)) ps \<Longrightarrow>
     validate_tries ps = Inr (map (\<lambda>p. p\<lparr>trie := optimize (trie p)\<rparr>) ps)"
  by (induction ps) (simp_all add: trie_validate_def)

lemma new_tables_inv: "tables_inv [] (per_methods new_router)"
  by (simp add: tables_inv_def table_inv_def new_router_def new_per_method_def new_node_def rules_for_def head_ok_def
      paths_children)

text \<open>
  Validation succeeds, and afterwards a search in the table of a method returns the first rule
  registered for that method that matches, under the index of its slot.
\<close>

lemma router_validate_ok:
  assumes "routes_ok rs"
  obtains R where "router_validate (new_router\<lparr>all_rules := rs\<rparr>) = Some (Inr R)"
    "\<And>m. m < internal_method_count \<Longrightarrow> rules (per_methods R ! m) = None # None # map Some (rules_for m rs)"
    "\<And>m u. m < internal_method_count \<Longrightarrow> found_of (find_in R m u) = first_match (map r_rule (rules_for m rs)) 2 u"
proof -
  obtain rs' ps where ps: "add_rules rs (per_methods new_router) = Some (Inr (rs', ps))" "tables_inv rs ps"
    using add_rules_inv [OF new_tables_inv, of rs] assms by auto
  have inv: "table_inv (rules_for m rs) (ps ! m)" "m < length ps" if "m < internal_method_count" for m
    using ps(2) that by (simp_all add: tables_inv_def)
  have "list_all (\<lambda>p. IsSimpleNode (trie p)) ps"
    using ps(2) head_ok_simple by (auto simp: list_all_length tables_inv_def table_inv_def)
  then have R: "router_validate (new_router\<lparr>all_rules := rs\<rparr>) =
      Some (Inr \<lparr>per_methods = map (\<lambda>p. p\<lparr>trie := optimize (trie p)\<rparr>) ps, all_rules = rs'\<rparr>)"
    using ps(1) by (simp add: router_validate_def then_do_def validate_tries_ok)
  have "found_of (find_in \<lparr>per_methods = map (\<lambda>p. p\<lparr>trie := optimize (trie p)\<rparr>) ps, all_rules = rs'\<rparr> m u) =
      first_match (map r_rule (rules_for m rs)) 2 u" if "m < internal_method_count" for m u
  proof -
    have "length (rules_for m rs) \<le> length rs" by (simp add: rules_for_def)
    then have "2 + length (map r_rule (rules_for m rs)) \<le> 2 ^ 16" using assms by (simp add: routes_ok_def)
    then have "trie_search (trie (ps ! m)) u = first_match (map r_rule (rules_for m rs)) 2 u"
      using inv(1) [OF that] by (intro trie.search_first_match) (simp_all add: table_inv_def)
    then show ?thesis using inv(2) [OF that] by (simp add: find_in_def trie_search_def)
  qed
  moreover have "rules (map (\<lambda>p. p\<lparr>trie := optimize (trie p)\<rparr>) ps ! m) = None # None # map Some (rules_for m rs)"
    if "m < internal_method_count" for m using inv [OF that] by (simp add: table_inv_def)
  ultimately show thesis using that [OF R] by simp
qed

end
