(* ===== verification/Connection.thy ===== *)
theory Connection
  imports Middleware Router Orders
begin

text \<open>
  One HTTP connection: the callbacks of \<open>crow/parser.h\<close> that fill in the request, and
  \<open>crow/http_connection.h\<close>, which routes the url (\<open>handle_url\<close>), answers \<open>Expect\<close>
  (\<open>handle_header\<close>), runs the middleware chain and the handler (\<open>handle\<close>), completes the request
  (\<open>complete_request\<close>), serializes the response (\<open>prepare_buffers\<close>) and writes it. The callbacks of
  the byte-level parser are the events of the model; the socket is the text sent so far and an
  open flag.
\<close>

subsection \<open>State\<close>

text \<open>
  What the server gives to every connection: the JSON printer of the middlewares, the server name,
  the cached date, the peer address, the stream threshold, the iteration order of the header map
  and the files that static responses name.
\<close>

record settings =
  s_json :: json_impl
  server_name :: string
  date_str :: string
  peer_address :: string
  res_stream_threshold :: nat
  hdr_order :: "ci_map \<Rightarrow> ci_map"
  file_content :: "string \<Rightarrow> string"

text \<open>
  The members of \<open>Connection\<close> and of its \<open>HTTPParser\<close> except the response, which is passed beside.
  \<open>between_messages\<close> says that the parser waits for the start of a message, \<open>parse_error\<close> that
  \<open>http_errno\<close> is set.
\<close>

record ('d, 'r) conn =
  c_world :: "('d, 'r) world"
  c_clock :: "i64 list"
  c_ctx :: mw_context
  c_req :: request
  c_found :: "found option"
  close_conn :: bool
  continue_requested :: bool
  need_to_call_after_handlers :: bool
  need_to_start_read_after_complete :: bool
  add_keep_alive :: bool
  header_building_state :: nat
  message_complete :: bool
  header_field :: string
  header_value :: string
  qs_point :: nat
  parse_error :: bool
  between_messages :: bool
  is_open :: bool
  buffers :: string
  sent :: string

definition new_conn :: "('d, 'r) world \<Rightarrow> i64 list \<Rightarrow> ('d, 'r) conn" where
  "new_conn w ts = \<lparr>c_world = w, c_clock = ts, c_ctx = new_context, c_req = empty_request, c_found = None, close_conn = False,
     continue_requested = False, need_to_call_after_handlers = False, need_to_start_read_after_complete = False,
     add_keep_alive = False, header_building_state = 0, message_complete = False, header_field = [], header_value = [],
     qs_point = 0, parse_error = False, between_messages = True, is_open = True, buffers = [], sent = []\<rparr>"

type_synonym ('d, 'r) cs = "('d, 'r) conn \<times> response"

definition CRLF :: string where "CRLF = [CR, LF]"

subsection \<open>The parser object\<close>

definition parser_clear :: "('d, 'r) conn \<Rightarrow> ('d, 'r) conn" where
  "parser_clear c = c\<lparr>c_req := empty_request, header_field := [], header_value := [], header_building_state := 0,
     qs_point := 0, message_complete := False, between_messages := True\<rparr>"

text \<open>\<open>done()\<close> feeds an end of input, which is an error in the middle of a message.\<close>

definition parser_done :: "('d, 'r) conn \<Rightarrow> ('d, 'r) conn" where
  "parser_done c = (if message_complete c \<or> between_messages c then c else c\<lparr>parse_error := True\<rparr>)"

definition on_method :: "nat \<Rightarrow> ('d, 'r) conn \<Rightarrow> ('d, 'r) conn" where
  "on_method m c = c\<lparr>c_req := (c_req c)\<lparr>req_method := m\<rparr>, between_messages := False\<rparr>"

definition on_url_request :: "string \<Rightarrow> nat \<Rightarrow> ('d, 'r) conn \<Rightarrow> ('d, 'r) conn" where
  "on_url_request text qs c =
     (let raw = raw_url (c_req c) @ text
      in c\<lparr>qs_point := qs, between_messages := False,
           c_req := (c_req c)\<lparr>raw_url := raw, url_params := query_string_of raw True,
             url := (if qs \<noteq> 0 then take qs raw else raw)\<rparr>\<rparr>)"

definition on_header_field :: "string \<Rightarrow> ('d, 'r) conn \<Rightarrow> ('d, 'r) conn" where
  "on_header_field text c =
     (if header_building_state c = 0
      then let c1 = (if header_value c \<noteq> []
                     then c\<lparr>c_req := req_add_header (header_field c) (header_value c) (c_req c), header_field := [], header_value := []\<rparr>
                     else c)
           in c1\<lparr>header_field := text, header_building_state := 1\<rparr>
      else if header_building_state c = 1 then c\<lparr>header_field := header_field c @ text\<rparr> else c)"

definition on_header_value :: "string \<Rightarrow> ('d, 'r) conn \<Rightarrow> ('d, 'r) conn" where
  "on_header_value text c =
     (if header_building_state c = 0 then c\<lparr>header_value := header_value c @ text\<rparr>
      else if header_building_state c = 1 then c\<lparr>header_building_state := 0, header_value := text\<rparr> else c)"

text \<open>The version, the two connection flags and the upgrade flag that the byte-level parser found.\<close>

record request_line =
  http_major :: nat
  http_minor :: nat
  f_connection_keep_alive :: bool
  f_connection_close :: bool
  f_upgrade :: bool

definition set_connection_parameters :: "request_line \<Rightarrow> request \<Rightarrow> request" where
  "set_connection_parameters l req = req\<lparr>http_ver_major := http_major l, http_ver_minor := http_minor l,
     keep_alive := (if http_major l = 1 \<and> http_minor l = 0 then f_connection_keep_alive l
                    else http_major l = 1 \<and> http_minor l = 1),
     close_connection := (if http_major l = 1 \<and> http_minor l = 0 then \<not> f_connection_keep_alive l
                          else http_major l = 1 \<and> http_minor l = 1 \<and> f_connection_close l),
     upgrade := f_upgrade l\<rparr>"

definition on_headers_complete_request :: "request_line \<Rightarrow> ('d, 'r) conn \<Rightarrow> ('d, 'r) conn" where
  "on_headers_complete_request l c =
     (let c1 = (if header_field c \<noteq> []
                then c\<lparr>c_req := req_add_header (header_field c) (header_value c) (c_req c), header_field := [], header_value := []\<rparr>
                else c)
      in c1\<lparr>c_req := set_connection_parameters l (c_req c1)\<rparr>)"

definition on_body :: "string \<Rightarrow> ('d, 'r) conn \<Rightarrow> ('d, 'r) conn" where
  "on_body text c = c\<lparr>c_req := (c_req c)\<lparr>req_body := req_body (c_req c) @ text\<rparr>\<rparr>"

subsection \<open>Writing\<close>

definition statusCodes :: "(int \<times> string) list" where
  "statusCodes = map (\<lambda>(n, text). (n, ''HTTP/1.1 '' @ int_to_string n @ '' '' @ text @ CRLF))
     [(100, ''Continue''), (101, ''Switching Protocols''),
      (200, ''OK''), (201, ''Created''), (202, ''Accepted''), (203, ''Non-Authoritative Information''),
      (204, ''No Content''), (205, ''Reset Content''), (206, ''Partial Content''),
      (300, ''Multiple Choices''), (301, ''Moved Permanently''), (302, ''Found''), (303, ''See Other''),
      (304, ''Not Modified''), (307, ''Temporary Redirect''), (308, ''Permanent Redirect''),
      (400, ''Bad Request''), (401, ''Unauthorized''), (403, ''Forbidden''), (404, ''Not Found''),
      (405, ''Method Not Allowed''), (406, ''Not Acceptable''), (407, ''Proxy Authentication Required''),
      (409, ''Conflict''), (410, ''Gone''), (413, ''Payload Too Large''), (415, ''Unsupported Media Type''),
      (416, ''Range Not Satisfiable''), (417, ''Expectation Failed''), (428, ''Precondition Required''),
      (429, ''Too Many Requests''), (451, ''Unavailable For Legal Reasons''),
      (500, ''Internal Server Error''), (501, ''Not Implemented''), (502, ''Bad Gateway''),
      (503, ''Service Unavailable''), (504, ''Gateway Timeout''), (506, ''Variant Also Negotiates'')]"

definition header_line :: "string \<Rightarrow> string \<Rightarrow> string" where
  "header_line name value = name @ '': '' @ value @ CRLF"

text \<open>The status line and the headers as \<open>prepare_buffers\<close> puts them together.\<close>

definition head_text :: "settings \<Rightarrow> bool \<Rightarrow> string \<Rightarrow> response \<Rightarrow> string" where
  "head_text S add_ka status res =
     status @ concat (map (\<lambda>(k, v). header_line k v) (hdr_order S (headers res))) @
     (if \<not> manual_length_header res \<and> ci_count ''content-length'' (headers res) = 0
      then header_line ''Content-Length'' (nat_to_string (length (body res))) else []) @
     (if ci_count ''server'' (headers res) = 0 \<and> server_name S \<noteq> [] then header_line ''Server'' (server_name S) else []) @
     (if ci_count ''date'' (headers res) = 0 then header_line ''Date'' (date_str S) else []) @
     (if add_ka then ''Connection: Keep-Alive'' @ CRLF else []) @ CRLF"

text \<open>An unknown code becomes 500, and an error without a body gets the text of its status line.\<close>

definition final_response :: "response \<Rightarrow> response" where
  "final_response res =
     (let res1 = (if rcode res \<notin> fst ` set statusCodes then res\<lparr>rcode := 500\<rparr> else res);
          status = the (map_of statusCodes (rcode res1))
      in if 400 \<le> rcode res1 \<and> body res1 = [] then res1\<lparr>body := drop 9 status\<rparr> else res1)"

definition prepare_buffers :: "settings \<Rightarrow> ('d, 'r) cs \<Rightarrow> ('d, 'r) cs" where
  "prepare_buffers S cr = (case cr of (c, res) \<Rightarrow>
     let res0 = res\<lparr>complete_request_handler := False\<rparr>
     in if \<not> is_open c then (c, res0)
        else let res1 = final_response res0; status = the (map_of statusCodes (rcode res1))
             in (c\<lparr>buffers := head_text S (add_keep_alive c) status res1\<rparr>, res1))"

text \<open>A write on a closed socket reports an error and sends nothing.\<close>

definition send :: "string \<Rightarrow> ('d, 'r) conn \<Rightarrow> ('d, 'r) conn" where
  "send text c = (if is_open c then c\<lparr>sent := sent c @ text\<rparr> else c)"

definition do_write_sync :: "string \<Rightarrow> ('d, 'r) cs \<Rightarrow> ('d, 'r) cs" where
  "do_write_sync text cr = (case cr of (c, res) \<Rightarrow>
     let c1 = send text c
     in (if continue_requested c1 then c1\<lparr>continue_requested := False\<rparr> else parser_clear c1, response_clear res))"

fun write_chunks :: "string \<Rightarrow> ('d, 'r) cs \<Rightarrow> ('d, 'r) cs" where
  "write_chunks [] cr = cr"
| "write_chunks (x # xs) cr = write_chunks (drop 16384 (x # xs)) (do_write_sync (take 16384 (x # xs)) cr)"

definition close_socket :: "('d, 'r) conn \<Rightarrow> ('d, 'r) conn" where
  "close_socket c = c\<lparr>is_open := False\<rparr>"

text \<open>The end of a streamed response; no callback is installed at this point.\<close>

definition write_epilogue :: "('d, 'r) cs \<Rightarrow> ('d, 'r) cs" where
  "write_epilogue cr = (case cr of (c, res) \<Rightarrow>
     let c1 = (if close_conn c then close_socket c else c)
     in case response_end id (c1, res) of (c2, res2) \<Rightarrow> (parser_clear (c2\<lparr>buffers := []\<rparr>), response_clear res2))"

definition do_write_static :: "settings \<Rightarrow> ('d, 'r) cs \<Rightarrow> ('d, 'r) cs" where
  "do_write_static S cr = (case cr of (c, res) \<Rightarrow>
     write_epilogue
       (if stat_result res = 0 then write_chunks (file_content S (file_path res)) (send (buffers c) c, res)
        else (send (buffers c) c, res)))"

definition do_write_general :: "settings \<Rightarrow> ('d, 'r) cs \<Rightarrow> ('d, 'r) cs" where
  "do_write_general S cr = (case cr of (c, res) \<Rightarrow>
     if length (body res) < res_stream_threshold S
     then (case do_write_sync (buffers c @ body res) (c, res\<lparr>body := []\<rparr>) of (c1, res1) \<Rightarrow>
             (c1\<lparr>need_to_start_read_after_complete := False\<rparr>, res1))
     else write_epilogue (write_chunks (body res) (send (buffers c) c, res)))"

subsection \<open>The request\<close>

definition to_mw :: "('d, 'r) cs \<Rightarrow> mw_state" where
  "to_mw cr = \<lparr>ms_svc = svc_of (c_world (fst cr)), ms_res = snd cr, ms_ctx = c_ctx (fst cr), ms_clock = c_clock (fst cr)\<rparr>"

definition of_mw :: "mw_state \<Rightarrow> ('d, 'r) conn \<Rightarrow> ('d, 'r) cs" where
  "of_mw s c = (c\<lparr>c_world := (c_world c)\<lparr>svc_of := ms_svc s\<rparr>, c_ctx := ms_ctx s, c_clock := ms_clock s\<rparr>, ms_res s)"

definition complete_request :: "settings \<Rightarrow> ('d, 'r) cs \<Rightarrow> ('d, 'r) cs" where
  "complete_request S cr = (case cr of (c, res) \<Rightarrow>
     let (c1, res1) = (if need_to_call_after_handlers c
                       then of_mw (call_after_handlers (s_json S) (c_req c) (to_mw (c, res)))
                              (c\<lparr>need_to_call_after_handlers := False\<rparr>)
                       else (c, res));
         (c2, res2) = prepare_buffers S (c1, res1)
     in if is_static_type res2 then do_write_static S (c2, res2) else do_write_general S (c2, res2))"

definition handle_url :: "settings \<Rightarrow> ('d, 'r) conn router \<Rightarrow> ('d, 'r) cs \<Rightarrow> ('d, 'r) cs" where
  "handle_url S R cr = (case cr of (c, res) \<Rightarrow>
     case handle_initial R (complete_request S) (c_req c) c res of (f, c1, res1) \<Rightarrow>
       if f_rule f = 0
       then complete_request S ((parser_done (c1\<lparr>c_found := Some f\<rparr>))\<lparr>need_to_call_after_handlers := True\<rparr>, res1)
       else (c1\<lparr>c_found := Some f\<rparr>, res1))"

definition handle_header :: "('d, 'r) cs \<Rightarrow> ('d, 'r) cs" where
  "handle_header cr = (case cr of (c, res) \<Rightarrow>
     if check_version (c_req c) 1 1 \<and> get_header_value (req_headers (c_req c)) ''expect'' = ''100-continue''
     then let text = ''HTTP/1.1 100 Continue'' @ CRLF @ CRLF
          in do_write_sync text (c\<lparr>continue_requested := True, buffers := text\<rparr>, res)
     else (c, res))"

text \<open>\<open>Router::handle_upgrade\<close>; a tagged rule answers with 404, and nobody writes the response.\<close>

definition handle_upgrade :: "('d, 'r) conn router \<Rightarrow> request \<Rightarrow> ('d, 'r) cs \<Rightarrow> ('d, 'r) cs result" where
  "handle_upgrade R req cr =
     (let m = req_method req; stop = \<lambda>r. Inr (response_end id (fst cr, response_assign (snd cr) r))
      in if internal_method_count \<le> m then Inr cr
         else if \<not> matches_in R m (url req)
         then stop (response_code (if list_ex (\<lambda>i. matches_in R i (url req)) [0..<internal_method_count] then 405 else 404))
         else let i = unat (rule_index (find_in R m (url req)))
              in if length (rules (per_methods R ! m)) \<le> i then Inl (RuntimeError ''Trie internal structure corrupted!'')
                 else if i = RULE_SPECIAL_REDIRECT_SLASH
                 then stop (add_header ''Location'' (url req @ ''/'') (response_code 301))
                 else stop (response_code 404))"

definition is_h2 :: "request \<Rightarrow> bool" where
  "is_h2 req \<longleftrightarrow> is_prefix ''h2'' (req_get_header_value req ''upgrade'')"

text \<open>The part of \<open>handle\<close> after the checks of the protocol.\<close>

definition dispatch :: "settings \<Rightarrow> ('d, 'r) conn router \<Rightarrow> ('d, 'r) cs \<Rightarrow> ('d, 'r) cs result option" where
  "dispatch S R cr = (case cr of (c, res) \<Rightarrow>
     case call_middlewares (s_json S) (c_req c) (to_mw (c, res\<lparr>complete_request_handler := False\<rparr>)) of (s, _) \<Rightarrow>
       case of_mw s c of (c1, res1) \<Rightarrow>
         if completed res1 then Some (Inr (complete_request S (c1, res1)))
         else case c_found c1 of
                None \<Rightarrow> Some (Inl (UB ''null routing result''))
              | Some f \<Rightarrow>
                  map_option (\<lambda>r. bind_result r (\<lambda>(c2, res2).
                      Inr (c2, if add_keep_alive c2 then set_header ''connection'' ''Keep-Alive'' res2 else res2)))
                    (router_handle R (complete_request S) (c_req c1) f (c1\<lparr>need_to_call_after_handlers := True\<rparr>)
                       (res1\<lparr>complete_request_handler := True\<rparr>)))"

definition handle :: "settings \<Rightarrow> ('d, 'r) conn router \<Rightarrow> ('d, 'r) cs \<Rightarrow> ('d, 'r) cs result option" where
  "handle S R cr = (case cr of (c, res) \<Rightarrow>
     let req = (c_req c)\<lparr>remote_ip_address := peer_address S\<rparr>;
         c1 = c\<lparr>c_ctx := new_context, c_req := req, add_keep_alive := keep_alive req, close_conn := close_connection req\<rparr>
     in if check_version req 1 1 \<and> ci_count ''host'' (req_headers req) = 0
        then Some (Inr (complete_request S (c1\<lparr>need_to_call_after_handlers := False\<rparr>, response_assign res (response_code 400))))
        else if check_version req 1 1 \<and> upgrade req \<and> \<not> is_h2 req
        then Some (handle_upgrade R req
               (case call_middlewares (s_json S) req (to_mw (c1, res)) of (s, _) \<Rightarrow> of_mw s (c1\<lparr>close_conn := True\<rparr>)))
        else dispatch S R (c1\<lparr>need_to_call_after_handlers := False\<rparr>, res))"

subsection \<open>The events of the parser\<close>

datatype event =
  OnMethod nat
| OnUrl string nat
| OnHeaderField string
| OnHeaderValue string
| OnHeadersComplete request_line
| OnBody string
| OnMessageComplete

definition conn_event :: "settings \<Rightarrow> ('d, 'r) conn router \<Rightarrow> event \<Rightarrow> ('d, 'r) cs \<Rightarrow> ('d, 'r) cs result option" where
  "conn_event S R e cr = (case cr of (c, res) \<Rightarrow> case e of
     OnMethod m \<Rightarrow> Some (Inr (on_method m c, res))
   | OnUrl text qs \<Rightarrow> Some (Inr (handle_url S R (on_url_request text qs c, res)))
   | OnHeaderField text \<Rightarrow> Some (Inr (on_header_field text c, res))
   | OnHeaderValue text \<Rightarrow> Some (Inr (on_header_value text c, res))
   | OnHeadersComplete l \<Rightarrow> Some (Inr (handle_header (on_headers_complete_request l c, res)))
   | OnBody text \<Rightarrow> Some (Inr (on_body text c, res))
   | OnMessageComplete \<Rightarrow> handle S R (c\<lparr>message_complete := True\<rparr>, res))"

text \<open>
  The events of one buffer; the byte-level parser returns after the first callback that leaves
  its error number set.
\<close>

fun run_events :: "settings \<Rightarrow> ('d, 'r) conn router \<Rightarrow> event list \<Rightarrow> ('d, 'r) cs \<Rightarrow> ('d, 'r) cs result option" where
  "run_events S R [] cr = Some (Inr cr)"
| "run_events S R (e # es) cr =
     (if parse_error (fst cr) then Some (Inr cr) else then_do (conn_event S R e cr) (run_events S R es))"

definition feed :: "settings \<Rightarrow> ('d, 'r) conn router \<Rightarrow> event list \<Rightarrow> ('d, 'r) cs \<Rightarrow> ('d, 'r) cs result option" where
  "feed S R es cr = (if message_complete (fst cr) then Some (Inr cr) else run_events S R es cr)"

text \<open>
  What \<open>do_read\<close> does after \<open>feed\<close>: close on an error, stop when the connection is to be closed,
  read on, or wait for a handler that completes later.
\<close>

datatype next_read = Closed | Stopped | Reading | Waiting

definition after_read :: "('d, 'r) conn \<Rightarrow> next_read \<times> ('d, 'r) conn" where
  "after_read c =
     (if parse_error c \<or> \<not> is_open c then (Closed, close_socket (parser_done c))
      else if close_conn c then (Stopped, parser_done c)
      else if \<not> need_to_call_after_handlers c then (Reading, c)
      else (Waiting, c\<lparr>need_to_start_read_after_complete := True\<rparr>))"

subsection \<open>What the writing steps leave alone\<close>

definition same_service :: "('d, 'r) conn \<Rightarrow> ('d, 'r) conn \<Rightarrow> bool" where
  "same_service c c' \<longleftrightarrow> c_world c' = c_world c \<and> c_ctx c' = c_ctx c \<and> c_clock c' = c_clock c \<and>
     need_to_call_after_handlers c' = need_to_call_after_handlers c \<and> close_conn c' = close_conn c \<and>
     add_keep_alive c' = add_keep_alive c \<and> parse_error c' = parse_error c \<and> c_found c' = c_found c"

lemma same_service_refl [simp]: "same_service c c"
  by (simp add: same_service_def)

lemma same_service_trans: "same_service a b \<Longrightarrow> same_service b c \<Longrightarrow> same_service a c"
  by (simp add: same_service_def)

lemma send_same [simp]: "same_service c (send text c)"
  by (simp add: same_service_def send_def)

lemma parser_clear_same [simp]: "same_service c (parser_clear c)"
  by (simp add: same_service_def parser_clear_def)

lemma do_write_sync_same: "same_service (fst cr) (fst (do_write_sync text cr))"
  by (auto simp: do_write_sync_def same_service_def send_def parser_clear_def Let_def split: prod.splits)

lemma write_chunks_same: "same_service (fst cr) (fst (write_chunks t cr))"
proof (induction t cr rule: write_chunks.induct)
  case (2 x xs cr)
  then show ?case using do_write_sync_same same_service_trans by (metis write_chunks.simps(2))
qed simp

lemma write_epilogue_same: "same_service (fst cr) (fst (write_epilogue cr))"
  by (auto simp: write_epilogue_def response_end_def same_service_def parser_clear_def close_socket_def Let_def
      split: prod.splits if_splits)

lemma prepare_buffers_same: "same_service (fst cr) (fst (prepare_buffers S cr))"
  by (auto simp: prepare_buffers_def same_service_def Let_def split: prod.splits)

lemma do_write_static_same: "same_service (fst cr) (fst (do_write_static S cr))"
proof -
  obtain c res where cr: "cr = (c, res)" by (cases cr)
  have "same_service c (fst (write_chunks t (send (buffers c) c, res)))" for t
    using write_chunks_same [of "(send (buffers c) c, res)" t] same_service_trans [OF send_same] by simp
  then show ?thesis
    by (auto simp: cr do_write_static_def intro: same_service_trans [OF _ write_epilogue_same])
qed

lemma do_write_general_same: "same_service (fst cr) (fst (do_write_general S cr))"
proof -
  obtain c res where cr: "cr = (c, res)" by (cases cr)
  have chunks: "same_service c (fst (write_chunks t (send (buffers c) c, res)))" for t
    using write_chunks_same [of "(send (buffers c) c, res)" t] same_service_trans [OF send_same] by simp
  obtain c1 res1 where sync: "do_write_sync (buffers c @ body res) (c, res\<lparr>body := []\<rparr>) = (c1, res1)" by fastforce
  then have "same_service c c1" using do_write_sync_same [of "(c, res\<lparr>body := []\<rparr>)"] by (metis fst_conv)
  then have "same_service c (c1\<lparr>need_to_start_read_after_complete := False\<rparr>)" by (simp add: same_service_def)
  with sync chunks show ?thesis
    by (auto simp: cr do_write_general_def intro: same_service_trans [OF _ write_epilogue_same])
qed

text \<open>The state after the after-handlers, if they are due.\<close>

definition after_handlers :: "settings \<Rightarrow> ('d, 'r) cs \<Rightarrow> ('d, 'r) cs" where
  "after_handlers S cr = (if need_to_call_after_handlers (fst cr)
     then of_mw (call_after_handlers (s_json S) (c_req (fst cr)) (to_mw cr)) ((fst cr)\<lparr>need_to_call_after_handlers := False\<rparr>)
     else cr)"

lemma complete_request_split:
  "complete_request S cr = (case prepare_buffers S (after_handlers S cr) of (c, res) \<Rightarrow>
     if is_static_type res then do_write_static S (c, res) else do_write_general S (c, res))"
  by (auto simp: complete_request_def after_handlers_def Let_def split: prod.splits if_splits)

lemma complete_request_service: "same_service (fst (after_handlers S cr)) (fst (complete_request S cr))"
proof -
  obtain c res where p: "prepare_buffers S (after_handlers S cr) = (c, res)" by fastforce
  then have "same_service (fst (after_handlers S cr)) c" using prepare_buffers_same [of "after_handlers S cr" S] by simp
  then show ?thesis
    using do_write_static_same [of "(c, res)" S] do_write_general_same [of "(c, res)" S]
    by (auto simp: complete_request_split p intro: same_service_trans)
qed

lemma of_mw_simps [simp]:
  "svc_of (c_world (fst (of_mw s c))) = ms_svc s" "c_ctx (fst (of_mw s c)) = ms_ctx s" "snd (of_mw s c) = ms_res s"
  "c_found (fst (of_mw s c)) = c_found c" "c_req (fst (of_mw s c)) = c_req c" "add_keep_alive (fst (of_mw s c)) = add_keep_alive c"
  "db (c_world (fst (of_mw s c))) = db (c_world c)" "cache (c_world (fst (of_mw s c))) = cache (c_world c)"
  "need_to_call_after_handlers (fst (of_mw s c)) = need_to_call_after_handlers c" "is_open (fst (of_mw s c)) = is_open c"
  "sent (fst (of_mw s c)) = sent c" "parse_error (fst (of_mw s c)) = parse_error c" "close_conn (fst (of_mw s c)) = close_conn c"
  "c_clock (fst (of_mw s c)) = ms_clock s" "continue_requested (fst (of_mw s c)) = continue_requested c"
  by (simp_all add: of_mw_def)

lemma to_mw_simps [simp]:
  "ms_svc (to_mw cr) = svc_of (c_world (fst cr))" "ms_res (to_mw cr) = snd cr" "ms_ctx (to_mw cr) = c_ctx (fst cr)"
  "ms_clock (to_mw cr) = c_clock (fst cr)"
  by (simp_all add: to_mw_def)

subsection \<open>The bytes of a response\<close>

text \<open>
  An open connection gets the status line, the headers and the body, in that order, and the
  announced length is the length of the body.
\<close>

lemma response_clear_flags [simp]:
  "skip_body (response_clear r) = skip_body r" "manual_length_header (response_clear r) = manual_length_header r"
  "complete_request_handler (response_clear r) = complete_request_handler r" "\<not> completed (response_clear r)"
  "headers (response_clear r) = []" "rcode (response_clear r) = 200" "body (response_clear r) = []"
  by (simp_all add: response_clear_def)

lemma write_chunks_sent:
  "is_open (fst cr) \<Longrightarrow> sent (fst (write_chunks t cr)) = sent (fst cr) @ t \<and> is_open (fst (write_chunks t cr))"
proof (induction t cr rule: write_chunks.induct)
  case (2 x xs cr)
  obtain c res where cr: "cr = (c, res)" by (cases cr)
  have "is_open (fst (do_write_sync (take 16384 (x # xs)) cr))"
    "sent (fst (do_write_sync (take 16384 (x # xs)) cr)) = sent c @ take 16384 (x # xs)"
    using 2(2) by (auto simp: cr do_write_sync_def send_def parser_clear_def Let_def)
  with 2 show ?case by (simp add: cr)
qed simp

lemma write_epilogue_sent: "sent (fst (write_epilogue cr)) = sent (fst cr)"
  by (auto simp: write_epilogue_def response_end_def parser_clear_def close_socket_def Let_def split: prod.splits if_splits)

lemma do_write_general_sent:
  assumes "is_open c"
  shows "sent (fst (do_write_general S (c, res))) = sent c @ buffers c @ body res"
proof (cases "length (body res) < res_stream_threshold S")
  case True
  with assms show ?thesis
    by (auto simp: do_write_general_def do_write_sync_def send_def parser_clear_def Let_def split: prod.splits)
next
  case False
  with assms show ?thesis
    by (simp add: do_write_general_def write_epilogue_sent write_chunks_sent send_def)
qed

text \<open>The bytes of a response: its head, and then the file it names or its body.\<close>

definition payload :: "settings \<Rightarrow> response \<Rightarrow> string" where
  "payload S r = (if is_static_type r then (if stat_result r = 0 then file_content S (file_path r) else []) else body r)"

lemma do_write_static_sent:
  assumes "is_open c" "is_static_type res"
  shows "sent (fst (do_write_static S (c, res))) = sent c @ buffers c @ payload S res"
  using assms by (simp add: do_write_static_def write_epilogue_sent write_chunks_sent send_def payload_def)

definition response_text :: "settings \<Rightarrow> bool \<Rightarrow> response \<Rightarrow> string" where
  "response_text S ka res =
     (let r = final_response res in head_text S ka (the (map_of statusCodes (rcode r))) r @ payload S r)"

lemma payload_handler [simp]: "payload S (r\<lparr>complete_request_handler := b\<rparr>) = payload S r"
  by (simp add: payload_def is_static_type_def)

lemma final_response_handler:
  "final_response (res\<lparr>complete_request_handler := b\<rparr>) = (final_response res)\<lparr>complete_request_handler := b\<rparr>"
  by (simp add: final_response_def Let_def)

lemma head_text_handler [simp]: "head_text S ka st (res\<lparr>complete_request_handler := b\<rparr>) = head_text S ka st res"
  by (simp add: head_text_def)

lemma complete_request_sent:
  assumes "is_open (fst cr)"
  shows "sent (fst (complete_request S cr)) =
    sent (fst cr) @ response_text S (add_keep_alive (fst cr)) (snd (after_handlers S cr))"
proof -
  obtain c res where a: "after_handlers S cr = (c, res)" by fastforce
  then have c: "is_open c" "sent c = sent (fst cr)" "add_keep_alive c = add_keep_alive (fst cr)"
    using assms(1) by (auto simp: after_handlers_def of_mw_def split: if_splits)
  let ?r = "final_response res"
  have p: "prepare_buffers S (c, res) =
      (c\<lparr>buffers := head_text S (add_keep_alive c) (the (map_of statusCodes (rcode ?r))) ?r\<rparr>, ?r\<lparr>complete_request_handler := False\<rparr>)"
    using c(1) by (simp add: prepare_buffers_def final_response_handler)
  let ?f = "?r\<lparr>complete_request_handler := False\<rparr>"
  have "payload S ?r = body ?r" if "\<not> is_static_type ?f"
    using that by (simp add: payload_def is_static_type_def)
  with a p c show ?thesis
    by (simp add: complete_request_split do_write_general_sent do_write_static_sent response_text_def Let_def)
qed

subsection \<open>A connection that waits for a request\<close>

text \<open>
  The state between two requests of a connection that stays open: nothing of a message is stored,
  no error and no callback is pending, and the response object is a cleared one.
\<close>

definition idle :: "('d, 'r) cs \<Rightarrow> bool" where
  "idle cr \<longleftrightarrow> (case cr of (c, res) \<Rightarrow>
     parser_clear c = c \<and> is_open c \<and> \<not> parse_error c \<and> \<not> continue_requested c \<and> \<not> need_to_call_after_handlers c \<and>
     \<not> completed res \<and> \<not> skip_body res \<and> \<not> manual_length_header res \<and> \<not> complete_request_handler res \<and> file_path res = [])"

lemma idle_new: "idle (new_conn w ts, new_response)"
  by (simp add: idle_def new_conn_def parser_clear_def new_response_def)

lemma parser_clear_simps [simp]:
  "parser_clear (parser_clear c) = parser_clear c" "is_open (parser_clear c) = is_open c"
  "parse_error (parser_clear c) = parse_error c" "continue_requested (parser_clear c) = continue_requested c"
  "close_conn (parser_clear c) = close_conn c"
  "parser_clear (c\<lparr>need_to_start_read_after_complete := b\<rparr>) = (parser_clear c)\<lparr>need_to_start_read_after_complete := b\<rparr>"
  by (simp_all add: parser_clear_def)

text \<open>What the writing steps keep of an open connection.\<close>

definition open_still :: "('d, 'r) conn \<Rightarrow> bool" where
  "open_still c \<longleftrightarrow> is_open c \<and> \<not> parse_error c \<and> \<not> continue_requested c \<and> \<not> close_conn c"

lemma do_write_sync_open:
  "open_still (fst cr) \<Longrightarrow> complete_request_handler (snd (do_write_sync t cr)) = complete_request_handler (snd cr) \<and>
     open_still (fst (do_write_sync t cr))"
  by (auto simp: open_still_def do_write_sync_def send_def Let_def split: prod.splits)

lemma write_chunks_open:
  "open_still (fst cr) \<Longrightarrow> complete_request_handler (snd (write_chunks t cr)) = complete_request_handler (snd cr) \<and>
     open_still (fst (write_chunks t cr))"
proof (induction t cr rule: write_chunks.induct)
  case (2 x xs cr)
  with do_write_sync_open [of cr "take 16384 (x # xs)"] show ?case by simp
qed simp

lemma write_epilogue_open:
  assumes "open_still c" "\<not> complete_request_handler res"
  shows "open_still (fst (write_epilogue (c, res)))" "parser_clear (fst (write_epilogue (c, res))) = fst (write_epilogue (c, res))"
    "\<not> completed (snd (write_epilogue (c, res)))" "file_path (snd (write_epilogue (c, res))) = []"
    "\<not> complete_request_handler (snd (write_epilogue (c, res)))"
  using assms by (simp_all add: write_epilogue_def response_end_def open_still_def response_clear_def set_header_def Let_def)

lemma do_write_general_open:
  assumes "open_still c" "\<not> complete_request_handler res"
  obtains c' r where "do_write_general S (c, res) = (c', r)" "open_still c'" "parser_clear c' = c'" "\<not> completed r" "file_path r = []"
    "\<not> complete_request_handler r"
proof (cases "length (body res) < res_stream_threshold S")
  case True
  with assms that show thesis
    by (auto simp: do_write_general_def do_write_sync_def send_def open_still_def response_clear_def Let_def split: prod.splits)
next
  case False
  have "open_still (fst (send (buffers c) c, res))" using assms(1) by (simp add: open_still_def send_def)
  from write_chunks_open [OF this, of "body res"] assms(2) obtain c1 r1 where
    "write_chunks (body res) (send (buffers c) c, res) = (c1, r1)" "open_still c1" "\<not> complete_request_handler r1"
    by (metis prod.collapse snd_conv)
  with write_epilogue_open [of c1 r1] False that show thesis by (simp add: do_write_general_def) (metis prod.collapse)
qed

lemma do_write_static_open:
  assumes "open_still c" "\<not> complete_request_handler res"
  obtains c' r where "do_write_static S (c, res) = (c', r)" "open_still c'" "parser_clear c' = c'" "\<not> completed r" "file_path r = []"
    "\<not> complete_request_handler r"
proof -
  have "open_still (fst (send (buffers c) c, res))" using assms(1) by (simp add: open_still_def send_def)
  from this write_chunks_open [OF this, of "file_content S (file_path res)"] assms(2) obtain c1 r1 where
    "(if stat_result res = 0 then write_chunks (file_content S (file_path res)) (send (buffers c) c, res) else (send (buffers c) c, res))
       = (c1, r1)" "open_still c1" "\<not> complete_request_handler r1"
    by (cases "stat_result res = 0") (simp_all, metis prod.collapse)
  with write_epilogue_open [of c1 r1] that show thesis by (simp add: do_write_static_def) (metis prod.collapse)
qed

lemma complete_request_idle:
  assumes "open_still (fst cr)"
  obtains c r where "complete_request S cr = (c, r)" "idle (c, r\<lparr>manual_length_header := False, skip_body := False\<rparr>)"
    "\<not> close_conn c"
proof -
  obtain c0 res0 where a: "after_handlers S cr = (c0, res0)" by fastforce
  then have "open_still c0" using assms(1) by (auto simp: after_handlers_def of_mw_def open_still_def split: if_splits)
  moreover obtain c1 res1 where p: "prepare_buffers S (c0, res0) = (c1, res1)" by fastforce
  ultimately have "open_still c1" "\<not> complete_request_handler res1"
    by (auto simp: prepare_buffers_def open_still_def final_response_handler Let_def)
  then obtain c r where "(if is_static_type res1 then do_write_static S (c1, res1) else do_write_general S (c1, res1)) = (c, r)"
    "open_still c" "parser_clear c = c" "\<not> completed r" "file_path r = []" "\<not> complete_request_handler r"
    using do_write_general_open do_write_static_open by metis
  moreover from this(1) have fin: "complete_request S cr = (c, r)"
    using a p by (simp add: complete_request_split)
  moreover have "\<not> need_to_call_after_handlers (fst (complete_request S cr))"
    using complete_request_service [of S cr] by (auto simp: same_service_def after_handlers_def split: if_splits)
  ultimately show thesis by (intro that [OF fin]) (auto simp: idle_def open_still_def)
qed

subsection \<open>The counters over a request\<close>

abbreviation svc_in :: "('d, 'r) conn \<Rightarrow> svc" where "svc_in c \<equiv> svc_of (c_world c)"

abbreviation in_flight :: "('d, 'r) conn \<Rightarrow> i32" where "in_flight c \<equiv> in_flight_requests (svc_in c)"

lemma after_handlers_due:
  assumes "need_to_call_after_handlers (fst cr)"
  shows "in_flight (fst (after_handlers S cr)) = in_flight (fst cr) - (if counted_inflight (c_ctx (fst cr)) then 1 else 0)"
    "total_requests (svc_in (fst (after_handlers S cr))) = total_requests (svc_in (fst cr)) + 1"
    "request_duration_samples (svc_in (fst (after_handlers S cr))) = request_duration_samples (svc_in (fst cr)) + 1"
    "c_ctx (fst (after_handlers S cr)) = c_ctx (fst cr)"
    "db (c_world (fst (after_handlers S cr))) = db (c_world (fst cr))"
    "cache (c_world (fst (after_handlers S cr))) = cache (c_world (fst cr))"
    "\<not> need_to_call_after_handlers (fst (after_handlers S cr))"
    "snd (after_handlers S cr) = ms_res (error_after (s_json S) (c_req (fst cr)) (to_mw cr))"
    "policy (svc_in (fst (after_handlers S cr))) = policy (svc_in (fst cr))"
  using assms by (simp_all add: after_handlers_def call_after_handlers_chain policy_def)

lemma after_handlers_not_due: "\<not> need_to_call_after_handlers (fst cr) \<Longrightarrow> after_handlers S cr = cr"
  by (simp add: after_handlers_def)

lemma complete_request_counters:
  "c_world (fst (complete_request S cr)) = c_world (fst (after_handlers S cr))"
  "c_ctx (fst (complete_request S cr)) = c_ctx (fst (after_handlers S cr))"
  "parse_error (fst (complete_request S cr)) = parse_error (fst (after_handlers S cr))"
  "add_keep_alive (fst (complete_request S cr)) = add_keep_alive (fst (after_handlers S cr))"
  using complete_request_service [of S cr] by (simp_all add: same_service_def)

lemma after_handlers_flags:
  "parse_error (fst (after_handlers S cr)) = parse_error (fst cr)"
  "add_keep_alive (fst (after_handlers S cr)) = add_keep_alive (fst cr)"
  by (simp_all add: after_handlers_def)

text \<open>The response as \<open>end\<close> hands it to the connection.\<close>

definition sealed :: "response \<Rightarrow> response" where
  "sealed res = (let r = res\<lparr>completed := True\<rparr>
     in if skip_body r
        then (set_header ''Content-Length'' (nat_to_string (length (body r))) r)\<lparr>body := [], manual_length_header := True\<rparr>
        else r)"

lemma sealed_simps [simp]:
  "file_path (sealed res) = file_path res" "rcode (sealed res) = rcode res" "completed (sealed res)"
  by (simp_all add: sealed_def Let_def)

lemma response_end_sealed:
  assumes "\<not> completed res" "complete_request_handler res"
  shows "response_end k (w, res) = (case k (w, sealed res) of (w', r) \<Rightarrow> (w', r\<lparr>manual_length_header := False, skip_body := False\<rparr>))"
  using assms by (simp add: response_end_def sealed_def Let_def)

text \<open>A routing result that names a rule with a handler.\<close>

definition names_handler :: "'w router \<Rightarrow> found \<Rightarrow> 'w handler \<Rightarrow> bool" where
  "names_handler R f h \<longleftrightarrow> (\<exists>m r. f_method f = Some m \<and> m < internal_method_count \<and>
     f_rule f < length (rules (per_methods R ! m)) \<and> f_rule f \<noteq> RULE_SPECIAL_REDIRECT_SLASH \<and>
     rules (per_methods R ! m) ! f_rule f = Some r \<and> r_handler r = Some h)"

lemma router_handle_names:
  "names_handler R f h \<Longrightarrow> router_handle R k req f w res = wrapped_handler_call h k req (f_params f) w res"
  by (auto simp: names_handler_def router_handle_def)

text \<open>What the handler gets to see and what it gives back, as a response of its own.\<close>

definition handler_response :: "response result \<Rightarrow> response \<Rightarrow> response" where
  "handler_response r res = (case r of Inr q \<Rightarrow> response_assign res q | Inl e \<Rightarrow> default_exception_handler e res)"

lemma wrapped_handler_call_ends:
  assumes "h req ps w = Some (w', r)" "\<forall>what. r \<noteq> Inl (UB what)"
  shows "wrapped_handler_call h k req ps w res = Some (Inr (response_end k (w', handler_response r res)))"
proof (cases r)
  case (Inl e)
  with assms show ?thesis by (cases e) (simp_all add: wrapped_handler_call_def handler_response_def)
qed (use assms in \<open>simp add: wrapped_handler_call_def handler_response_def\<close>)

lemma handler_response_simps:
  assumes "\<forall>q. r = Inr q \<longrightarrow> \<not> completed q"
  shows "\<not> completed (handler_response r res)"
    "complete_request_handler (handler_response r res) = complete_request_handler res"
    "skip_body (handler_response r res) = skip_body res"
  using assms by (cases r; auto simp: handler_response_def default_exception_handler_def response_assign_def response_code_def
      new_response_def split: exn.splits)+

definition error_filled :: "json_impl \<Rightarrow> response \<Rightarrow> response" where
  "error_filled J res = (if 400 \<le> rcode res \<and> body res = []
     then (set_header ''Content-Type'' ''application/json'' res)\<lparr>body := error_body J (rcode res)\<rparr> else res)"

lemma error_after_filled: "ms_res (error_after J req s) = error_filled J (ms_res s)"
  by (simp add: error_after_def error_filled_def)

text \<open>The connection as the handler finds it.\<close>

definition entered :: "settings \<Rightarrow> ('d, 'r) conn \<Rightarrow> response \<Rightarrow> ('d, 'r) conn" where
  "entered S c res =
     (fst (of_mw (fst (call_middlewares (s_json S) (c_req c) (to_mw (c, res\<lparr>complete_request_handler := False\<rparr>)))) c))
       \<lparr>need_to_call_after_handlers := True\<rparr>"

lemma entered_simps:
  assumes "\<not> completed res" "admitted (c_req c) (svc_in c)"
  shows "svc_in (entered S c res) = (svc_in c)\<lparr>in_flight_requests :=
       in_flight c + (if is_probe_path (url (c_req c)) then 0 else 1)\<rparr>"
    "counted_inflight (c_ctx (entered S c res)) = (if is_probe_path (url (c_req c)) then counted_inflight (c_ctx c) else True)"
    "snd (call_middlewares (s_json S) (c_req c) (to_mw (c, res\<lparr>complete_request_handler := False\<rparr>))) = False"
    "ms_res (fst (call_middlewares (s_json S) (c_req c) (to_mw (c, res\<lparr>complete_request_handler := False\<rparr>)))) =
       res\<lparr>complete_request_handler := False\<rparr>"
    "c_req (entered S c res) = c_req c" "need_to_call_after_handlers (entered S c res)" "is_open (entered S c res) = is_open c"
    "sent (entered S c res) = sent c" "add_keep_alive (entered S c res) = add_keep_alive c"
    "db (c_world (entered S c res)) = db (c_world c)" "cache (c_world (entered S c res)) = cache (c_world c)"
proof -
  let ?s = "to_mw (c, res\<lparr>complete_request_handler := False\<rparr>)"
  obtain s' where "call_middlewares (s_json S) (c_req c) ?s = (s', False)" "ms_res s' = ms_res ?s"
    "ms_svc s' = (ms_svc ?s)\<lparr>in_flight_requests := in_flight_requests (ms_svc ?s) + (if is_probe_path (url (c_req c)) then 0 else 1)\<rparr>"
    "counted_inflight (ms_ctx s') = (if is_probe_path (url (c_req c)) then counted_inflight (ms_ctx ?s) else True)"
    by (rule call_middlewares_pass [of ?s "c_req c" "s_json S"]) (use assms in simp_all)
  then show "svc_in (entered S c res) = (svc_in c)\<lparr>in_flight_requests :=
       in_flight c + (if is_probe_path (url (c_req c)) then 0 else 1)\<rparr>"
    "counted_inflight (c_ctx (entered S c res)) = (if is_probe_path (url (c_req c)) then counted_inflight (c_ctx c) else True)"
    "snd (call_middlewares (s_json S) (c_req c) ?s) = False"
    "ms_res (fst (call_middlewares (s_json S) (c_req c) ?s)) = res\<lparr>complete_request_handler := False\<rparr>"
    by (simp_all add: entered_def)
qed (simp_all add: entered_def)

lemma dispatch_served:
  fixes S :: settings and c :: "('d, 'r) conn" and res :: response
  defines "c1 \<equiv> entered S c res"
  assumes found: "c_found c = Some f" "names_handler R f h"
    and fresh: "\<not> completed res" "\<not> counted_inflight (c_ctx c)" "is_open c"
    and adm: "admitted (c_req c) (svc_in c)"
    and h: "h (c_req c) (f_params f) c1 = Some (c1\<lparr>c_world := w\<rparr>, r)" "\<forall>what. r \<noteq> Inl (UB what)"
      "\<forall>q. r = Inr q \<longrightarrow> \<not> completed q"
    and keeps: "in_flight_requests (svc_of w) = in_flight c1"
  obtains c' res' where "dispatch S R (c, res) = Some (Inr (c', res'))" "in_flight c' = in_flight c"
    "total_requests (svc_in c') = total_requests (svc_of w) + 1" "db (c_world c') = db w" "cache (c_world c') = cache w"
    "sent c' = sent c @ response_text S (add_keep_alive c) (error_filled (s_json S) (sealed (handler_response r res)))"
    "policy (svc_in c') = policy (svc_of w)" "open_still c \<Longrightarrow> idle (c', res') \<and> \<not> close_conn c'"
proof -
  note entered = entered_simps [OF fresh(1) adm, of S, folded c1_def]
  define kept :: "('d, 'r) conn \<Rightarrow> response \<Rightarrow> response" where
    "kept = (\<lambda>c2 q. if add_keep_alive c2 then set_header ''connection'' ''Keep-Alive'' (q\<lparr>manual_length_header := False, skip_body := False\<rparr>)
       else q\<lparr>manual_length_header := False, skip_body := False\<rparr>)"
  let ?res = "res\<lparr>complete_request_handler := True\<rparr>"
  let ?c2 = "c1\<lparr>c_world := w\<rparr>"
  let ?cr = "(?c2, sealed (handler_response r ?res))"
  obtain s where s: "call_middlewares (s_json S) (c_req c) (to_mw (c, res\<lparr>complete_request_handler := False\<rparr>)) = (s, False)"
    "ms_res s = res\<lparr>complete_request_handler := False\<rparr>" using entered(3,4) by (metis prod.collapse fst_conv)
  have c1: "(fst (of_mw s c))\<lparr>need_to_call_after_handlers := True\<rparr> = c1" by (simp add: c1_def entered_def s)
  have "c_req (fst (of_mw s c)) = c_req c" "c_found (fst (of_mw s c)) = Some f" using found by simp_all
  then have "dispatch S R (c, res) = map_option (\<lambda>r. bind_result r (\<lambda>(c2, res2).
       Inr (c2, if add_keep_alive c2 then set_header ''connection'' ''Keep-Alive'' res2 else res2)))
     (router_handle R (complete_request S) (c_req c) f c1 ?res)"
    using s fresh(1) c1 by (simp add: dispatch_def case_prod_unfold)
  also have "router_handle R (complete_request S) (c_req c) f c1 ?res =
      Some (Inr (response_end (complete_request S) (?c2, handler_response r ?res)))"
    using router_handle_names [OF found(2)] wrapped_handler_call_ends [of h "c_req c" "f_params f" c1 ?c2 r] h(1,2) by simp
  also have "response_end (complete_request S) (?c2, handler_response r ?res) =
      (case complete_request S ?cr of (w', q) \<Rightarrow> (w', q\<lparr>manual_length_header := False, skip_body := False\<rparr>))"
    using handler_response_simps [OF h(3), of ?res] by (intro response_end_sealed) simp_all
  finally have "dispatch S R (c, res) = Some (Inr (fst (complete_request S ?cr), kept (fst (complete_request S ?cr)) (snd (complete_request S ?cr))))"
    by (simp add: case_prod_unfold kept_def)
  then obtain res' where d: "dispatch S R (c, res) = Some (Inr (fst (complete_request S ?cr), res'))"
    and res': "res' = kept (fst (complete_request S ?cr)) (snd (complete_request S ?cr))"
    by blast
  have due: "need_to_call_after_handlers (fst ?cr)" using entered(6) by simp
  have same: "sealed (handler_response r ?res) = (sealed (handler_response r res))\<lparr>complete_request_handler := True\<rparr>"
    by (cases r) (simp_all add: handler_response_def sealed_def response_assign_def default_exception_handler_def set_header_def
        Let_def split: exn.split)
  show thesis
  proof (rule that [OF d])
    show "in_flight (fst (complete_request S ?cr)) = in_flight c"
      using after_handlers_due(1) [OF due] entered(1,2) keeps fresh(2) by (simp add: complete_request_counters)
    show "total_requests (svc_in (fst (complete_request S ?cr))) = total_requests (svc_of w) + 1"
      using after_handlers_due(2) [OF due] by (simp add: complete_request_counters)
    show "db (c_world (fst (complete_request S ?cr))) = db w" "cache (c_world (fst (complete_request S ?cr))) = cache w"
      using after_handlers_due(5,6) [OF due] by (simp_all add: complete_request_counters)
    show "policy (svc_in (fst (complete_request S ?cr))) = policy (svc_of w)"
      using after_handlers_due(9) [OF due] by (simp add: complete_request_counters)
    show "idle (fst (complete_request S ?cr), res') \<and> \<not> close_conn (fst (complete_request S ?cr))" if "open_still c"
    proof -
      have "open_still (fst ?cr)" using that by (simp add: open_still_def c1_def entered_def)
      then obtain c2 q where q: "complete_request S ?cr = (c2, q)" "\<not> close_conn c2"
        "idle (c2, q\<lparr>manual_length_header := False, skip_body := False\<rparr>)" using complete_request_idle by blast
      have "idle (c2, kept c2 q)" using q(3) by (simp add: kept_def idle_def set_header_def)
      with q(1,2) show ?thesis by (simp only: res' fst_conv snd_conv) simp
    qed
    have "snd (after_handlers S ?cr) = (error_filled (s_json S) (sealed (handler_response r res)))\<lparr>complete_request_handler := True\<rparr>"
      using after_handlers_due(8) [OF due] same by (simp add: error_after_filled error_filled_def set_header_def)
    moreover have "response_text S ka (q\<lparr>complete_request_handler := True\<rparr>) = response_text S ka q" for ka q
      by (simp add: response_text_def final_response_handler Let_def)
    ultimately show "sent (fst (complete_request S ?cr)) =
        sent c @ response_text S (add_keep_alive c) (error_filled (s_json S) (sealed (handler_response r res)))"
      using complete_request_sent [of ?cr S] fresh(3) entered by simp
  qed
qed

lemma dispatch_rejected:
  assumes fresh: "\<not> completed res" "\<not> counted_inflight (c_ctx c)" "is_open c" "\<not> need_to_call_after_handlers c"
    and adm: "\<not> admitted (c_req c) (svc_in c)"
  obtains c' res' q where "dispatch S R (c, res) = Some (Inr (c', res'))" "in_flight c' = in_flight c"
    "total_requests (svc_in c') = total_requests (svc_in c) + 1"
    "db (c_world c') = db (c_world c)" "cache (c_world c') = cache (c_world c)"
    "sent c' = sent c @ response_text S (add_keep_alive c) q"
    "rcode q = (if shutting_down (svc_in c) \<or> over_limit (svc_in c) then 503 else 401)"
proof -
  let ?s = "to_mw (c, res\<lparr>complete_request_handler := False\<rparr>)"
  obtain s where s: "call_middlewares (s_json S) (c_req c) ?s = (s, True)"
    "in_flight_requests (ms_svc s) = in_flight c" "total_requests (ms_svc s) = total_requests (svc_in c) + 1"
    "rcode (ms_res s) = (if shutting_down (svc_in c) \<or> over_limit (svc_in c) then 503 else 401)" "completed (ms_res s)"
    by (rule call_middlewares_reject [of ?s "c_req c" "s_json S"]) (use fresh adm in simp_all)
  let ?cr = "of_mw s c"
  have d: "dispatch S R (c, res) = Some (Inr (fst (complete_request S ?cr), snd (complete_request S ?cr)))"
    using s(1,5) by (cases "of_mw s c") (auto simp: dispatch_def of_mw_def)
  have a: "after_handlers S ?cr = ?cr" using fresh(4) by (intro after_handlers_not_due) simp
  then have "sent (fst (complete_request S ?cr)) = sent c @ response_text S (add_keep_alive c) (ms_res s)"
    using complete_request_sent [of ?cr S] fresh(3) a by simp
  then show thesis using d s(2-4) a by (intro that [OF d, of "ms_res s"]) (simp_all add: complete_request_counters)
qed

subsection \<open>Urls without a route\<close>

text \<open>
  The response to a url without a route is written at once, and the after-handlers run on the
  context that the previous request of the connection left. The parser is put into an error
  state, so the connection is closed after the read.
\<close>

definition unrouted :: "('d, 'r) conn router \<Rightarrow> request \<Rightarrow> bool" where
  "unrouted R req \<longleftrightarrow> (\<forall>m < internal_method_count. \<not> matches_in R m (url req))"

lemma handle_initial_unrouted:
  assumes "unrouted R req" "\<not> complete_request_handler res" "\<not> completed res"
  obtains f r where "handle_initial R k req w res = (f, w, r)" "f_rule f = 0"
proof -
  have none: "filter (\<lambda>m. matches_in R m (url req)) [0..<internal_method_count] = []"
    using assms(1) by (auto simp: unrouted_def filter_empty_conv)
  have zero: "\<not> matches_in R m (url req)" "rule_index (find_in R m (url req)) = 0" if "m < internal_method_count" for m
    using assms(1) that by (simp_all add: unrouted_def matches_in_def)
  have get: "\<not> matches_in R 1 (url req)" "rule_index (find_in R 1 (url req)) = 0"
    by (rule zero; simp add: internal_method_count_def)+
  have e: "\<exists>r. end_with k w q f = (f, w, r)" if "\<not> complete_request_handler q" for q f
    using that by (simp add: end_with_def response_end_def Let_def)
  have keep: "\<not> complete_request_handler (response_assign res q)" "\<not> complete_request_handler (get_error n res)"
    "\<not> complete_request_handler (set_header a b (response_assign res q))" for q n a b
    using assms(2) by (simp_all add: get_error_def)
  have "\<exists>f r. handle_initial R k req w res = (f, w, r) \<and> f_rule f = 0"
  proof (cases "internal_method_count \<le> req_method req")
    case True
    then show ?thesis by (simp add: handle_initial_def nothing_found_def Let_def)
  next
    case False
    then have m: "\<not> matches_in R (req_method req) (url req)" "rule_index (find_in R (req_method req) (url req)) = 0"
      using zero by simp_all
    have opt: "\<exists>f r. handle_options R k req w res = (f, w, r) \<and> f_rule f = 0"
      using e [OF keep(3)] e [OF keep(1)] none by (fastforce simp: handle_options_def nothing_found_def)
    show ?thesis using False m get opt e [OF keep(1)] e [OF keep(2)]
      by (fastforce simp: handle_initial_def found_result_def Let_def)
  qed
  then show thesis using that by blast
qed

lemma handle_url_unrouted:
  assumes "unrouted R (c_req c)" "\<not> complete_request_handler res" "\<not> completed res"
    "\<not> message_complete c" "\<not> between_messages c"
  shows "in_flight (fst (handle_url S R (c, res))) = in_flight c - (if counted_inflight (c_ctx c) then 1 else 0)"
    "parse_error (fst (handle_url S R (c, res)))"
    "total_requests (svc_in (fst (handle_url S R (c, res)))) = total_requests (svc_in c) + 1"
proof -
  obtain f r where f: "handle_initial R (complete_request S) (c_req c) c res = (f, c, r)" "f_rule f = 0"
    using handle_initial_unrouted [OF assms(1-3)] by metis
  let ?c = "(parser_done (c\<lparr>c_found := Some f\<rparr>))\<lparr>need_to_call_after_handlers := True\<rparr>"
  have h: "handle_url S R (c, res) = complete_request S (?c, r)" using f by (simp add: handle_url_def)
  have c: "c_world ?c = c_world c" "c_ctx ?c = c_ctx c" "parse_error ?c" using assms(4,5) by (simp_all add: parser_done_def)
  have due: "need_to_call_after_handlers (fst (?c, r))" by simp
  show "in_flight (fst (handle_url S R (c, res))) = in_flight c - (if counted_inflight (c_ctx c) then 1 else 0)"
    "total_requests (svc_in (fst (handle_url S R (c, res)))) = total_requests (svc_in c) + 1"
    using after_handlers_due(1,2) [OF due, of S] c(1,2) unfolding h complete_request_counters by (simp_all only: fst_conv)
  show "parse_error (fst (handle_url S R (c, res)))"
    unfolding h complete_request_counters after_handlers_flags using c(3) by simp
qed

subsection \<open>Upgrade requests\<close>

text \<open>
  A request with an \<open>Upgrade\<close> header runs through the chain and is then dropped: no after-handler,
  no response.
\<close>

lemma handle_upgrade_keeps:
  assumes "handle_upgrade R req cr = Inr cr'" "\<not> complete_request_handler (snd cr)"
  shows "fst cr' = fst cr"
  using assms by (auto simp: handle_upgrade_def response_end_def Let_def split: if_splits)

lemma call_middlewares_handler:
  "complete_request_handler (ms_res (fst (call_middlewares J req s))) = complete_request_handler (ms_res s)"
proof -
  have mw: "complete_request_handler (ms_res (mw_end s')) = complete_request_handler (ms_res s')" for s'
    by (simp add: mw_end_def response_end_def Let_def)
  show ?thesis
    by (simp add: call_middlewares_chain lifecycle_before_def reject_def auth_before_def error_after_def res_write_def mw Let_def)
qed

lemma handle_upgrade_leak:
  fixes c :: "('d, 'r) conn"
  assumes "check_version (c_req c) 1 1" "ci_count ''host'' (req_headers (c_req c)) \<noteq> 0" "upgrade (c_req c)" "\<not> is_h2 (c_req c)"
    "\<not> completed res" "\<not> complete_request_handler res" "admitted (c_req c) (svc_in c)" "\<not> is_probe_path (url (c_req c))"
    "handle S R (c, res) = Some (Inr (c', res'))"
  shows "in_flight c' = in_flight c + 1" "sent c' = sent c" "close_conn c'"
proof -
  let ?req = "(c_req c)\<lparr>remote_ip_address := peer_address S\<rparr>"
  let ?c1 = "c\<lparr>c_ctx := new_context, c_req := ?req, add_keep_alive := keep_alive ?req, close_conn := close_connection ?req\<rparr>"
  let ?s = "to_mw (?c1, res)"
  have adm: "admitted ?req (ms_svc ?s)" using assms(7) by (simp add: admitted_def authorized_def req_get_header_value_def)
  obtain s where s: "call_middlewares (s_json S) ?req ?s = (s, False)" "ms_res s = ms_res ?s"
    "ms_svc s = (ms_svc ?s)\<lparr>in_flight_requests := in_flight_requests (ms_svc ?s) + (if is_probe_path (url ?req) then 0 else 1)\<rparr>"
    by (rule call_middlewares_pass [OF _ adm, of "s_json S"]) (use assms(5) in simp_all)
  have "check_version ?req 1 1" "ci_count ''host'' (req_headers ?req) \<noteq> 0" "upgrade ?req" "\<not> is_h2 ?req"
    using assms(1-4) by (simp_all add: check_version_def is_h2_def req_get_header_value_def)
  then have "handle S R (c, res) = Some (handle_upgrade R ?req (of_mw s (?c1\<lparr>close_conn := True\<rparr>)))"
    using s(1) by (simp add: handle_def Let_def)
  then have "handle_upgrade R ?req (of_mw s (?c1\<lparr>close_conn := True\<rparr>)) = Inr (c', res')" using assms(9) by simp
  then have "c' = fst (of_mw s (?c1\<lparr>close_conn := True\<rparr>))"
    using handle_upgrade_keeps s(2) assms(6) by (metis fst_conv of_mw_simps(3) snd_conv to_mw_simps(2))
  then show "in_flight c' = in_flight c + 1" "sent c' = sent c" "close_conn c'" using s(3) assms(8) by simp_all
qed

subsection \<open>Header callbacks\<close>

text \<open>
  The byte-level parser may deliver a header name or value in several pieces; the callbacks put
  them together again.
\<close>

definition header_events :: "string list \<Rightarrow> string list \<Rightarrow> ('d, 'r) conn \<Rightarrow> ('d, 'r) conn" where
  "header_events fs vs c = fold on_header_value vs (fold on_header_field fs c)"

lemma on_header_field_pieces:
  "header_building_state c = 1 \<Longrightarrow> fold on_header_field fs c = c\<lparr>header_field := header_field c @ concat fs\<rparr>"
  by (induction fs arbitrary: c) (simp_all add: on_header_field_def)

lemma on_header_value_pieces:
  "header_building_state c = 0 \<Longrightarrow> fold on_header_value vs c = c\<lparr>header_value := header_value c @ concat vs\<rparr>"
  by (induction vs arbitrary: c) (simp_all add: on_header_value_def)

lemma header_events_joined:
  assumes "header_building_state c = 0" "fs \<noteq> []" "vs \<noteq> []"
  shows "header_events fs vs c = header_events [concat fs] [concat vs] c"
proof -
  obtain f fs' v vs' where l: "fs = f # fs'" "vs = v # vs'" using assms(2,3) by (auto simp: neq_Nil_conv)
  let ?c1 = "on_header_field f c"
  have 1: "header_building_state ?c1 = 1" using assms(1) by (simp add: on_header_field_def Let_def)
  then have "fold on_header_field fs c = ?c1\<lparr>header_field := header_field ?c1 @ concat fs'\<rparr>"
    by (simp add: l on_header_field_pieces)
  also have "\<dots> = on_header_field (concat fs) c" using assms(1) by (simp add: on_header_field_def l Let_def)
  finally have f: "fold on_header_field fs c = on_header_field (concat fs) c" .
  have 2: "header_building_state (on_header_field (concat fs) c) = 1" using assms(1) by (simp add: on_header_field_def Let_def)
  have "fold on_header_value vs d = on_header_value (concat vs) d" if "header_building_state d = 1" for d :: "('a, 'b) conn"
    using that on_header_value_pieces [of "on_header_value v d" vs'] by (simp add: l on_header_value_def)
  with f 2 show ?thesis by (simp add: header_events_def)
qed

text \<open>The headers of a request, each delivered whole, end up in the request in their order.\<close>

definition all_headers :: "(string \<times> string) list \<Rightarrow> ('d, 'r) conn \<Rightarrow> ('d, 'r) conn" where
  "all_headers hs c = fold (\<lambda>(f, v). header_events [f] [v]) hs c"

definition pending_header :: "('d, 'r) conn \<Rightarrow> request" where
  "pending_header c = (if header_value c \<noteq> [] then req_add_header (header_field c) (header_value c) (c_req c) else c_req c)"

lemma header_events_pending:
  assumes "header_building_state c = 0"
  shows "c_req (header_events [f] [v] c) = pending_header c" "header_building_state (header_events [f] [v] c) = 0"
    "header_field (header_events [f] [v] c) = f" "header_value (header_events [f] [v] c) = v"
  using assms by (simp_all add: header_events_def on_header_field_def on_header_value_def pending_header_def Let_def)

lemma all_headers_request:
  assumes "header_building_state c = 0" "list_all (\<lambda>(f, v). v \<noteq> []) hs"
  shows "pending_header (all_headers hs c) = fold (\<lambda>(f, v). req_add_header f v) hs (pending_header c) \<and>
    header_building_state (all_headers hs c) = 0"
  using assms
proof (induction hs arbitrary: c)
  case (Cons h hs)
  obtain f v where h: "h = (f, v)" by (cases h)
  have "pending_header (header_events [f] [v] c) = req_add_header f v (pending_header c)"
    using Cons.prems header_events_pending [of c f v] by (simp add: h pending_header_def [of "header_events [f] [v] c"])
  with Cons.IH [of "header_events [f] [v] c"] Cons.prems header_events_pending(2) [of c f v]
  show ?case by (simp add: all_headers_def h)
qed (simp add: all_headers_def)

end
