(* ===== verification/Static_Files.thy ===== *)
theory Static_Files
  imports Http
begin

text \<open>
  Files: \<open>app.run\<close> registers a route of its own, \<open>/static/<path>\<close>, whose handler (\<open>app.h\<close>) makes a file name
  of the rest of the url (\<open>utility.h\<close>) and lets the response refer to that file (\<open>http_response.h\<close>,
  \<open>mime_types.h\<close>). The file system is a parameter: \<open>stat\<close> gives, if it succeeds, whether the path names a
  regular file, and its size.
\<close>

subsection \<open>Paths and file names\<close>

definition is_separator :: "char \<Rightarrow> bool" where
  "is_separator c \<longleftrightarrow> c = CHR ''/'' \<or> c = BSLASH"

definition normalize_path :: "string \<Rightarrow> string" where
  "normalize_path directoryPath =
     (let p = map (\<lambda>c. if c = BSLASH then CHR ''/'' else c) directoryPath
      in if p \<noteq> [] \<and> last p \<noteq> CHR ''/'' then p @ ''/'' else p)"

definition toUpper :: "char \<Rightarrow> char" where
  "toUpper c = (if CHR ''a'' \<le> c \<and> c \<le> CHR ''z'' then chr (code c - 32) else c)"

text \<open>
  \<open>sanitizeSpecialFile\<close> at the offset where the list begins: when a device name, with a digit if one is
  asked for, ends there, it is replaced by one character.
\<close>

fun after_pattern :: "string \<Rightarrow> string \<Rightarrow> string option" where
  "after_pattern [] source = Some source"
| "after_pattern (p # ps) [] = None"
| "after_pattern (p # ps) (c # cs) = (if toUpper c \<noteq> p then None else after_pattern ps cs)"

definition after_number :: "bool \<Rightarrow> string \<Rightarrow> string option" where
  "after_number includeNumber source =
     (if \<not> includeNumber then Some source
      else case source of [] \<Rightarrow> None | c # cs \<Rightarrow> if c < CHR ''1'' \<or> CHR ''9'' < c then None else Some cs)"

definition name_ends :: "string \<Rightarrow> bool" where
  "name_ends source \<longleftrightarrow> source = [] \<or> hd source = CHR ''.'' \<or> hd source = CHR '':'' \<or> is_separator (hd source)"

definition sanitizeSpecialFile :: "string \<Rightarrow> bool \<Rightarrow> char \<Rightarrow> string \<Rightarrow> string" where
  "sanitizeSpecialFile pattern includeNumber replacement source =
     (case after_pattern pattern source of
        None \<Rightarrow> source
      | Some s1 \<Rightarrow>
          (case after_number includeNumber s1 of
             None \<Rightarrow> source
           | Some s2 \<Rightarrow> if name_ends s2 then replacement # s2 else source))"

definition special_entries :: "char \<Rightarrow> string \<Rightarrow> string" where
  "special_entries r data =
     (let c = toUpper (hd data)
      in if c = CHR ''A'' then sanitizeSpecialFile ''AUX'' False r data
         else if c = CHR ''C'' then sanitizeSpecialFile ''COM'' True r (sanitizeSpecialFile ''CON'' False r data)
         else if c = CHR ''L'' then sanitizeSpecialFile ''LPT'' True r data
         else if c = CHR ''N'' then sanitizeSpecialFile ''NUL'' False r data
         else if c = CHR ''P'' then sanitizeSpecialFile ''PRN'' False r data
         else if c = CHR ''.'' then sanitizeSpecialFile ''..'' False r data
         else data)"

definition forbidden :: "char \<Rightarrow> bool" where
  "forbidden c \<longleftrightarrow> c < CHR '' '' \<or> CHR 0x80 \<le> c \<and> c \<le> CHR 0x9F \<or> c \<in> {CHR ''?'', CHR ''<'', CHR ''>'', CHR '':'', CHR ''*'', CHR ''|'', QUOTE}"

lemma after_pattern_length: "after_pattern p s = Some t \<Longrightarrow> length s = length p + length t"
  by (induction p s rule: after_pattern.induct) (auto split: if_splits)

lemma after_number_length: "after_number n s = Some t \<Longrightarrow> length t \<le> length s"
  by (auto simp: after_number_def split: if_splits list.splits)

lemma sanitizeSpecialFile_length: "p \<noteq> [] \<Longrightarrow> length (sanitizeSpecialFile p n r s) \<le> length s"
  by (cases p) (auto simp: sanitizeSpecialFile_def split: option.split dest!: after_pattern_length after_number_length)

lemma special_entries_length: "length (special_entries r data) \<le> length data"
  by (simp add: special_entries_def sanitizeSpecialFile_length Let_def
      order_trans [OF sanitizeSpecialFile_length sanitizeSpecialFile_length])

text \<open>
  The loop of \<open>sanitize_filename\<close> on what is left of the name: \<open>check\<close> is \<open>checkForSpecialEntries\<close>, \<open>first\<close>
  says whether the index is zero.
\<close>

function sanitize_loop :: "char \<Rightarrow> bool \<Rightarrow> bool \<Rightarrow> string \<Rightarrow> string" where
  "sanitize_loop r check first data =
     (if data = [] then []
      else case (if check then special_entries r data else data) of
        [] \<Rightarrow> []
      | c # cs \<Rightarrow>
          if forbidden c then r # sanitize_loop r False False cs
          else if is_separator c
          then (if first then r # sanitize_loop r False False cs else c # sanitize_loop r True False cs)
          else c # sanitize_loop r False False cs)"
  by pat_completeness auto

lemma entry_shorter: "(if check then special_entries r data else data) = c # cs \<Longrightarrow> length cs < length data"
  using special_entries_length [of r data] by (auto split: if_splits)

termination sanitize_loop
  by (relation "measure (\<lambda>(r, check, first, data). length data)") (use entry_shorter in \<open>auto simp del: split_paired_All\<close>)

declare sanitize_loop.simps [simp del]

definition sanitize_filename :: "char \<Rightarrow> string \<Rightarrow> string" where
  "sanitize_filename r data = sanitize_loop r True True (take 255 data)"

subsection \<open>Media types\<close>

definition mime_types :: "(string \<times> string) list" where
  "mime_types =
   [(''gz'', ''application/gzip''), (''shtml'', ''text/html''), (''htm'', ''text/html''), (''html'', ''text/html''),
    (''css'', ''text/css''), (''xml'', ''text/xml''), (''gif'', ''image/gif''), (''jpg'', ''image/jpeg''),
    (''jpeg'', ''image/jpeg''), (''js'', ''application/javascript''), (''atom'', ''application/atom+xml''),
    (''rss'', ''application/rss+xml''), (''mml'', ''text/mathml''), (''txt'', ''text/plain''),
    (''jad'', ''text/vnd.sun.j2me.app-descriptor''), (''wml'', ''text/vnd.wap.wml''),
    (''htc'', ''text/x-component''), (''avif'', ''image/avif''), (''png'', ''image/png''),
    (''svgz'', ''image/svg+xml''), (''svg'', ''image/svg+xml''), (''tiff'', ''image/tiff''),
    (''tif'', ''image/tiff''), (''wbmp'', ''image/vnd.wap.wbmp''), (''webp'', ''image/webp''),
    (''ico'', ''image/x-icon''), (''jng'', ''image/x-jng''), (''bmp'', ''image/x-ms-bmp''),
    (''woff'', ''font/woff''), (''woff2'', ''font/woff2''), (''ear'', ''application/java-archive''),
    (''war'', ''application/java-archive''), (''jar'', ''application/java-archive''),
    (''json'', ''application/json''), (''hqx'', ''application/mac-binhex40''), (''doc'', ''application/msword''),
    (''pdf'', ''application/pdf''), (''ai'', ''application/postscript''), (''eps'', ''application/postscript''),
    (''ps'', ''application/postscript''), (''rtf'', ''application/rtf''),
    (''m3u8'', ''application/vnd.apple.mpegurl''), (''kml'', ''application/vnd.google-earth.kml+xml''),
    (''kmz'', ''application/vnd.google-earth.kmz''), (''xls'', ''application/vnd.ms-excel''),
    (''eot'', ''application/vnd.ms-fontobject''), (''ppt'', ''application/vnd.ms-powerpoint''),
    (''odg'', ''application/vnd.oasis.opendocument.graphics''),
    (''odp'', ''application/vnd.oasis.opendocument.presentation''),
    (''ods'', ''application/vnd.oasis.opendocument.spreadsheet''),
    (''odt'', ''application/vnd.oasis.opendocument.text''),
    (''pptx'', ''application/vnd.openxmlformats-officedocument.presentationml.presentation''),
    (''xlsx'', ''application/vnd.openxmlformats-officedocument.spreadsheetml.sheet''),
    (''docx'', ''application/vnd.openxmlformats-officedocument.wordprocessingml.document''),
    (''wmlc'', ''application/vnd.wap.wmlc''), (''wasm'', ''application/wasm''),
    (''7z'', ''application/x-7z-compressed''), (''cco'', ''application/x-cocoa''),
    (''jardiff'', ''application/x-java-archive-diff''), (''jnlp'', ''application/x-java-jnlp-file''),
    (''run'', ''application/x-makeself''), (''pm'', ''application/x-perl''), (''pl'', ''application/x-perl''),
    (''pdb'', ''application/x-pilot''), (''prc'', ''application/x-pilot''),
    (''rar'', ''application/x-rar-compressed''), (''rpm'', ''application/x-redhat-package-manager''),
    (''sea'', ''application/x-sea''), (''swf'', ''application/x-shockwave-flash''),
    (''sit'', ''application/x-stuffit''), (''tk'', ''application/x-tcl''), (''tcl'', ''application/x-tcl''),
    (''crt'', ''application/x-x509-ca-cert''), (''pem'', ''application/x-x509-ca-cert''),
    (''der'', ''application/x-x509-ca-cert''), (''xpi'', ''application/x-xpinstall''),
    (''xhtml'', ''application/xhtml+xml''), (''xspf'', ''application/xspf+xml''), (''zip'', ''application/zip''),
    (''dll'', ''application/octet-stream''), (''exe'', ''application/octet-stream''),
    (''bin'', ''application/octet-stream''), (''deb'', ''application/octet-stream''),
    (''dmg'', ''application/octet-stream''), (''img'', ''application/octet-stream''),
    (''iso'', ''application/octet-stream''), (''msm'', ''application/octet-stream''),
    (''msp'', ''application/octet-stream''), (''msi'', ''application/octet-stream''), (''kar'', ''audio/midi''),
    (''midi'', ''audio/midi''), (''mid'', ''audio/midi''), (''mp3'', ''audio/mpeg''), (''ogg'', ''audio/ogg''),
    (''m4a'', ''audio/x-m4a''), (''ra'', ''audio/x-realaudio''), (''3gp'', ''video/3gpp''),
    (''3gpp'', ''video/3gpp''), (''ts'', ''video/mp2t''), (''mp4'', ''video/mp4''), (''mpg'', ''video/mpeg''),
    (''mpeg'', ''video/mpeg''), (''mov'', ''video/quicktime''), (''webm'', ''video/webm''),
    (''flv'', ''video/x-flv''), (''m4v'', ''video/x-m4v''), (''mng'', ''video/x-mng''),
    (''asf'', ''video/x-ms-asf''), (''asx'', ''video/x-ms-asf''), (''wmv'', ''video/x-ms-wmv''),
    (''avi'', ''video/x-msvideo'')]"

subsection \<open>The handler of the static route\<close>

type_synonym file_status = "string \<Rightarrow> (bool \<times> int) option"

text \<open>\<open>substr(find_last_of('.') + 1)\<close>: without a dot it is the whole path.\<close>

definition extension :: "string \<Rightarrow> string" where
  "extension path = rev (takeWhile (\<lambda>c. c \<noteq> CHR ''.'') (rev path))"

definition set_static_file_info_unsafe :: "file_status \<Rightarrow> string \<Rightarrow> response \<Rightarrow> response" where
  "set_static_file_info_unsafe stat path res =
     (let st = stat path
      in if st \<noteq> None \<and> fst (the st)
         then let res1 = add_header ''Content-Length'' (int_to_string (snd (the st)))
                    (res\<lparr>file_path := path, stat_result := 0, rcode := 200\<rparr>)
              in if extension path \<noteq> [] then add_header ''Content-Type'' (get_mime_type (map_of mime_types) (extension path)) res1
                 else res1
         else res\<lparr>file_path := [], stat_result := (if st = None then -1 else 0), rcode := 404\<rparr>)"

definition set_static_file_info :: "file_status \<Rightarrow> string \<Rightarrow> response \<Rightarrow> response" where
  "set_static_file_info stat path res = set_static_file_info_unsafe stat (sanitize_filename (CHR ''_'') path) res"

definition static_path :: "string \<Rightarrow> string" where
  "static_path file_path_partial = normalize_path ''static/'' @ sanitize_filename (CHR ''_'') file_path_partial"

definition static_response :: "file_status \<Rightarrow> string \<Rightarrow> response" where
  "static_response stat file_path_partial = set_static_file_info_unsafe stat (static_path file_path_partial) new_response"

subsection \<open>No way out of the directory\<close>

text \<open>The parts of a path between its separators.\<close>

fun segments :: "string \<Rightarrow> string list" where
  "segments [] = [[]]"
| "segments (c # cs) = (if is_separator c then [] # segments cs else (c # hd (segments cs)) # tl (segments cs))"

lemma segments_nonempty [simp]: "segments s \<noteq> []"
  by (cases s) simp_all

lemma segments_append: "segments (s @ CHR ''/'' # t) = segments s @ segments t"
  by (induction s) (auto simp: is_separator_def)

lemma sanitize_loop_Cons:
  assumes "(if check then special_entries r data else data) = c # cs" "data \<noteq> []"
  shows "sanitize_loop r check first data =
     (if forbidden c \<or> is_separator c \<and> first then r else c) #
       sanitize_loop r (\<not> forbidden c \<and> is_separator c \<and> \<not> first) False cs"
  using assms by (subst sanitize_loop.simps) auto

lemma sanitize_loop_Nil [simp]: "sanitize_loop r check first [] = []"
  by (subst sanitize_loop.simps) simp

lemma sanitizeSpecialFile_nonempty: "s \<noteq> [] \<Longrightarrow> sanitizeSpecialFile p n r s \<noteq> []"
  by (simp add: sanitizeSpecialFile_def split: option.split)

lemma special_entries_nonempty: "data \<noteq> [] \<Longrightarrow> special_entries r data \<noteq> []"
  by (simp add: special_entries_def sanitizeSpecialFile_nonempty Let_def)

lemma entry_Cons:
  assumes "data \<noteq> []"
  obtains c cs where "(if check then special_entries r data else data) = c # cs" "length cs < length data"
proof (cases "if check then special_entries r data else data")
  case Nil
  then show thesis using special_entries_nonempty [OF assms] assms by (simp split: if_splits)
qed (use entry_shorter that in blast)

lemma sanitize_loop_induct [case_names Nil Cons]:
  assumes "\<And>check first. P check first []"
    "\<And>check first data c cs. data \<noteq> [] \<Longrightarrow> (if check then special_entries r data else data) = c # cs \<Longrightarrow>
       length cs < length data \<Longrightarrow> (\<And>check' first'. P check' first' cs) \<Longrightarrow> P check first data"
  shows "P check first data"
proof (induction data arbitrary: check first rule: length_induct)
  case (1 data)
  show ?case
  proof (cases "data = []")
    case False
    obtain c cs where c: "(if check then special_entries r data else data) = c # cs" "length cs < length data"
      by (rule entry_Cons [OF False])
    show ?thesis by (rule assms(2) [OF False c]) (use 1 c(2) in blast)
  qed (simp add: assms(1))
qed

lemma sanitize_loop_chars: "c \<in> set (sanitize_loop r check first data) \<Longrightarrow> c = r \<or> \<not> forbidden c"
proof (induction check first data rule: sanitize_loop_induct [where r = r])
  case (Cons check first data d cs)
  then show ?case by (auto simp: sanitize_loop_Cons split: if_splits)
qed simp

lemma sanitize_loop_length: "length (sanitize_loop r check first data) \<le> length data"
proof (induction check first data rule: sanitize_loop_induct [where r = r])
  case (Cons check first data d cs)
  have "length (sanitize_loop r (\<not> forbidden d \<and> is_separator d \<and> \<not> first) False cs) < length data"
    using Cons(3,4) by (rule order_le_less_trans [rotated])
  then show ?case unfolding sanitize_loop_Cons [OF Cons(2,1)] by simp
qed simp

lemma sanitize_loop_relative:
  assumes "\<not> is_separator r" "sanitize_loop r check True data = c # cs"
  shows "\<not> is_separator c"
proof -
  have "data \<noteq> []" using assms(2) by auto
  then obtain d ds where "(if check then special_entries r data else data) = d # ds" by (rule entry_Cons)
  from sanitize_loop_Cons [OF this \<open>data \<noteq> []\<close>, of True] assms show ?thesis by (auto split: if_splits)
qed

text \<open>Two dots at the beginning of a part are replaced, if the part ends there.\<close>

lemma sanitizeSpecialFile_cases: "sanitizeSpecialFile p n r s = s \<or> hd (sanitizeSpecialFile p n r s) = r"
  by (simp add: sanitizeSpecialFile_def split: option.split)

lemma dots_replaced:
  assumes "special_entries r data = CHR ''.'' # cs" "r \<noteq> CHR ''.''" "data \<noteq> []"
  shows "data = CHR ''.'' # cs" "cs = CHR ''.'' # ds \<Longrightarrow> \<not> name_ends ds"
proof -
  have "sanitizeSpecialFile ''COM'' True r s' = data \<or> hd (sanitizeSpecialFile ''COM'' True r s') = r"
    if "s' = sanitizeSpecialFile ''CON'' False r data" for s'
    using sanitizeSpecialFile_cases [of "''COM''" True r s'] sanitizeSpecialFile_cases [of "''CON''" False r data] that by auto
  then have "special_entries r data = data \<or> hd (special_entries r data) = r"
    by (simp add: special_entries_def Let_def sanitizeSpecialFile_cases)
  with assms(1,2) show d: "data = CHR ''.'' # cs" by auto
  show "\<not> name_ends ds" if "cs = CHR ''.'' # ds"
    using assms(1,2) d that by (auto simp: special_entries_def sanitizeSpecialFile_def after_number_def toUpper_def Let_def)
qed

text \<open>After the loop no part is two dots; the first one may be, if it was entered in its middle.\<close>

lemma sanitize_loop_no_up:
  assumes r: "r \<noteq> CHR ''.''" "\<not> is_separator r"
  shows "''..'' \<notin> set (tl (segments (sanitize_loop r check first data))) \<and>
    (check \<longrightarrow> hd (segments (sanitize_loop r check first data)) \<noteq> ''..'')"
proof (induction check first data rule: sanitize_loop_induct [where r = r])
  case (Cons check first data c cs)
  let ?c = "if forbidden c \<or> is_separator c \<and> first then r else c" and ?k = "\<not> forbidden c \<and> is_separator c \<and> \<not> first"
  let ?rest = "sanitize_loop r ?k False cs"
  note eq = sanitize_loop_Cons [OF Cons(2,1), of first]
  note IH = Cons(4) [of ?k False]
  show ?case
  proof (cases "is_separator ?c")
    case True
    then have ?k using r(2) by (auto split: if_splits)
    with IH True show ?thesis unfolding eq by (cases "segments ?rest") auto
  next
    case False
    have "hd (segments (sanitize_loop r check first data)) \<noteq> ''..''" if check
    proof
      assume "hd (segments (sanitize_loop r check first data)) = ''..''"
      with False have dot: "?c = CHR ''.''" and one: "hd (segments ?rest) = ''.''" unfolding eq by auto
      have c: "c = CHR ''.''" "\<not> is_separator c" using dot r(1) by (auto simp: is_separator_def split: if_splits)
      then have k: "\<not> ?k" by simp
      have data: "special_entries r data = CHR ''.'' # cs" using Cons(2) that c by simp
      from one k obtain d ds where rest: "sanitize_loop r False False cs = CHR ''.'' # ds" and ds: "hd (segments ds) = []"
        by (cases ?rest) (auto split: if_splits)
      then have "cs \<noteq> []" by auto
      then obtain e es where cs: "cs = e # es" by (cases cs) auto
      from sanitize_loop_Cons [of False r cs e es False] rest cs r(1)
      have e: "e = CHR ''.''" "ds = sanitize_loop r False False es" by (auto simp: is_separator_def split: if_splits)
      have "\<not> name_ends es" using dots_replaced(2) [OF data r(1) Cons(1)] cs e(1) by simp
      then obtain x xs where x: "es = x # xs" "\<not> is_separator x" by (cases es) (auto simp: name_ends_def)
      then have "ds = (if forbidden x then r else x) # sanitize_loop r False False xs"
        using sanitize_loop_Cons [of False r es x xs False] e(2) by simp
      with ds x(2) r(2) show False by (auto split: if_splits)
    qed
    with IH False show ?thesis unfolding eq by (cases "segments ?rest") auto
  qed
qed simp

text \<open>The path that is opened lies below the directory, is relative and holds no forbidden character.\<close>

lemma static_path_segments: "segments (static_path p) = ''static'' # segments (sanitize_filename (CHR ''_'') p)"
  using segments_append [of "''static''" "sanitize_filename (CHR ''_'') p"]
  by (simp add: static_path_def normalize_path_def is_separator_def)

lemma static_path_confined:
  "hd (segments (static_path p)) = ''static'' \<and> ''..'' \<notin> set (segments (static_path p)) \<and>
   (\<forall>c \<in> set (static_path p). \<not> forbidden c) \<and> length (static_path p) \<le> 262"
proof -
  let ?r = "CHR ''_''" and ?s = "sanitize_filename (CHR ''_'') p"
  have r: "?r \<noteq> CHR ''.''" "\<not> is_separator ?r" "\<not> forbidden ?r" by (simp_all add: is_separator_def forbidden_def)
  have "''..'' \<notin> set (segments ?s)"
    using sanitize_loop_no_up [OF r(1,2), of True True "take 255 p"] by (cases "segments ?s") (auto simp: sanitize_filename_def)
  moreover have "\<forall>c \<in> set ?s. \<not> forbidden c"
    using sanitize_loop_chars [of _ ?r True True "take 255 p"] r(3) by (auto simp: sanitize_filename_def)
  moreover have "length ?s \<le> 255"
    using sanitize_loop_length [of ?r True True "take 255 p"] by (simp add: sanitize_filename_def)
  moreover have "\<forall>c \<in> set ''static/''. \<not> forbidden c" by (simp add: forbidden_def)
  ultimately show ?thesis
    by (simp add: static_path_segments) (auto simp: static_path_def normalize_path_def)
qed

text \<open>The handler works on the response of the connection; it is a cleared one, so this is the same.\<close>

lemma static_in_place:
  assumes "body res = []" "headers res = []" "\<not> completed res"
  shows "response_assign res (static_response stat p) = set_static_file_info_unsafe stat (static_path p) res"
  using assms
  by (simp add: static_response_def set_static_file_info_unsafe_def response_assign_def add_header_def new_response_def Let_def)

lemma static_response_file:
  "stat (static_path p) = Some (True, n) \<Longrightarrow> file_path (static_response stat p) = static_path p"
  by (auto simp: static_response_def set_static_file_info_unsafe_def add_header_def Let_def)

end
