(* ===== verification/Service.thy ===== *)
theory Service
  imports Connection Static_Files
begin

text \<open>
  The program of \<open>src/main.cpp\<close>: the start-up sequence (\<open>init_db\<close>, the settings, the connection to
  Redis), the probe handlers \<open>/healthcheck\<close>, \<open>/readiness\<close> and \<open>/metrics\<close>, the route table with the route for
  files that \<open>app.run\<close> adds, and the service as a whole, a request from the parsed url to the bytes of its response.
\<close>

subsection \<open>Start-up\<close>

text \<open>
  What the outside world answers during start-up: \<open>sqlite3_open\<close> and \<open>sqlite3_exec\<close> succeed or
  not, and creating the Redis client and its \<open>ping\<close> throw or not. \<open>Exited\<close> carries the exit code.
\<close>

record outside =
  env :: environ
  db_opens :: bool
  table_created :: bool
  redis_answers :: bool

datatype startup = Exited int | Thrown exn | Serving svc int int

definition init_db :: "outside \<Rightarrow> svc \<Rightarrow> svc \<times> int option" where
  "init_db ow s =
     (if \<not> db_opens ow then (s\<lparr>db_ready := False\<rparr>, Some 1)
      else if \<not> table_created ow then (s\<lparr>db_ready := False\<rparr>, Some 1)
      else (s\<lparr>db_ready := True\<rparr>, None))"

definition connect_redis :: "outside \<Rightarrow> svc \<Rightarrow> svc" where
  "connect_redis ow s =
     (if redis_answers ow then s\<lparr>redis_client := True, redis_available := True\<rparr>
      else s\<lparr>redis_client := False, redis_available := False\<rparr>)"

definition main_start :: "outside \<Rightarrow> startup" where
  "main_start ow = (case init_db ow initial_svc of
     (s, Some c) \<Rightarrow> Exited c
   | (s, None) \<Rightarrow>
       (case load_limits (env ow) s of
          Inl e \<Rightarrow> Thrown e
        | Inr s1 \<Rightarrow>
            let s2 = connect_redis ow s1
            in case load_port (env ow) of
                 Inl e \<Rightarrow> Thrown e
               | Inr port \<Rightarrow>
                   (case load_drain_ms (env ow) of Inl e \<Rightarrow> Thrown e | Inr drain \<Rightarrow> Serving s2 port drain)))"

subsection \<open>Probes\<close>

definition healthcheck :: "json_impl \<Rightarrow> response" where
  "healthcheck J = json_response J 200 (wv_put ''status'' (WString ''ok'') WNull)"

definition readiness_value :: "svc \<Rightarrow> wvalue" where
  "readiness_value s =
     wv_put ''redis_available'' (wv_of_bool (redis_available s))
      (wv_put ''db_ready'' (wv_of_bool (db_ready s))
        (wv_put ''ready'' (wv_of_bool (is_ready s))
          (wv_put ''status'' (WString (readiness_status s)) WNull)))"

definition readiness :: "json_impl \<Rightarrow> svc \<Rightarrow> response" where
  "readiness J s = json_response J (if is_ready s then 200 else 503) (readiness_value s)"

definition metric_line :: "string \<Rightarrow> string \<Rightarrow> string" where
  "metric_line name value = name @ '' '' @ value @ [LF]"

text \<open>A double goes through \<open>operator<<\<close> with the default precision of six digits.\<close>

definition cache_ratio :: "svc \<Rightarrow> double" where
  "cache_ratio s =
     (let cache_total = cache_hits s + cache_misses s
      in if cache_total = 0 then Fin False 0 0 else dbl_div (dbl_of_int (sint (cache_hits s))) (dbl_of_int (sint cache_total)))"

definition latency_avg :: "svc \<Rightarrow> double" where
  "latency_avg s =
     (if request_duration_samples s = 0 then Fin False 0 0
      else dbl_div (dbl_of_int (sint (request_duration_ms_total s))) (dbl_of_int (sint (request_duration_samples s))))"

definition metrics_text :: "svc \<Rightarrow> string" where
  "metrics_text s =
     ''# TYPE total_requests counter'' @ [LF] @
     metric_line ''total_requests'' (int_to_string (sint (total_requests s))) @
     metric_line ''orders_created'' (int_to_string (sint (orders_created s))) @
     metric_line ''orders_paid'' (int_to_string (sint (orders_paid s))) @
     metric_line ''cache_hits'' (int_to_string (sint (cache_hits s))) @
     metric_line ''cache_misses'' (int_to_string (sint (cache_misses s))) @
     metric_line ''overload_rejections'' (int_to_string (sint (overload_rejections s))) @
     metric_line ''shutdown_rejections'' (int_to_string (sint (shutdown_rejections s))) @
     metric_line ''redis_errors'' (int_to_string (sint (redis_errors s))) @
     metric_line ''sqlite_errors'' (int_to_string (sint (sqlite_errors s))) @
     metric_line ''in_flight_requests'' (int_to_string (sint (in_flight_requests s))) @
     metric_line ''redis_available'' (if redis_available s then ''1'' else ''0'') @
     metric_line ''service_ready'' (if is_ready s then ''1'' else ''0'') @
     metric_line ''cache_hit_ratio'' (fmt_g 6 (cache_ratio s)) @
     metric_line ''http_request_duration_ms_total'' (int_to_string (sint (request_duration_ms_total s))) @
     metric_line ''http_request_duration_ms_count'' (int_to_string (sint (request_duration_samples s))) @
     metric_line ''http_request_duration_ms_avg'' (fmt_g 6 (latency_avg s)) @
     metric_line ''http_request_duration_ms_max'' (int_to_string (sint (request_duration_ms_max s)))"

definition metrics_response :: "svc \<Rightarrow> response" where
  "metrics_response s = res_write (metrics_text s) (set_header ''Content-Type'' ''text/plain'' (new_response\<lparr>rcode := 200\<rparr>))"

subsection \<open>The route table\<close>

text \<open>The values that \<open>time\<close>, \<open>rand\<close> and \<open>stat\<close> give to the request at hand, and fuel for the rows of a list.\<close>

record inputs =
  in_timestamp :: i64
  in_rand :: int
  in_now :: i64
  in_fuel :: nat
  in_stat :: file_status

datatype endpoint = Healthcheck | Readiness | Metrics | CreateOrder | PayOrder | ListOrders | GetOrder string | DeleteOrder string
  | StaticFile string

definition endpoint_handler ::
  "('d, 's, 'r) deps \<Rightarrow> inputs \<Rightarrow> endpoint \<Rightarrow> request \<Rightarrow> ('d, 'r) world \<Rightarrow> ('d, 'r) outcome option" where
  "endpoint_handler D i ep req w = (case ep of
     Healthcheck \<Rightarrow> Some (w, Inr (healthcheck (json D)))
   | Readiness \<Rightarrow> Some (w, Inr (readiness (json D) (svc_of w)))
   | Metrics \<Rightarrow> Some (w, Inr (metrics_response (svc_of w)))
   | CreateOrder \<Rightarrow> Some (create_order D (in_timestamp i) (in_rand i) (in_now i) req w)
   | PayOrder \<Rightarrow> Some (pay_order D (in_now i) req w)
   | ListOrders \<Rightarrow> list_orders (in_fuel i) D req w
   | GetOrder no \<Rightarrow> Some (get_order D no w)
   | DeleteOrder no \<Rightarrow> Some (delete_order D no w)
   | StaticFile path \<Rightarrow> Some (w, Inr (static_response (in_stat i) path)))"

text \<open>A handler of the service as the router calls it, on the world of the connection.\<close>

definition on_world ::
  "(request \<Rightarrow> ('d, 'r) world \<Rightarrow> ('d, 'r) outcome option) \<Rightarrow> request \<Rightarrow> ('d, 'r) conn \<Rightarrow> (('d, 'r) conn \<times> response result) option" where
  "on_world h req c = map_option (\<lambda>(w, r). (c\<lparr>c_world := w\<rparr>, r)) (h req (c_world c))"

definition plain_handler :: "('d, 's, 'r) deps \<Rightarrow> inputs \<Rightarrow> endpoint \<Rightarrow> ('d, 'r) conn handler" where
  "plain_handler D i ep = (\<lambda>req ps. on_world (endpoint_handler D i ep) req)"

definition string_handler :: "('d, 's, 'r) deps \<Rightarrow> inputs \<Rightarrow> (string \<Rightarrow> endpoint) \<Rightarrow> ('d, 'r) conn handler" where
  "string_handler D i ep = (\<lambda>req ps. on_world (endpoint_handler D i (ep (string_params ps ! 0))) req)"

text \<open>\<open>CROW_ROUTE(app, url).methods(method)(handler)\<close>.\<close>

definition CROW_ROUTE :: "string \<Rightarrow> string \<Rightarrow> 'w handler \<Rightarrow> 'w rule result" where
  "CROW_ROUTE u m h = bind_result (method_from_string m) (\<lambda>meth.
     bind_result (rule_methods meth [] (new_rule u)) (\<lambda>r. Inr (rule_call h r)))"

fun routes :: "'w rule result list \<Rightarrow> 'w rule list result" where
  "routes [] = Inr []"
| "routes (r # rs) = bind_result r (\<lambda>x. bind_result (routes rs) (\<lambda>xs. Inr (x # xs)))"

definition app_routes :: "('d, 's, 'r) deps \<Rightarrow> inputs \<Rightarrow> ('d, 'r) conn rule list result" where
  "app_routes D i = routes
     [CROW_ROUTE ''/healthcheck'' ''GET'' (plain_handler D i Healthcheck),
      CROW_ROUTE ''/readiness'' ''GET'' (plain_handler D i Readiness),
      CROW_ROUTE ''/order/create'' ''POST'' (plain_handler D i CreateOrder),
      CROW_ROUTE ''/order/get/<string>'' ''GET'' (string_handler D i GetOrder),
      CROW_ROUTE ''/order/pay'' ''POST'' (plain_handler D i PayOrder),
      CROW_ROUTE ''/order/list'' ''GET'' (plain_handler D i ListOrders),
      CROW_ROUTE ''/order/delete/<string>'' ''DELETE'' (string_handler D i DeleteOrder),
      CROW_ROUTE ''/metrics'' ''GET'' (plain_handler D i Metrics)]"

text \<open>
  \<open>run\<close> adds the route for files, which has the default method, and validates. Its handler takes the
  response by reference and ends it; on the cleared response of a connection that is the same as
  returning one (\<open>static_in_place\<close>).
\<close>

definition add_static_dir :: "('d, 's, 'r) deps \<Rightarrow> inputs \<Rightarrow> ('d, 'r) conn rule list \<Rightarrow> ('d, 'r) conn rule list" where
  "add_static_dir D i rs = rs @ [rule_call (string_handler D i StaticFile) (new_rule ''/static/<path>'')]"

definition app_router :: "('d, 's, 'r) deps \<Rightarrow> inputs \<Rightarrow> ('d, 'r) conn router result option" where
  "app_router D i = then_do (Some (app_routes D i)) (\<lambda>rs. router_validate (new_router\<lparr>all_rules := add_static_dir D i rs\<rparr>))"

text \<open>The table in plain words.\<close>

definition path_argument :: "string \<Rightarrow> string \<Rightarrow> string option" where
  "path_argument prefix u =
     (let arg = drop (length prefix) u
      in if is_prefix prefix u \<and> arg \<noteq> [] \<and> CHR ''/'' \<notin> set arg then Some arg else None)"

definition path_rest :: "string \<Rightarrow> string \<Rightarrow> string option" where
  "path_rest prefix u = (let arg = drop (length prefix) u in if is_prefix prefix u \<and> arg \<noteq> [] then Some arg else None)"

definition endpoint_of :: "nat \<Rightarrow> string \<Rightarrow> endpoint option" where
  "endpoint_of m u =
     (if m = method_num Get
      then if u = ''/healthcheck'' then Some Healthcheck
           else if u = ''/readiness'' then Some Readiness
           else if u = ''/order/list'' then Some ListOrders
           else if u = ''/metrics'' then Some Metrics
           else (case path_argument ''/order/get/'' u of
                   Some no \<Rightarrow> Some (GetOrder no)
                 | None \<Rightarrow> map_option StaticFile (path_rest ''/static/'' u))
      else if m = method_num Post
      then if u = ''/order/create'' then Some CreateOrder else if u = ''/order/pay'' then Some PayOrder else None
      else if m = method_num Delete then map_option DeleteOrder (path_argument ''/order/delete/'' u)
      else None)"

text \<open>The handler that the router finds for a method and a url, with its parameters.\<close>

definition routed_handler :: "'w router \<Rightarrow> nat \<Rightarrow> string \<Rightarrow> (request \<Rightarrow> 'w \<Rightarrow> ('w \<times> response result) option) option" where
  "routed_handler R m u = (case found_of (find_in R m u) of
     None \<Rightarrow> None
   | Some (idx, ps) \<Rightarrow>
       (case rules (per_methods R ! m) ! unat idx of
          None \<Rightarrow> None | Some r \<Rightarrow> map_option (\<lambda>h req. h req ps) (r_handler r)))"

subsection \<open>The route table is the plain one\<close>

lemma rule_tokens_literal: "CHR ''<'' \<notin> set s \<Longrightarrow> rule_tokens (s @ rest) = map_option (\<lambda>ts. map Lit s @ ts) (rule_tokens rest)"
  by (induction s; cases "rule_tokens rest") auto

lemma rule_tokens_string: "rule_tokens ''<string>'' = Some [Par P_STRING]"
  by (simp add: match_trait_def paramTraits_def)

lemma rule_tokens_path: "rule_tokens ''<path>'' = Some [Par P_PATH]"
  by (simp add: match_trait_def paramTraits_def)

declare rule_tokens.simps [simp del]

lemma rule_match_literal: "rule_match (map Lit s) u 0 ps = (if u = s then Some ps else None)"
  using rule_match_lits [of 0 u s "[]" ps] by (auto simp: take_all_iff)

lemma takeWhile_slash: "takeWhile (\<lambda>x. x \<noteq> CHR ''/'') a = a \<longleftrightarrow> CHR ''/'' \<notin> set a"
  by (auto simp: takeWhile_eq_all_conv)

lemma rule_match_string:
  "rule_match (map Lit s @ [Par P_STRING]) u 0 ps =
     map_option (\<lambda>a. ps\<lparr>string_params := string_params ps @ [a]\<rparr>) (path_argument s u)"
proof (cases "is_prefix s u")
  case False
  then show ?thesis
    by (subst rule_match_lits) (auto simp: is_prefix_def path_argument_def Let_def)
next
  case True
  then obtain a where u: "u = s @ a" by (metis append_take_drop_id is_prefix_def)
  show ?thesis
  proof (cases "CHR ''/'' \<in> set a")
    case True
    then have "length (takeWhile (\<lambda>x. x \<noteq> CHR ''/'') a) < length a"
      by (metis length_takeWhile_le nat_less_le takeWhile_eq_take takeWhile_slash take_all order_refl)
    with True show ?thesis
      by (subst rule_match_lits) (simp_all add: u param_read_def path_argument_def Let_def)
  next
    case False
    then have w: "takeWhile (\<lambda>x. x \<noteq> CHR ''/'') a = a" by (simp only: takeWhile_slash) simp
    show ?thesis
      by (subst rule_match_lits) (simp_all add: u param_read_def path_argument_def Let_def False w del: takeWhile_eq_all_conv)
  qed
qed

lemma rule_match_path:
  "rule_match (map Lit s @ [Par P_PATH]) u 0 ps =
     map_option (\<lambda>a. ps\<lparr>string_params := string_params ps @ [a]\<rparr>) (path_rest s u)"
proof (cases "is_prefix s u")
  case False
  then show ?thesis
    by (subst rule_match_lits) (auto simp: is_prefix_def path_rest_def Let_def)
next
  case True
  then obtain a where u: "u = s @ a" by (metis append_take_drop_id is_prefix_def)
  show ?thesis
    by (subst rule_match_lits) (simp_all add: u param_read_def path_rest_def Let_def)
qed

lemma path_rest_url: "path_rest s u = Some p \<Longrightarrow> u = s @ p"
  by (simp add: path_rest_def is_prefix_def Let_def split: if_splits) (metis append_take_drop_id)

lemmas route_defs = CROW_ROUTE_def rule_methods_def method_bit_def rule_call_def new_rule_def

lemma method_names: "method_from_string ''GET'' = Inr Get" "method_from_string ''POST'' = Inr Post"
  "method_from_string ''DELETE'' = Inr Delete"
  using method_round_trip [of Get] method_round_trip [of Post] method_round_trip [of Delete]
  by (simp_all add: method_name_def internal_method_count_def method_strings_def)

lemma foreach_method_single:
  "foreach_method (push_bit 1 1) = [1]" "foreach_method (push_bit 3 1) = [3]" "foreach_method (push_bit 0 1) = [0]"
  by code_simp+

definition mk_rule :: "nat \<Rightarrow> string \<times> 'w handler \<Rightarrow> 'w rule" where
  "mk_rule m r = \<lparr>r_methods = push_bit m 1, r_rule = fst r, r_name = [], r_added = False, r_handler = Some (snd r)\<rparr>"

lemma app_routes_list:
  "app_routes D i = Inr
     [mk_rule 1 (''/healthcheck'', plain_handler D i Healthcheck), mk_rule 1 (''/readiness'', plain_handler D i Readiness),
      mk_rule 3 (''/order/create'', plain_handler D i CreateOrder),
      mk_rule 1 (''/order/get/'' @ ''<string>'', string_handler D i GetOrder),
      mk_rule 3 (''/order/pay'', plain_handler D i PayOrder), mk_rule 1 (''/order/list'', plain_handler D i ListOrders),
      mk_rule 0 (''/order/delete/'' @ ''<string>'', string_handler D i DeleteOrder),
      mk_rule 1 (''/metrics'', plain_handler D i Metrics)]"
  by (simp add: app_routes_def route_defs method_names mk_rule_def)

definition app_rule_list :: "('d, 's, 'r) deps \<Rightarrow> inputs \<Rightarrow> ('d, 'r) conn rule list" where
  "app_rule_list D i = (case app_routes D i of Inr rs \<Rightarrow> add_static_dir D i rs | Inl e \<Rightarrow> [])"

lemma add_static_dir_list: "add_static_dir D i rs = rs @ [mk_rule 1 (''/static/'' @ ''<path>'', string_handler D i StaticFile)]"
  by (simp add: add_static_dir_def route_defs mk_rule_def)

lemmas app_rules = app_rule_list_def app_routes_list sum.case add_static_dir_list append.simps(1,2)

lemma mk_rule_simps [simp]: "r_methods (mk_rule m r) = push_bit m 1" "r_rule (mk_rule m r) = fst r"
  "r_handler (mk_rule m r) = Some (snd r)" "\<not> r_added (mk_rule m r)"
  by (simp_all add: mk_rule_def)

lemma app_rules_for:
  "rules_for 1 (app_rule_list D i) =
     [mk_rule 1 (''/healthcheck'', plain_handler D i Healthcheck), mk_rule 1 (''/readiness'', plain_handler D i Readiness),
      mk_rule 1 (''/order/get/'' @ ''<string>'', string_handler D i GetOrder), mk_rule 1 (''/order/list'', plain_handler D i ListOrders),
      mk_rule 1 (''/metrics'', plain_handler D i Metrics), mk_rule 1 (''/static/'' @ ''<path>'', string_handler D i StaticFile)]"
  "rules_for 3 (app_rule_list D i) =
     [mk_rule 3 (''/order/create'', plain_handler D i CreateOrder), mk_rule 3 (''/order/pay'', plain_handler D i PayOrder)]"
  "rules_for 0 (app_rule_list D i) = [mk_rule 0 (''/order/delete/'' @ ''<string>'', string_handler D i DeleteOrder)]"
  "m \<noteq> 0 \<Longrightarrow> m \<noteq> 1 \<Longrightarrow> m \<noteq> 3 \<Longrightarrow> rules_for m (app_rule_list D i) = []"
  unfolding rules_for_def app_rules filter.simps mk_rule_simps foreach_method_single
  by simp_all

lemma literal_tokens: "CHR ''<'' \<notin> set s \<Longrightarrow> rule_tokens s = Some (map Lit s)"
  "CHR ''<'' \<notin> set s \<Longrightarrow> rule_tokens (s @ ''<string>'') = Some (map Lit s @ [Par P_STRING])"
  "CHR ''<'' \<notin> set s \<Longrightarrow> rule_tokens (s @ ''<path>'') = Some (map Lit s @ [Par P_PATH])"
  using rule_tokens_literal [of s "[]"] rule_tokens_literal [of s "''<string>''"] rule_tokens_literal [of s "''<path>''"]
    rule_tokens_string rule_tokens_path
  by (simp_all add: rule_tokens.simps(1))

lemma app_tokens:
  "rule_tokens ''/healthcheck'' = Some (map Lit ''/healthcheck'')" "rule_tokens ''/readiness'' = Some (map Lit ''/readiness'')"
  "rule_tokens ''/order/create'' = Some (map Lit ''/order/create'')" "rule_tokens ''/order/pay'' = Some (map Lit ''/order/pay'')"
  "rule_tokens ''/order/list'' = Some (map Lit ''/order/list'')" "rule_tokens ''/metrics'' = Some (map Lit ''/metrics'')"
  "rule_tokens (''/order/get/'' @ ''<string>'') = Some (map Lit ''/order/get/'' @ [Par P_STRING])"
  "rule_tokens (''/order/delete/'' @ ''<string>'') = Some (map Lit ''/order/delete/'' @ [Par P_STRING])"
  "rule_tokens (''/static/'' @ ''<path>'') = Some (map Lit ''/static/'' @ [Par P_PATH])"
  by (rule literal_tokens; simp)+

lemma app_routes_ok: "routes_ok (app_rule_list D i)"
proof -
  have "list_all route_ok (app_rule_list D i)"
    unfolding app_rules by (simp add: route_ok_def app_tokens [simplified append.simps] cur_def)
  moreover have "distinct (map route_tokens (rules_for m (app_rule_list D i)))" for m
  proof -
    consider "m = 0" | "m = 1" | "m = 3" | "m \<noteq> 0" "m \<noteq> 1" "m \<noteq> 3" by blast
    then show ?thesis
    proof cases
      case 4
      show ?thesis by (simp add: app_rules_for(4) [OF 4])
    qed (simp_all only: app_rules_for, simp_all add: app_tokens [simplified append.simps])
  qed
  ultimately show ?thesis by (simp add: routes_ok_def app_rules list_all_iff)
qed

lemma case_literal: "(case (if u = s then Some p else None) of None \<Rightarrow> x | Some q \<Rightarrow> f q) = (if u = s then f p else x)"
  by simp

lemma case_argument: "(case map_option g a of None \<Rightarrow> x | Some q \<Rightarrow> f q) = (case a of None \<Rightarrow> x | Some b \<Rightarrow> f (g b))"
  by (cases a) simp_all

lemma slot_numbers: "of_nat 2 = (2 :: u16)" "of_nat (Suc 2) = (3 :: u16)" "of_nat (Suc (Suc 2)) = (4 :: u16)"
  "of_nat (Suc (Suc (Suc 2))) = (5 :: u16)" "of_nat (Suc (Suc (Suc (Suc 2)))) = (6 :: u16)"
  "of_nat (Suc (Suc (Suc (Suc (Suc 2))))) = (7 :: u16)"
  by simp_all

lemma first_match_app:
  "first_match (map r_rule (rules_for 1 (app_rule_list D i))) 2 u =
     (if u = ''/healthcheck'' then Some (2, no_params) else if u = ''/readiness'' then Some (3, no_params)
      else case path_argument ''/order/get/'' u of
        None \<Rightarrow> if u = ''/order/list'' then Some (5, no_params) else if u = ''/metrics'' then Some (6, no_params)
          else (case path_rest ''/static/'' u of
                  None \<Rightarrow> None | Some a \<Rightarrow> Some (7, no_params\<lparr>string_params := string_params no_params @ [a]\<rparr>))
      | Some a \<Rightarrow> Some (4, no_params\<lparr>string_params := string_params no_params @ [a]\<rparr>))"
  "first_match (map r_rule (rules_for 3 (app_rule_list D i))) 2 u =
     (if u = ''/order/create'' then Some (2, no_params) else if u = ''/order/pay'' then Some (3, no_params) else None)"
  "first_match (map r_rule (rules_for 0 (app_rule_list D i))) 2 u =
     (case path_argument ''/order/delete/'' u of
        None \<Rightarrow> None | Some a \<Rightarrow> Some (2, no_params\<lparr>string_params := string_params no_params @ [a]\<rparr>))"
  by (simp_all only: app_rules_for list.map mk_rule_simps fst_conv first_match.simps)
    (simp_all only: app_tokens option.sel rule_match_literal rule_match_string rule_match_path case_literal case_argument slot_numbers)

text \<open>The literal routes are not of the form of the parameter routes.\<close>

lemma path_argument_literals:
  "path_argument ''/order/get/'' ''/order/list'' = None" "path_argument ''/order/get/'' ''/metrics'' = None"
  by (simp_all add: path_argument_def is_prefix_def)

lemma endpoint_handler_lift: "(\<lambda>req. string_handler D i ep req (no_params\<lparr>string_params := string_params no_params @ [a]\<rparr>)) =
    on_world (endpoint_handler D i (ep a))"
  by (rule ext) (simp add: string_handler_def no_params_def)

lemma plain_handler_lift: "(\<lambda>req. plain_handler D i ep req ps) = on_world (endpoint_handler D i ep)"
  by (rule ext) (simp add: plain_handler_def)

lemma app_router_ok:
  obtains R where "app_router D i = Some (Inr R)"
    "\<And>m. m < internal_method_count \<Longrightarrow> rules (per_methods R ! m) = None # None # map Some (rules_for m (app_rule_list D i))"
    "\<And>m u. m < internal_method_count \<Longrightarrow>
       found_of (find_in R m u) = first_match (map r_rule (rules_for m (app_rule_list D i))) 2 u"
proof -
  obtain R where "router_validate (new_router\<lparr>all_rules := app_rule_list D i\<rparr>) = Some (Inr R)"
    "\<And>m. m < internal_method_count \<Longrightarrow> rules (per_methods R ! m) = None # None # map Some (rules_for m (app_rule_list D i))"
    "\<And>m u. m < internal_method_count \<Longrightarrow>
       found_of (find_in R m u) = first_match (map r_rule (rules_for m (app_rule_list D i))) 2 u"
    using router_validate_ok [OF app_routes_ok] by blast
  moreover from this(1) have "app_router D i = Some (Inr R)"
    by (simp add: app_router_def then_do_def app_rule_list_def app_routes_list)
  ultimately show thesis using that by blast
qed

lemma routed_handler_first:
  assumes "rules (per_methods R ! m) = None # None # map Some rs" "found_of (find_in R m u) = first_match (map r_rule rs) 2 u"
  shows "routed_handler R m u = (case first_match (map r_rule rs) 2 u of
     None \<Rightarrow> None | Some (idx, ps) \<Rightarrow> (case (None # None # map Some rs) ! unat idx of
        None \<Rightarrow> None | Some r \<Rightarrow> map_option (\<lambda>h req. h req ps) (r_handler r)))"
  unfolding routed_handler_def assms ..

lemma app_routed_handler:
  assumes "m < internal_method_count" "app_router D i = Some (Inr R)"
  shows "routed_handler R m u = map_option (\<lambda>ep. on_world (endpoint_handler D i ep)) (endpoint_of m u)"
proof -
  obtain R' where R': "app_router D i = Some (Inr R')"
    "rules (per_methods R' ! m) = None # None # map Some (rules_for m (app_rule_list D i))"
    "found_of (find_in R' m u) = first_match (map r_rule (rules_for m (app_rule_list D i))) 2 u"
    using app_router_ok [of D i] assms(1) by metis
  have R: "R' = R" using R'(1) assms(2) by simp
  note first = routed_handler_first [OF R'(2,3), unfolded R]
  consider (delete) "m = 0" | (get) "m = 1" | (post) "m = 3" | (other) "m \<noteq> 0" "m \<noteq> 1" "m \<noteq> 3" by blast
  then show ?thesis
  proof cases
    case other
    note first [unfolded app_rules_for(4) [OF other]]
    with other show ?thesis by (simp add: endpoint_of_def)
  next
    case delete
    note first [unfolded delete, unfolded first_match_app]
    then show ?thesis
      by (cases "path_argument ''/order/delete/'' u")
        (simp_all add: delete app_rules_for endpoint_of_def endpoint_handler_lift)
  next
    case post
    note first [unfolded post, unfolded first_match_app]
    then show ?thesis by (simp add: post app_rules_for endpoint_of_def plain_handler_lift)
  next
    case get
    note get_first = first [unfolded get, unfolded first_match_app]
    show ?thesis
    proof (cases "path_argument ''/order/get/'' u")
      case None
      then show ?thesis using get_first
        by (cases "path_rest ''/static/'' u")
          (simp_all only: get app_rules_for, simp_all add: endpoint_of_def plain_handler_lift endpoint_handler_lift)
    next
      case (Some a)
      then have "u \<noteq> ''/order/list''" "u \<noteq> ''/metrics''" using path_argument_literals by auto
      with Some show ?thesis using get_first
        by (simp only: get app_rules_for) (simp add: endpoint_of_def plain_handler_lift endpoint_handler_lift)
    qed
  qed
qed

subsection \<open>What no handler touches\<close>

text \<open>
  The handlers change the order and cache counters and the flag \<open>redis_available\<close>; the gauge of
  requests in flight, the request counter, the flags of the life cycle and the settings stay.
  Their responses are new and not completed.
\<close>

definition steady :: "svc \<Rightarrow> svc \<Rightarrow> bool" where
  "steady s s' \<longleftrightarrow> in_flight_requests s' = in_flight_requests s \<and> total_requests s' = total_requests s \<and>
     request_duration_samples s' = request_duration_samples s \<and> shutting_down s' = shutting_down s \<and>
     db_ready s' = db_ready s \<and> max_inflight_requests s' = max_inflight_requests s \<and> api_key s' = api_key s \<and>
     cache_ttl_seconds s' = cache_ttl_seconds s \<and> redis_client s' = redis_client s"

definition plain_response :: "response \<Rightarrow> bool" where
  "plain_response q \<longleftrightarrow> \<not> completed q \<and> \<not> skip_body q \<and> \<not> manual_length_header q"

definition well_behaved :: "('d, 'r) world \<Rightarrow> ('d, 'r) outcome \<Rightarrow> bool" where
  "well_behaved w out \<longleftrightarrow> steady (svc_of w) (svc_of (fst out)) \<and> (\<forall>q. snd out = Inr q \<longrightarrow> plain_response q)"

lemma steady_refl [simp]: "steady s s"
  by (simp add: steady_def)

lemma steady_trans: "steady a b \<Longrightarrow> steady b c \<Longrightarrow> steady a c"
  by (simp add: steady_def)

lemma steady_records [simp]:
  "steady a (record_sqlite_failure b) \<longleftrightarrow> steady a b" "steady a (record_redis_failure b) \<longleftrightarrow> steady a b"
  "steady a (record_redis_success b) \<longleftrightarrow> steady a b" "steady a (b\<lparr>cache_hits := n\<rparr>) \<longleftrightarrow> steady a b"
  "steady a (b\<lparr>cache_misses := n\<rparr>) \<longleftrightarrow> steady a b" "steady a (b\<lparr>orders_created := n\<rparr>) \<longleftrightarrow> steady a b"
  "steady a (b\<lparr>orders_paid := n\<rparr>) \<longleftrightarrow> steady a b"
  by (simp_all add: steady_def record_sqlite_failure_def record_redis_failure_def record_redis_success_def)

lemma svc_of_simps [simp]: "svc_of (on_svc f w) = f (svc_of w)" "svc_of (finish D stmt w) = svc_of w"
  by (simp_all add: on_svc_def finish_def)

lemma plain_responses [simp]:
  "plain_response (json_response J n v)" "plain_response (json_error J n m)" "plain_response (response_body b)"
  "plain_response (metrics_response s)" "plain_response (static_response st p)"
  by (simp_all add: plain_response_def static_response_def set_static_file_info_unsafe_def add_header_def Let_def json_error_def json_response_def response_returnable_def response_body_def
      metrics_response_def res_write_def new_response_def)

lemma cache_steady [simp]:
  "steady (svc_of w) (svc_of (fst (try_cache_order D no t w)))"
  "steady (svc_of w) (svc_of (fst (try_get_cached_order D no w)))"
  "steady (svc_of w) (svc_of (invalidate_cached_order D no w))"
  by (simp_all add: try_cache_order_def try_get_cached_order_def invalidate_cached_order_def
      split: prod.split sum.split option.split)

lemma error_outcome_well: "steady (svc_of w) (svc_of w') \<Longrightarrow> well_behaved w (error_outcome D n m w')"
  by (simp add: well_behaved_def error_outcome_def)

lemma throwing_well: "(\<And>x. r = Inr x \<Longrightarrow> well_behaved w (f x)) \<Longrightarrow> well_behaved w (throwing r w f)"
  by (cases r) (simp_all add: well_behaved_def throwing_def)

lemma insert_order_well: "well_behaved w (insert_order D ts rnd now amount w)"
proof -
  obtain w1 r where c: "create_insert D (generate_order_no ts rnd) now amount w = (w1, r)" by fastforce
  then have s: "steady (svc_of w) (svc_of w1)" "\<And>q. r = Inl q \<Longrightarrow> plain_response q"
    by (auto simp: create_insert_def split: prod.splits option.splits if_splits)
  show ?thesis
  proof (cases r)
    case (Inl q)
    with c s show ?thesis by (simp add: insert_order_def well_behaved_def)
  next
    case (Inr v)
    then show ?thesis using c steady_trans [OF s(1) cache_steady(1)] by (simp add: insert_order_def create_cache_def well_behaved_def)
  qed
qed

lemma create_order_well: "well_behaved w (create_order D ts rnd now req w)"
  by (auto simp: create_order_def Let_def intro!: error_outcome_well throwing_well insert_order_well)

lemma pay_update_well: "well_behaved w (pay_update D now ticket w)"
proof -
  obtain no amount created where t: "ticket = (no, amount, created)" by (cases ticket)
  obtain d x where e: "exec (sq D) update_sql [BInt64 now, BText no] (db w) = (d, x)" by fastforce
  show ?thesis
  proof (cases x)
    case None
    with t e show ?thesis by (simp add: pay_update_def error_outcome_well)
  next
    case (Some y)
    let ?w1 = "on_svc (\<lambda>s. s\<lparr>orders_paid := orders_paid s + 1\<rparr>) (finish D (fst y) (w\<lparr>db := d\<rparr>))"
    have "steady (svc_of w) (svc_of (invalidate_cached_order D no ?w1))"
      using steady_trans [OF _ cache_steady(3), of "svc_of w" ?w1] by simp
    with t e Some show ?thesis
      by (cases y) (simp add: pay_update_def error_outcome_def well_behaved_def Let_def)
  qed
qed

lemma well_behaved_after: "steady (svc_of w) (svc_of w1) \<Longrightarrow> well_behaved w1 out \<Longrightarrow> well_behaved w out"
  by (auto simp: well_behaved_def intro: steady_trans)

lemma pay_order_well: "well_behaved w (pay_order D now req w)"
proof -
  have "well_behaved w (case pay_lookup D no w of (w1, Inl r) \<Rightarrow> (w1, r) | (w1, Inr ticket) \<Rightarrow> pay_update D now ticket w1)" for no
  proof -
    obtain w1 r where l: "pay_lookup D no w = (w1, r)" by fastforce
    then have s: "steady (svc_of w) (svc_of w1)" "\<And>q. r = Inl (Inr q) \<Longrightarrow> plain_response q"
      by (auto simp: pay_lookup_def split: prod.splits option.splits if_splits sum.splits)
    show ?thesis
    proof (cases r)
      case (Inl q)
      with l s show ?thesis by (simp add: well_behaved_def)
    next
      case (Inr ticket)
      with l well_behaved_after [OF s(1) pay_update_well] show ?thesis by simp
    qed
  qed
  then show ?thesis by (auto simp: pay_order_def Let_def intro!: error_outcome_well throwing_well)
qed

lemma get_order_well: "well_behaved w (get_order D no w)"
proof -
  obtain w1 r where c: "try_get_cached_order D no w = (w1, r)" by fastforce
  then have s: "steady (svc_of w) (svc_of w1)" using cache_steady(2) [of w D no] by simp
  have "well_behaved w1 (case exec (sq D) get_sql [BText no] (db w1) of
          (d, None) \<Rightarrow> error_outcome D 500 ''Internal DB error'' (on_svc record_sqlite_failure (w1\<lparr>db := d\<rparr>))
        | (d, Some (stmt, rc)) \<Rightarrow>
            if rc \<noteq> SQLITE_ROW
            then error_outcome D 404 ''Order not found'' (finish D stmt (w1\<lparr>db := d\<rparr>))
            else throwing (string_of_ptr (sq_column_text (sq D) stmt 1 d)) (w1\<lparr>db := d\<rparr>) (\<lambda>status.
                   (finish D stmt (w1\<lparr>db := d\<rparr>),
                    Inr (json_response (json D) 200
                      (order_value D no (sq_column_double (sq D) stmt 0 d) status
                        (sq_column_int64 (sq D) stmt 2 d) (sq_column_int64 (sq D) stmt 3 d))))))"
    by (auto simp: well_behaved_def error_outcome_def throwing_def split: prod.split option.split sum.split)
  with c s show ?thesis
    by (cases r) (auto simp: get_order_def well_behaved_def intro: steady_trans)
qed

lemma delete_order_well: "well_behaved w (delete_order D no w)"
proof -
  have "steady (svc_of w) (svc_of (invalidate_cached_order D no (finish D stmt (w\<lparr>db := d\<rparr>))))" for stmt d
    using cache_steady(3) [of "finish D stmt (w\<lparr>db := d\<rparr>)"] by simp
  then show ?thesis
    by (auto simp: delete_order_def well_behaved_def error_outcome_def Let_def split: prod.split option.split)
qed

lemma list_orders_well: "list_orders fuel D req w = Some out \<Longrightarrow> well_behaved w out"
  by (auto simp: list_orders_def list_query_def list_body_def well_behaved_def error_outcome_def
      split: sum.splits prod.splits option.splits)

lemma endpoint_well: "endpoint_handler D i ep req w = Some out \<Longrightarrow> well_behaved w out"
  by (cases ep)
    (auto simp: endpoint_handler_def healthcheck_def readiness_def well_behaved_def [of w "(w, x)" for x]
      intro: create_order_well pay_order_well get_order_well delete_order_well list_orders_well)

subsection \<open>A request served\<close>

lemma first_match_index:
  "first_match ss k u = Some (idx, ps) \<Longrightarrow> \<exists>j < length ss. idx = of_nat (k + j)"
proof (induction ss arbitrary: k)
  case (Cons s ss)
  show ?case
  proof (cases "rule_match (the (rule_tokens s)) u 0 no_params")
    case None
    with Cons.prems have "first_match ss (Suc k) u = Some (idx, ps)" by simp
    with Cons.IH obtain j where "j < length ss" "idx = of_nat (Suc k + j)" by blast
    then show ?thesis by (intro exI [of _ "Suc j"]) simp
  qed (use Cons.prems in auto)
qed simp

lemma names_handler_routed:
  assumes "rules (per_methods R ! m) = None # None # map Some rs" "found_of (find_in R m u) = first_match (map r_rule rs) 2 u"
    "length rs + 2 \<le> 2 ^ 16" "m < internal_method_count" "routed_handler R m u = Some g"
  shows "\<exists>h. names_handler R (found_result (find_in R m u) (Some m)) h \<and>
    (\<forall>req. h req (f_params (found_result (find_in R m u) (Some m))) = g req)"
proof -
  obtain idx ps where f: "found_of (find_in R m u) = Some (idx, ps)"
    using assms(5) by (auto simp: routed_handler_def split: option.splits)
  then have ret: "rule_index (find_in R m u) = idx" "r_params (find_in R m u) = ps"
    by (auto simp: found_of_def split: if_splits)
  obtain j where j: "j < length rs" "idx = of_nat (2 + j)"
    using first_match_index [of "map r_rule rs" 2 u idx ps] f assms(2) by auto
  have "2 + j < 2 ^ 16" using j(1) assms(3) by simp
  then have i: "unat idx = 2 + j" unfolding j(2) by (subst unat_of_nat) (simp only: len_num1 len_num0 len_bit0 mod_less mult_1_right, simp)
  then have slot: "rules (per_methods R ! m) ! unat idx = Some (rs ! j)" using j(1) by (simp add: assms(1))
  then obtain h where h: "r_handler (rs ! j) = Some h" "g = (\<lambda>req. h req ps)"
    using assms(5) f by (auto simp: routed_handler_def)
  have "names_handler R (found_result (find_in R m u) (Some m)) h"
    using h(1) slot i j(1) assms(1,4) by (simp add: names_handler_def found_result_def ret RULE_SPECIAL_REDIRECT_SLASH_def)
  with h(2) show ?thesis by (auto simp: found_result_def ret)
qed

lemma app_names_handler:
  assumes "app_router D i = Some (Inr R)" "m < internal_method_count" "endpoint_of m u = Some ep"
  obtains h where "names_handler R (found_result (find_in R m u) (Some m)) h"
    "\<And>req. h req (f_params (found_result (find_in R m u) (Some m))) = on_world (endpoint_handler D i ep) req"
proof -
  obtain R' where R': "app_router D i = Some (Inr R')"
    "rules (per_methods R' ! m) = None # None # map Some (rules_for m (app_rule_list D i))"
    "found_of (find_in R' m u) = first_match (map r_rule (rules_for m (app_rule_list D i))) 2 u"
    using app_router_ok [of D i] assms(2) by metis
  have R: "R' = R" using R'(1) assms(1) by simp
  have "length (rules_for m (app_rule_list D i)) \<le> 9"
    using length_filter_le [of "\<lambda>r. m \<in> set (foreach_method (r_methods r))" "app_rule_list D i"]
    by (simp add: rules_for_def app_rules)
  then have "length (rules_for m (app_rule_list D i)) + 2 \<le> 2 ^ 16" by simp
  then show thesis
    using names_handler_routed [OF R'(2,3) [unfolded R] _ assms(2)] app_routed_handler [OF assms(2,1), of u] assms(3) that
    by (metis option.simps(9))
qed

lemma request_served:
  fixes c :: "('d, 'r) conn"
  assumes app: "app_router D i = Some (Inr R)" "req_method (c_req c) < internal_method_count"
      "endpoint_of (req_method (c_req c)) (url (c_req c)) = Some ep"
    and found: "c_found c = Some (found_result (find_in R (req_method (c_req c)) (url (c_req c))) (Some (req_method (c_req c))))"
    and fresh: "\<not> completed res" "\<not> counted_inflight (c_ctx c)" "is_open c"
    and adm: "admitted (c_req c) (svc_in c)"
    and run: "endpoint_handler D i ep (c_req c) (c_world (entered S c res)) = Some (w, r)" "\<forall>what. r \<noteq> Inl (UB what)"
  obtains c' res' where "dispatch S R (c, res) = Some (Inr (c', res'))" "in_flight c' = in_flight c"
    "total_requests (svc_in c') = total_requests (svc_in c) + 1" "db (c_world c') = db w" "cache (c_world c') = cache w"
    "sent c' = sent c @ response_text S (add_keep_alive c) (error_filled (s_json S) (sealed (handler_response r res)))"
    "policy (svc_in c') = policy (svc_in c)" "open_still c \<Longrightarrow> idle (c', res') \<and> \<not> close_conn c'"
proof -
  obtain h where h: "names_handler R (found_result (find_in R (req_method (c_req c)) (url (c_req c))) (Some (req_method (c_req c)))) h"
    "\<And>req. h req (f_params (found_result (find_in R (req_method (c_req c)) (url (c_req c))) (Some (req_method (c_req c))))) =
       on_world (endpoint_handler D i ep) req"
    using app_names_handler [OF app] by metis
  have well: "well_behaved (c_world (entered S c res)) (w, r)" using endpoint_well [OF run(1)] .
  then have st: "steady (svc_in (entered S c res)) (svc_of w)" and q: "\<forall>q. r = Inr q \<longrightarrow> \<not> completed q"
    by (auto simp: well_behaved_def plain_response_def)
  have tot: "total_requests (svc_of w) = total_requests (svc_in c)"
    using st entered_simps(1) [OF fresh(1) adm, of S] by (simp add: steady_def)
  obtain c' res' where d: "dispatch S R (c, res) = Some (Inr (c', res'))" "in_flight c' = in_flight c"
    "total_requests (svc_in c') = total_requests (svc_of w) + 1" "db (c_world c') = db w" "cache (c_world c') = cache w"
    "sent c' = sent c @ response_text S (add_keep_alive c) (error_filled (s_json S) (sealed (handler_response r res)))"
    "policy (svc_in c') = policy (svc_of w)" "open_still c \<Longrightarrow> idle (c', res') \<and> \<not> close_conn c'"
  proof (rule dispatch_served [OF found h(1) fresh adm _ run(2) q, of S w])
    show "h (c_req c) (f_params (found_result (find_in R (req_method (c_req c)) (url (c_req c))) (Some (req_method (c_req c)))))
        (entered S c res) = Some ((entered S c res)\<lparr>c_world := w\<rparr>, r)"
      using run(1) by (simp add: h(2) on_world_def)
    show "in_flight_requests (svc_of w) = in_flight (entered S c res)" using st by (simp add: steady_def)
  qed blast
  have "policy (svc_of w) = policy (svc_in c)"
    using st entered_simps(1) [OF fresh(1) adm, of S] by (simp add: steady_def policy_def)
  with that [OF d(1,2) _ d(4-6)] d(3,7,8) tot show thesis by simp
qed

end
