(* ===== verification/Session.thy ===== *)
theory Session
  imports Service
begin

text \<open>
  A connection over its whole life: the events of one HTTP message from the request line to its end,
  the request that the parser callbacks of \<open>crow/parser.h\<close> build from them, the answer that reaches
  the socket, and the loop of \<open>Connection::do_read\<close>, which feeds one buffer after the other as
  long as the connection stays open.
\<close>

subsection \<open>Messages\<close>

text \<open>
  What the byte-level parser reports of a message: the method, the raw url with the position of
  its query, the headers, the version with the connection flags, and the body.
\<close>

record message =
  m_method :: nat
  m_url :: string
  m_qs :: nat
  m_headers :: "(string \<times> string) list"
  m_line :: request_line
  m_body :: string

definition header_pair_events :: "(string \<times> string) list \<Rightarrow> event list" where
  "header_pair_events hs = concat (map (\<lambda>(f, v). [OnHeaderField f, OnHeaderValue v]) hs)"

definition message_events :: "message \<Rightarrow> event list" where
  "message_events q = [OnMethod (m_method q), OnUrl (m_url q) (m_qs q)] @ header_pair_events (m_headers q) @
     [OnHeadersComplete (m_line q)] @ (if m_body q = [] then [] else [OnBody (m_body q)]) @ [OnMessageComplete]"

text \<open>The request as the message spells it.\<close>

definition message_start :: "message \<Rightarrow> request" where
  "message_start q = empty_request\<lparr>req_method := m_method q, raw_url := m_url q, url_params := query_string_of (m_url q) True,
     url := (if m_qs q \<noteq> 0 then take (m_qs q) (m_url q) else m_url q)\<rparr>"

definition message_head :: "message \<Rightarrow> request" where
  "message_head q = set_connection_parameters (m_line q) (fold (\<lambda>(f, v). req_add_header f v) (m_headers q) (message_start q))"

definition message_request :: "settings \<Rightarrow> message \<Rightarrow> request" where
  "message_request S q = (message_head q)\<lparr>req_body := m_body q, remote_ip_address := peer_address S\<rparr>"

definition expects_continue :: "request \<Rightarrow> bool" where
  "expects_continue req \<longleftrightarrow> check_version req 1 1 \<and> get_header_value (req_headers req) ''expect'' = ''100-continue''"

definition interim :: "request \<Rightarrow> string" where
  "interim req = (if expects_continue req then ''HTTP/1.1 100 Continue'' @ CRLF @ CRLF else [])"

subsection \<open>From events to the request\<close>

text \<open>The parser between two headers, with the last header still to be added.\<close>

definition between_headers :: "('d, 'r) conn \<Rightarrow> bool" where
  "between_headers c \<longleftrightarrow> header_building_state c = 0 \<and> (header_field c = [] \<longleftrightarrow> header_value c = [])"

definition flushed :: "('d, 'r) conn \<Rightarrow> ('d, 'r) conn" where
  "flushed c = c\<lparr>c_req := pending_header c, header_field := [], header_value := []\<rparr>"

definition whole_headers :: "(string \<times> string) list \<Rightarrow> bool" where
  "whole_headers hs \<longleftrightarrow> list_all (\<lambda>(f, v). f \<noteq> [] \<and> v \<noteq> []) hs"

lemma header_event_flushed:
  assumes "between_headers c" "f \<noteq> []" "v \<noteq> []"
  shows "between_headers (header_events [f] [v] c)"
    "flushed (header_events [f] [v] c) = (flushed c)\<lparr>c_req := req_add_header f v (pending_header c)\<rparr>"
    "pending_header (header_events [f] [v] c) = req_add_header f v (pending_header c)"
  using assms
  by (simp_all add: between_headers_def flushed_def header_events_def on_header_field_def on_header_value_def
      pending_header_def Let_def)

lemma all_headers_flushed:
  "between_headers c \<Longrightarrow> whole_headers hs \<Longrightarrow> between_headers (all_headers hs c) \<and>
     pending_header (all_headers hs c) = fold (\<lambda>(f, v). req_add_header f v) hs (pending_header c) \<and>
     flushed (all_headers hs c) = (flushed c)\<lparr>c_req := fold (\<lambda>(f, v). req_add_header f v) hs (pending_header c)\<rparr>"
proof (induction hs arbitrary: c)
  case Nil
  then show ?case by (simp add: all_headers_def flushed_def)
next
  case (Cons h hs)
  obtain f v where h: "h = (f, v)" by (cases h)
  with Cons.prems have "f \<noteq> []" "v \<noteq> []" "whole_headers hs" by (simp_all add: whole_headers_def)
  with Cons.IH [of "header_events [f] [v] c"] header_event_flushed [OF Cons.prems(1), of f v]
  show ?case by (simp add: all_headers_def h)
qed

lemma headers_complete_flushed:
  "between_headers c \<Longrightarrow> on_headers_complete_request l c = (flushed c)\<lparr>c_req := set_connection_parameters l (pending_header c)\<rparr>"
  by (auto simp: between_headers_def on_headers_complete_request_def flushed_def pending_header_def Let_def)

lemma all_headers_complete:
  assumes "header_building_state c = 0" "header_field c = []" "header_value c = []" "whole_headers hs"
  shows "on_headers_complete_request l (all_headers hs c) =
    c\<lparr>c_req := set_connection_parameters l (fold (\<lambda>(f, v). req_add_header f v) hs (c_req c))\<rparr>"
proof -
  have c: "between_headers c" "pending_header c = c_req c" "flushed c = c"
    using assms(1-3) by (simp_all add: between_headers_def pending_header_def flushed_def)
  with all_headers_flushed [OF c(1) assms(4)] show ?thesis by (simp add: headers_complete_flushed)
qed

lemma header_events_error [simp]: "parse_error (header_events [f] [v] c) = parse_error c"
  by (simp add: header_events_def on_header_field_def on_header_value_def Let_def)

lemma all_headers_error [simp]: "parse_error (all_headers hs c) = parse_error c"
  by (induction hs arbitrary: c) (simp_all add: all_headers_def case_prod_unfold)

lemma run_header_events:
  "\<not> parse_error c \<Longrightarrow> run_events S R (header_pair_events hs @ es) (c, res) = run_events S R es (all_headers hs c, res)"
proof (induction hs arbitrary: c)
  case (Cons h hs)
  obtain f v where h: "h = (f, v)" by (cases h)
  have "\<not> parse_error (on_header_field f c)" using Cons.prems by (simp add: on_header_field_def Let_def)
  with Cons h show ?case
    by (simp add: header_pair_events_def all_headers_def conn_event_def then_do_def header_events_def on_header_value_def)
qed (simp add: header_pair_events_def all_headers_def)


lemma fold_headers_simps [simp]:
  "url (fold (\<lambda>(f, v). req_add_header f v) hs req) = url req"
  "req_method (fold (\<lambda>(f, v). req_add_header f v) hs req) = req_method req"
  "req_body (fold (\<lambda>(f, v). req_add_header f v) hs req) = req_body req"
  by (induction hs arbitrary: req) (auto simp: req_add_header_def)

lemma message_simps [simp]:
  "url (message_head q) = url (message_start q)" "req_method (message_head q) = m_method q" "req_body (message_head q) = []"
  "url (message_request S q) = url (message_start q)" "req_method (message_request S q) = m_method q"
  by (simp_all add: message_head_def message_request_def set_connection_parameters_def message_start_def empty_request_def)

lemma app_route_found:
  assumes "app_router D i = Some (Inr R)" "m < internal_method_count" "endpoint_of m u = Some ep"
  shows "matches_in R m u" "m \<noteq> method_num Head" "m \<noteq> method_num Options"
proof -
  have "routed_handler R m u \<noteq> None" using app_routed_handler [OF assms(2,1), of u] assms(3) by simp
  then show "matches_in R m u" by (auto simp: routed_handler_def found_of_def matches_in_def split: option.splits if_splits)
  show "m \<noteq> method_num Head" "m \<noteq> method_num Options" using assms(3) by (auto simp: endpoint_of_def split: if_splits)
qed

lemma handle_url_routed:
  assumes "matches_in R m u" "m \<noteq> method_num Head" "m \<noteq> method_num Options" "m < internal_method_count"
    "req_method (c_req c) = m" "url (c_req c) = u"
  shows "handle_url S R (c, res) = (c\<lparr>c_found := Some (found_result (find_in R m u) (Some m))\<rparr>, res)"
  using assms by (simp add: handle_url_def handle_initial_def found_result_def matches_in_def unat_eq_zero)

definition awaiting :: "settings \<Rightarrow> 'w router \<Rightarrow> message \<Rightarrow> ('d, 'r) conn \<Rightarrow> ('d, 'r) conn" where
  "awaiting S R q c = c\<lparr>c_req := (message_head q)\<lparr>req_body := m_body q\<rparr>,
     c_found := Some (found_result (find_in R (m_method q) (url (message_start q))) (Some (m_method q))),
     qs_point := m_qs q, between_messages := False, message_complete := True,
     buffers := (if expects_continue (message_head q) then interim (message_head q) else buffers c),
     sent := sent c @ interim (message_head q)\<rparr>"

definition awaiting_response :: "message \<Rightarrow> response \<Rightarrow> response" where
  "awaiting_response q res = (if expects_continue (message_head q) then response_clear res else res)"

lemma handle_header_expects:
  "handle_header (c, res) = (if expects_continue (c_req c)
     then do_write_sync (interim (c_req c)) (c\<lparr>continue_requested := True, buffers := interim (c_req c)\<rparr>, res) else (c, res))"
  by (simp only: handle_header_def expects_continue_def interim_def prod.case Let_def if_True simp_thms cong: if_cong)

lemma handle_header_interim:
  "is_open c \<Longrightarrow> \<not> continue_requested c \<Longrightarrow> handle_header (c, res) =
     (c\<lparr>buffers := (if expects_continue (c_req c) then interim (c_req c) else buffers c), sent := sent c @ interim (c_req c)\<rparr>,
      if expects_continue (c_req c) then response_clear res else res)"
  by (cases "expects_continue (c_req c)")
    (simp_all add: handle_header_expects do_write_sync_def send_def interim_def [of "c_req c"])

lemma then_do_nothing: "then_do x (run_events S R []) = x"
  by (auto simp: then_do_def split: option.split sum.split)

lemma on_body_empty: "on_body [] c = c"
proof -
  have "(c_req c)\<lparr>req_body := req_body (c_req c)\<rparr> = c_req c" by simp
  then show ?thesis by (simp add: on_body_def)
qed

lemma run_message_end:
  assumes "\<not> parse_error c"
  shows "run_events S R ((if b = [] then [] else [OnBody b]) @ [OnMessageComplete]) (c, res) =
    handle S R ((on_body b c)\<lparr>message_complete := True\<rparr>, res)"
proof (cases "b = []")
  case True
  with assms show ?thesis by (simp add: conn_event_def then_do_nothing on_body_empty)
next
  case False
  have "\<not> parse_error (on_body b c)" using assms by (simp add: on_body_def)
  with assms False show ?thesis by (simp add: conn_event_def then_do_nothing then_do_def [of "Some (Inr x)" for x])
qed

text \<open>The connection after the request line of a message that names an endpoint.\<close>

definition line_received :: "'w router \<Rightarrow> message \<Rightarrow> ('d, 'r) conn \<Rightarrow> ('d, 'r) conn" where
  "line_received R q c = c\<lparr>c_req := message_start q, qs_point := m_qs q, between_messages := False,
     c_found := Some (found_result (find_in R (m_method q) (url (message_start q))) (Some (m_method q)))\<rparr>"

lemma idle_fields:
  assumes "idle (c, res)"
  shows "c_req c = empty_request" "header_field c = []" "header_value c = []" "header_building_state c = 0"
    "\<not> message_complete c" "between_messages c" "qs_point c = 0"
proof -
  have clear: "parser_clear c = c" using assms by (simp add: idle_def)
  show "c_req c = empty_request" "header_field c = []" "header_value c = []" "header_building_state c = 0"
    "\<not> message_complete c" "between_messages c" "qs_point c = 0" by (subst clear [symmetric], simp add: parser_clear_def)+
qed

lemma line_received_simps [simp]:
  "is_open (line_received R q c) = is_open c" "parse_error (line_received R q c) = parse_error c"
  "continue_requested (line_received R q c) = continue_requested c" "sent (line_received R q c) = sent c"
  "buffers (line_received R q c) = buffers c" "\<not> between_messages (line_received R q c)"
  by (simp_all add: line_received_def)

lemma url_routed:
  assumes "app_router D i = Some (Inr R)" "m_method q < internal_method_count"
      "endpoint_of (m_method q) (url (message_start q)) = Some ep" "idle (c, res)"
  shows "handle_url S R (on_url_request (m_url q) (m_qs q) (on_method (m_method q) c), res) = (line_received R q c, res)"
proof -
  have start: "on_url_request (m_url q) (m_qs q) (on_method (m_method q) c) = (line_received R q c)\<lparr>c_found := c_found c\<rparr>"
    using idle_fields(1) [OF assms(4)]
    by (simp add: on_url_request_def on_method_def message_start_def line_received_def empty_request_def Let_def)
  show ?thesis
    unfolding start using handle_url_routed [OF app_route_found [OF assms(1-3)] assms(2)]
    by (simp add: message_start_def line_received_def)
qed

lemma request_parsed:
  assumes app: "app_router D i = Some (Inr R)" "m_method q < internal_method_count"
      "endpoint_of (m_method q) (url (message_start q)) = Some ep"
    and c: "idle (c, res)" and hs: "whole_headers (m_headers q)"
  shows "feed S R (message_events q) (c, res) = handle S R (awaiting S R q c, awaiting_response q res)"
proof -
  have clear: "parser_clear c = c" "is_open c" "\<not> parse_error c" "\<not> continue_requested c" using c by (simp_all add: idle_def)
  note fields = idle_fields [OF c]
  let ?c1 = "line_received R q c"
  let ?c2 = "?c1\<lparr>c_req := message_head q\<rparr>"
  let ?c3 = "?c2\<lparr>buffers := (if expects_continue (message_head q) then interim (message_head q) else buffers c),
     sent := sent c @ interim (message_head q)\<rparr>"
  note url = url_routed [OF app c, of S]
  have head: "on_headers_complete_request (m_line q) (all_headers (m_headers q) ?c1) = ?c2"
    using all_headers_complete [of ?c1 "m_headers q" "m_line q"] fields hs by (simp add: message_head_def line_received_def)
  have "handle_header (?c2, res) = (?c3, awaiting_response q res)"
    using handle_header_interim [of ?c2 res] clear(2,4) by (simp add: awaiting_response_def)
  then have complete: "handle_header (on_headers_complete_request (m_line q) (all_headers (m_headers q) ?c1), res) =
      (?c3, awaiting_response q res)" unfolding head .
  let ?tail = "(if m_body q = [] then [] else [OnBody (m_body q)]) @ [OnMessageComplete]"
  have "feed S R (message_events q) (c, res) = run_events S R (message_events q) (c, res)" using fields(5) by (simp add: feed_def)
  also have "\<dots> = run_events S R (OnUrl (m_url q) (m_qs q) # header_pair_events (m_headers q) @ OnHeadersComplete (m_line q) # ?tail)
      (on_method (m_method q) c, res)"
    using clear(3) by (simp add: message_events_def conn_event_def then_do_def)
  also have "\<dots> = run_events S R (header_pair_events (m_headers q) @ OnHeadersComplete (m_line q) # ?tail) (?c1, res)"
  proof -
    have "\<not> parse_error (on_method (m_method q) c)" using clear(3) by (simp add: on_method_def)
    then show ?thesis by (simp add: conn_event_def then_do_def url)
  qed
  also have "\<dots> = run_events S R (OnHeadersComplete (m_line q) # ?tail) (all_headers (m_headers q) ?c1, res)"
    using clear(3) by (intro run_header_events) simp
  also have "\<dots> = run_events S R ?tail (?c3, awaiting_response q res)"
    using clear(3) complete by (simp add: conn_event_def then_do_def)
  also have "\<dots> = handle S R ((on_body (m_body q) ?c3)\<lparr>message_complete := True\<rparr>, awaiting_response q res)"
    using clear(3) by (intro run_message_end) simp
  also have "(on_body (m_body q) ?c3)\<lparr>message_complete := True\<rparr> = awaiting S R q c"
    by (cases "expects_continue (message_head q)") (simp_all add: awaiting_def on_body_def line_received_def)
  finally show ?thesis .
qed


subsection \<open>A message and its answer\<close>

text \<open>
  A message that names an endpoint, is well formed for the protocol (with a host, if it is of version
  1.1) and asks for no upgrade.
\<close>

definition proper :: "message \<Rightarrow> bool" where
  "proper q \<longleftrightarrow> m_method q < internal_method_count \<and> whole_headers (m_headers q) \<and>
     (check_version (message_head q) 1 1 \<longrightarrow>
        ci_count ''host'' (req_headers (message_head q)) \<noteq> 0 \<and> (upgrade (message_head q) \<longrightarrow> is_h2 (message_head q)))"

text \<open>The world in which the handler of an admitted request runs.\<close>

definition counted_in :: "message \<Rightarrow> ('d, 'r) world \<Rightarrow> ('d, 'r) world" where
  "counted_in q w = on_svc (\<lambda>s. s\<lparr>in_flight_requests := in_flight_requests s + (if is_probe_path (url (message_start q)) then 0 else 1)\<rparr>) w"

text \<open>The text that answers a message whose handler gave \<open>r\<close>.\<close>

definition answer_text :: "settings \<Rightarrow> message \<Rightarrow> response result \<Rightarrow> string" where
  "answer_text S q r = interim (message_head q) @
     response_text S (keep_alive (message_head q)) (error_filled (s_json S) (sealed (handler_response r new_response)))"

lemma sealed_fresh:
  assumes "\<not> skip_body res" "\<not> manual_length_header res"
  shows "response_text S ka (error_filled J (sealed (handler_response r res))) =
    response_text S ka (error_filled J (sealed (handler_response r new_response)))"
proof -
  let ?b = "complete_request_handler res"
  have "sealed (handler_response r res) = (sealed (handler_response r new_response))\<lparr>complete_request_handler := ?b\<rparr>"
    using assms by (cases r; cases res) (auto simp: handler_response_def sealed_def response_assign_def
        default_exception_handler_def new_response_def Let_def split: exn.split)
  moreover have "error_filled J (p\<lparr>complete_request_handler := ?b\<rparr>) = (error_filled J p)\<lparr>complete_request_handler := ?b\<rparr>" for p
    by (simp add: error_filled_def set_header_def)
  ultimately show ?thesis by (simp add: response_text_def final_response_handler Let_def)
qed

text \<open>The connection as \<open>handle\<close> passes it to the middlewares.\<close>

definition message_received :: "settings \<Rightarrow> 'w router \<Rightarrow> message \<Rightarrow> ('d, 'r) conn \<Rightarrow> ('d, 'r) conn" where
  "message_received S R q c = (awaiting S R q c)\<lparr>c_ctx := new_context, c_req := message_request S q,
     add_keep_alive := keep_alive (message_head q), close_conn := close_connection (message_head q),
     need_to_call_after_handlers := False\<rparr>"

lemma message_request_simps [simp]:
  "check_version (message_request S q) = check_version (message_head q)" "upgrade (message_request S q) = upgrade (message_head q)"
  "req_headers (message_request S q) = req_headers (message_head q)" "is_h2 (message_request S q) = is_h2 (message_head q)"
  "keep_alive (message_request S q) = keep_alive (message_head q)"
  "close_connection (message_request S q) = close_connection (message_head q)"
  by (simp_all add: message_request_def check_version_def fun_eq_iff is_h2_def req_get_header_value_def)

lemma handle_proper:
  assumes "proper q"
  shows "handle S R (awaiting S R q c, res) = dispatch S R (message_received S R q c, res)"
proof -
  have req: "(c_req (awaiting S R q c))\<lparr>remote_ip_address := peer_address S\<rparr> = message_request S q"
    by (simp add: awaiting_def message_request_def)
  show ?thesis
    using assms unfolding handle_def prod.case Let_def req by (auto simp: proper_def message_received_def)
qed

lemma message_received_simps [simp]:
  "c_world (message_received S R q c) = c_world c" "c_req (message_received S R q c) = message_request S q"
  "c_ctx (message_received S R q c) = new_context" "is_open (message_received S R q c) = is_open c" "parse_error (message_received S R q c) = parse_error c"
  "continue_requested (message_received S R q c) = continue_requested c" "add_keep_alive (message_received S R q c) = keep_alive (message_head q)"
  "close_conn (message_received S R q c) = close_connection (message_head q)"
  "c_found (message_received S R q c) = Some (found_result (find_in R (m_method q) (url (message_start q))) (Some (m_method q)))"
  "sent (message_received S R q c) = sent c @ interim (message_head q)" "\<not> need_to_call_after_handlers (message_received S R q c)"
  by (simp_all add: message_received_def awaiting_def)

lemma awaiting_response_simps [simp]:
  "\<not> completed res \<Longrightarrow> \<not> completed (awaiting_response q res)" "skip_body (awaiting_response q res) = skip_body res"
  "manual_length_header (awaiting_response q res) = manual_length_header res"
  by (simp_all add: awaiting_response_def)

lemma message_served:
  assumes app: "app_router D i = Some (Inr R)" "endpoint_of (m_method q) (url (message_start q)) = Some ep"
    and q: "proper q" and c: "idle (c, res)" and adm: "admitted (message_request S q) (svc_in c)"
    and run: "endpoint_handler D i ep (message_request S q) (counted_in q (c_world c)) = Some (w, r)" "\<forall>what. r \<noteq> Inl (UB what)"
  obtains c' res' where "feed S R (message_events q) (c, res) = Some (Inr (c', res'))" "in_flight c' = in_flight c"
    "total_requests (svc_in c') = total_requests (svc_in c) + 1" "db (c_world c') = db w" "cache (c_world c') = cache w"
    "sent c' = sent c @ answer_text S q r" "policy (svc_in c') = policy (svc_in c)"
    "\<not> close_connection (message_head q) \<Longrightarrow> idle (c', res') \<and> \<not> close_conn c'"
proof -
  let ?c = "message_received S R q c" and ?res = "awaiting_response q res"
  have m: "m_method q < internal_method_count" "whole_headers (m_headers q)" using q by (simp_all add: proper_def)
  have idle: "is_open c" "\<not> parse_error c" "\<not> continue_requested c" "\<not> completed res" "\<not> skip_body res" "\<not> manual_length_header res"
    using c by (simp_all add: idle_def)
  have feed: "feed S R (message_events q) (c, res) = dispatch S R (?c, ?res)"
    using request_parsed [OF app(1) m(1) app(2) c m(2), of S] handle_proper [OF q] by simp
  have ctx: "\<not> counted_inflight (c_ctx ?c)" by (simp add: new_context_def)
  have adm': "admitted (c_req ?c) (svc_in ?c)" using adm by simp
  have res: "\<not> completed ?res" using idle(4) by simp
  have w: "c_world (entered S ?c ?res) = counted_in q (c_world c)"
    using entered_simps(1,10,11) [OF res adm', of S] by (intro world.equality) (simp_all add: counted_in_def on_svc_def)
  obtain c' res' where d: "dispatch S R (?c, ?res) = Some (Inr (c', res'))" "in_flight c' = in_flight ?c"
    "total_requests (svc_in c') = total_requests (svc_in ?c) + 1" "db (c_world c') = db w" "cache (c_world c') = cache w"
    "sent c' = sent ?c @ response_text S (add_keep_alive ?c) (error_filled (s_json S) (sealed (handler_response r ?res)))"
    "policy (svc_in c') = policy (svc_in ?c)" "open_still ?c \<Longrightarrow> idle (c', res') \<and> \<not> close_conn c'"
    by (rule request_served [of D i R ?c ep ?res S w r]) (use app m idle ctx adm' res run w in simp_all)
  have "sent c' = sent c @ answer_text S q r"
    using d(6) idle(5,6) sealed_fresh [of ?res S "keep_alive (message_head q)" "s_json S" r] by (simp add: answer_text_def)
  with d idle feed show thesis by (intro that [of c' res']) (simp_all add: open_still_def)
qed


subsection \<open>The read loop\<close>

text \<open>
  \<open>do_read\<close> on the buffers that arrive one after the other, each with the values that \<open>time\<close> and \<open>rand\<close>
  give while it is processed. The routes are the same for all of them, only these values differ.
\<close>

fun do_read :: "('d, 's, 'r) deps \<Rightarrow> settings \<Rightarrow> (inputs \<times> event list) list \<Rightarrow> ('d, 'r) cs \<Rightarrow> (next_read \<times> ('d, 'r) cs) result option" where
  "do_read D S [] cr = Some (Inr (Reading, cr))"
| "do_read D S ((i, es) # reads) cr =
     then_do (app_router D i) (\<lambda>R.
       then_do (feed S R es cr) (\<lambda>(c, res).
         case after_read c of
           (Reading, c1) \<Rightarrow> do_read D S reads (c1, res)
         | (n, c1) \<Rightarrow> Some (Inr (n, c1, res))))"

text \<open>
  What a session promises: every message is handled on the database and the cache that the one
  before left, and its answer follows the answer of the one before.
\<close>

inductive exchanges :: "('d, 's, 'r) deps \<Rightarrow> settings \<Rightarrow> (inputs \<times> message) list \<Rightarrow> ('d, 'r) world \<Rightarrow> string \<Rightarrow> ('d, 'r) world \<Rightarrow> bool"
  for D S where
  none: "exchanges D S [] w [] w"
| one: "endpoint_of (m_method q) (url (message_start q)) = Some ep \<Longrightarrow>
    endpoint_handler D i ep (message_request S q) (counted_in q w) = Some (w1, r) \<Longrightarrow>
    db w2 = db w1 \<Longrightarrow> cache w2 = cache w1 \<Longrightarrow> in_flight_requests (svc_of w2) = in_flight_requests (svc_of w) \<Longrightarrow>
    total_requests (svc_of w2) = total_requests (svc_of w) + 1 \<Longrightarrow>
    exchanges D S qs w2 out w' \<Longrightarrow> exchanges D S ((i, q) # qs) w (answer_text S q r @ out) w'"

inductive_cases exchanges_oneE: "exchanges D S ((i, q) # qs) w out w'"

text \<open>A message that keeps the connection open and whose handler always comes to an end.\<close>

definition answerable :: "('d, 's, 'r) deps \<Rightarrow> settings \<Rightarrow> inputs \<times> message \<Rightarrow> bool" where
  "answerable D S x \<longleftrightarrow> (case x of (i, q) \<Rightarrow> proper q \<and> \<not> close_connection (message_head q) \<and>
     (\<exists>ep. endpoint_of (m_method q) (url (message_start q)) = Some ep \<and>
        (\<forall>w. \<exists>w1 r. endpoint_handler D i ep (message_request S q) w = Some (w1, r) \<and> (\<forall>what. r \<noteq> Inl (UB what)))))"

lemma exchanges_counters:
  "exchanges D S qs w out w' \<Longrightarrow> in_flight_requests (svc_of w') = in_flight_requests (svc_of w) \<and>
     total_requests (svc_of w') = total_requests (svc_of w) + of_nat (length qs)"
  by (induction rule: exchanges.induct) simp_all

lemma after_read_idle: "idle (c, res) \<Longrightarrow> \<not> close_conn c \<Longrightarrow> after_read c = (Reading, c)"
  by (simp add: idle_def after_read_def)

text \<open>One message of a session, with the step of the specification that it takes.\<close>

lemma message_exchanged:
  assumes c: "idle (c, res)" and q: "answerable D S (i, q)" "admitted (message_request S q) (svc_in c)"
  obtains R c1 res1 t where "app_router D i = Some (Inr R)" "feed S R (message_events q) (c, res) = Some (Inr (c1, res1))"
    "idle (c1, res1)" "\<not> close_conn c1" "\<forall>req. admitted req (svc_in c1) \<longleftrightarrow> admitted req (svc_in c)" "sent c1 = sent c @ t"
    "\<forall>qs out w'. exchanges D S qs (c_world c1) out w' \<longrightarrow> exchanges D S ((i, q) # qs) (c_world c) (t @ out) w'"
proof -
  obtain ep w r where ep: "proper q" "\<not> close_connection (message_head q)" "endpoint_of (m_method q) (url (message_start q)) = Some ep"
    "endpoint_handler D i ep (message_request S q) (counted_in q (c_world c)) = Some (w, r)" "\<forall>what. r \<noteq> Inl (UB what)"
    using q(1) unfolding answerable_def prod.case by meson
  obtain R where R: "app_router D i = Some (Inr R)" using app_router_ok by metis
  obtain c1 res1 where s: "feed S R (message_events q) (c, res) = Some (Inr (c1, res1))" "in_flight c1 = in_flight c"
    "total_requests (svc_in c1) = total_requests (svc_in c) + 1" "db (c_world c1) = db w" "cache (c_world c1) = cache w"
    "sent c1 = sent c @ answer_text S q r" "policy (svc_in c1) = policy (svc_in c)" "idle (c1, res1)" "\<not> close_conn c1"
    using message_served [OF R ep(3,1) c q(2) ep(4,5)] ep(2) by metis
  show thesis
    by (rule that [OF R s(1) s(8,9) _ s(6)]) (use admitted_same [OF s(2,7)] exchanges.one [OF ep(3,4) s(4,5,2,3)] in auto)
qed

lemma do_read_answers:
  "idle (c, res) \<Longrightarrow> list_all (answerable D S) qs \<Longrightarrow> list_all (\<lambda>(i, q). admitted (message_request S q) (svc_in c)) qs \<Longrightarrow>
     \<exists>c' res' out. do_read D S (map (\<lambda>(i, q). (i, message_events q)) qs) (c, res) = Some (Inr (Reading, c', res')) \<and>
       idle (c', res') \<and> exchanges D S qs (c_world c) out (c_world c') \<and> sent c' = sent c @ out"
proof (induction qs arbitrary: c res)
  case Nil
  then show ?case by (auto intro: exchanges.none)
next
  case (Cons x qs)
  obtain i q where x: "x = (i, q)" by (cases x)
  have q: "answerable D S (i, q)" "admitted (message_request S q) (svc_in c)" using Cons.prems(2,3) by (simp_all add: x)
  obtain R c1 res1 t where s: "app_router D i = Some (Inr R)" "feed S R (message_events q) (c, res) = Some (Inr (c1, res1))"
    "idle (c1, res1)" "\<not> close_conn c1" "\<forall>req. admitted req (svc_in c1) \<longleftrightarrow> admitted req (svc_in c)" "sent c1 = sent c @ t"
    "\<forall>qs out w'. exchanges D S qs (c_world c1) out w' \<longrightarrow> exchanges D S ((i, q) # qs) (c_world c) (t @ out) w'"
    using message_exchanged [OF Cons.prems(1) q] .
  obtain c' res' out where rest: "do_read D S (map (\<lambda>(i, q). (i, message_events q)) qs) (c1, res1) = Some (Inr (Reading, c', res'))"
    "idle (c', res')" "exchanges D S qs (c_world c1) out (c_world c')" "sent c' = sent c1 @ out"
    using Cons.IH [OF s(3)] Cons.prems(2,3) s(5) by auto
  moreover have "do_read D S (map (\<lambda>(i, q). (i, message_events q)) (x # qs)) (c, res) = Some (Inr (Reading, c', res'))"
    using rest(1) by (simp add: x then_do_def s(1,2) after_read_idle [OF s(3,4)])
  ultimately show ?case using s(6,7) by (auto simp: x)
qed

lemma error_outcome_returns: "snd (error_outcome D n m w) \<noteq> Inl (UB what)"
  by (simp add: error_outcome_def)

lemma get_order_returns: "snd (get_order D no w) \<noteq> Inl (UB what)"
proof -
  obtain w1 r where c: "try_get_cached_order D no w = (w1, r)" by fastforce
  obtain d x where e: "exec (sq D) get_sql [BText no] (db w1) = (d, x)" by fastforce
  show ?thesis
    by (cases r; cases x)
      (simp_all add: get_order_def c e error_outcome_returns throwing_def string_of_ptr_def case_prod_unfold split: option.split)
qed

lemma delete_order_returns: "snd (delete_order D no w) \<noteq> Inl (UB what)"
  by (simp add: delete_order_def error_outcome_returns Let_def split: prod.split option.split)

text \<open>The handlers of the probes and of single orders always come to an end.\<close>

lemma reads_return:
  assumes "ep \<in> {Healthcheck, Readiness, Metrics} \<union> range GetOrder \<union> range DeleteOrder"
  shows "\<exists>w1 r. endpoint_handler D i ep req w = Some (w1, r) \<and> (\<forall>what. r \<noteq> Inl (UB what))"
proof -
  obtain out where out: "endpoint_handler D i ep req w = Some out" "\<forall>what. snd out \<noteq> Inl (UB what)"
    using assms get_order_returns [of D _ w] delete_order_returns [of D _ w]
    by (cases ep) (auto simp: endpoint_handler_def)
  then show ?thesis by (cases out) simp
qed

end
