(* ===== verification/Http_Parser.thy ===== *)
theory Http_Parser
  imports Http
begin

text \<open>
  The byte-level parser \<open>crow/http_parser_merged.h\<close>: the parser object, the character classes,
  \<open>parse_url_char\<close>, and \<open>http_parser_execute\<close> with one definition per case of its switch. The
  callbacks of the settings are an argument; they may change the parser, as \<open>HTTPParser::clear\<close>
  does. A pointer into the buffer is its offset, an unset mark is \<open>None\<close>. An assertion that fails
  ends the process, which is \<open>UB\<close> here.
\<close>

subsection \<open>The parser object\<close>

datatype http_connection_flags = F_CHUNKED | F_CONNECTION_KEEP_ALIVE | F_CONNECTION_CLOSE | F_TRAILING | F_UPGRADE
  | F_SKIPBODY | F_CONTENTLENGTH

datatype http_errno = CHPE_OK | CHPE_CB_message_begin | CHPE_CB_method | CHPE_CB_url | CHPE_CB_header_field
  | CHPE_CB_header_value | CHPE_CB_headers_complete | CHPE_CB_body | CHPE_CB_message_complete | CHPE_CB_status
  | CHPE_INVALID_EOF_STATE | CHPE_HEADER_OVERFLOW | CHPE_CLOSED_CONNECTION | CHPE_INVALID_VERSION | CHPE_INVALID_STATUS
  | CHPE_INVALID_METHOD | CHPE_INVALID_URL | CHPE_INVALID_HOST | CHPE_INVALID_PORT | CHPE_INVALID_PATH
  | CHPE_INVALID_QUERY_STRING | CHPE_INVALID_FRAGMENT | CHPE_LF_EXPECTED | CHPE_INVALID_HEADER_TOKEN
  | CHPE_INVALID_CONTENT_LENGTH | CHPE_UNEXPECTED_CONTENT_LENGTH | CHPE_INVALID_CHUNK_SIZE | CHPE_INVALID_CONSTANT
  | CHPE_INVALID_INTERNAL_STATE | CHPE_STRICT | CHPE_UNKNOWN | CHPE_INVALID_TRANSFER_ENCODING

datatype state = s_dead | s_start_req | s_req_method | s_req_spaces_before_url | s_req_schema | s_req_schema_slash
  | s_req_schema_slash_slash | s_req_server_start | s_req_server | s_req_server_with_at | s_req_path
  | s_req_query_string_start | s_req_query_string | s_req_http_start | s_req_http_H | s_req_http_HT | s_req_http_HTT
  | s_req_http_HTTP | s_req_http_I | s_req_http_IC | s_req_http_major | s_req_http_dot | s_req_http_minor | s_req_http_end
  | s_req_line_almost_done | s_header_field_start | s_header_field | s_header_value_discard_ws
  | s_header_value_discard_ws_almost_done | s_header_value_discard_lws | s_header_value_start | s_header_value
  | s_header_value_lws | s_header_almost_done | s_chunk_size_start | s_chunk_size | s_chunk_parameters
  | s_chunk_size_almost_done | s_headers_almost_done | s_headers_done | s_chunk_data | s_chunk_data_almost_done
  | s_chunk_data_done | s_body_identity | s_body_identity_eof | s_message_done

datatype header_states = h_general | h_C | h_CO | h_CON | h_matching_connection | h_matching_proxy_connection
  | h_matching_content_length | h_matching_transfer_encoding | h_matching_upgrade | h_connection | h_content_length
  | h_content_length_num | h_content_length_ws | h_transfer_encoding | h_upgrade | h_matching_transfer_encoding_token_start
  | h_matching_transfer_encoding_chunked | h_matching_transfer_encoding_token | h_matching_connection_keep_alive
  | h_matching_connection_close | h_transfer_encoding_chunked | h_connection_keep_alive | h_connection_close

record http_parser =
  hp_flags :: "http_connection_flags set"
  hp_state :: state
  header_state :: header_states
  hp_index :: nat
  uses_transfer_encoding :: bool
  allow_chunked_length :: bool
  lenient_http_headers :: bool
  hp_nread :: u32
  content_length :: u64
  hp_qs_point :: nat
  hp_major :: nat
  hp_minor :: nat
  hp_method :: nat
  http_errno :: http_errno
  hp_upgrade :: bool

text \<open>\<open>memset\<close> to zero; the zero of \<open>state\<close> is overwritten.\<close>

definition http_parser_init :: http_parser where
  "http_parser_init = \<lparr>hp_flags = {}, hp_state = s_start_req, header_state = h_general, hp_index = 0,
     uses_transfer_encoding = False, allow_chunked_length = False, lenient_http_headers = False, hp_nread = 0,
     content_length = 0, hp_qs_point = 0, hp_major = 0, hp_minor = 0, hp_method = 0, http_errno = CHPE_OK, hp_upgrade = False\<rparr>"

definition max_header_size :: nat where "max_header_size = 80 * 1024"

definition ULLONG_MAX :: u64 where "ULLONG_MAX = - 1"

text \<open>\<open>CROW_PARSING_HEADER\<close>: the states up to \<open>s_headers_done\<close> in the order of the enumeration.\<close>

definition PARSING_HEADER :: "state \<Rightarrow> bool" where
  "PARSING_HEADER s \<longleftrightarrow> s \<notin> {s_chunk_data, s_chunk_data_almost_done, s_chunk_data_done, s_body_identity,
     s_body_identity_eof, s_message_done}"

subsection \<open>Character classes\<close>

definition LOWER :: "char \<Rightarrow> char" where
  "LOWER c = chr (code c OR 0x20)"

definition IS_ALPHA :: "char \<Rightarrow> bool" where
  "IS_ALPHA c \<longleftrightarrow> code (CHR ''a'') \<le> code (LOWER c) \<and> code (LOWER c) \<le> code (CHR ''z'')"

definition IS_MARK :: "char \<Rightarrow> bool" where
  "IS_MARK c \<longleftrightarrow> c \<in> set [CHR ''-'', CHR ''_'', CHR ''.'', CHR ''!'', CHR ''~'', CHR ''*'', CHR 0x27, CHR ''('', CHR '')'']"

definition IS_USERINFO_CHAR :: "char \<Rightarrow> bool" where
  "IS_USERINFO_CHAR c \<longleftrightarrow> IS_ALPHA c \<or> is_digit c \<or> IS_MARK c \<or> c \<in> set ''%;:&=+$,''"

definition IS_HEADER_CHAR :: "char \<Rightarrow> bool" where
  "IS_HEADER_CHAR ch \<longleftrightarrow> ch = CR \<or> ch = LF \<or> ch = TAB \<or> 31 < code ch \<and> code ch \<noteq> 127"

text \<open>The rows of eight, as bytes; the entries that are not given are zero.\<close>

definition normal_url_char :: "nat list" where
  "normal_url_char = [0, 0, 0, 0, 2 + 4 + 16 + 32 + 64 + 128, 255, 255, 127, 255, 255, 255, 255, 255, 255, 255, 127] @ replicate 16 0"

definition IS_URL_CHAR :: "char \<Rightarrow> bool" where
  "IS_URL_CHAR c \<longleftrightarrow> bit (normal_url_char ! (code c div 8)) (code c mod 8)"

definition tokens :: string where
  "tokens = replicate 32 NUL @
     [NUL, CHR ''!'', NUL, CHR ''#'', CHR ''$'', CHR ''%'', CHR ''&'', CHR 0x27] @
     [NUL, NUL, CHR ''*'', CHR ''+'', NUL, CHR ''-'', CHR ''.'', NUL] @
     ''01234567'' @ ''89'' @ replicate 6 NUL @
     [NUL] @ ''abcdefg'' @ ''hijklmno'' @ ''pqrstuvw'' @ ''xyz'' @ [NUL, NUL, NUL, CHR ''^'', CHR ''_''] @
     ''`abcdefg'' @ ''hijklmno'' @ ''pqrstuvw'' @ ''xyz'' @ [NUL, CHR ''|'', NUL, CHR ''~'', NUL] @ replicate 128 NUL"

definition TOKEN :: "char \<Rightarrow> char" where
  "TOKEN c = tokens ! code c"

text \<open>The second half of the table is not given, so that it is zero and not -1.\<close>

definition unhex :: "char \<Rightarrow> int" where
  "unhex c = (if 128 \<le> code c then 0 else if is_digit c then int (digit_val c)
     else if code (CHR ''A'') \<le> code c \<and> code c \<le> code (CHR ''F'') then int (code c) - int (code (CHR ''A'')) + 10
     else if code (CHR ''a'') \<le> code c \<and> code c \<le> code (CHR ''f'') then int (code c) - int (code (CHR ''a'')) + 10
     else - 1)"

subsection \<open>\<open>parse_url_char\<close>\<close>

text \<open>
  The new state and the query position. The distance from the mark of the url is undefined when
  the mark is not set, which is the case in every buffer but the first one of the url.
\<close>

definition query_at :: "nat option \<Rightarrow> nat \<Rightarrow> state \<Rightarrow> (state \<times> nat option) result" where
  "query_at url_mark p s = (case url_mark of
     None \<Rightarrow> Inl (UB ''distance from a null pointer'') | Some m \<Rightarrow> Inr (s, Some (p - m)))"

definition parse_url_char :: "state \<Rightarrow> char \<Rightarrow> nat option \<Rightarrow> nat \<Rightarrow> (state \<times> nat option) result" where
  "parse_url_char s ch url_mark p =
     (if ch = CHR '' '' \<or> ch = CR \<or> ch = LF \<or> ch = TAB \<or> ch = FF then Inr (s_dead, None)
      else case s of
        s_req_spaces_before_url \<Rightarrow>
          Inr (if ch = CHR ''/'' \<or> ch = CHR ''*'' then s_req_path else if IS_ALPHA ch then s_req_schema else s_dead, None)
      | s_req_schema \<Rightarrow> Inr (if IS_ALPHA ch then s else if ch = CHR '':'' then s_req_schema_slash else s_dead, None)
      | s_req_schema_slash \<Rightarrow> Inr (if ch = CHR ''/'' then s_req_schema_slash_slash else s_dead, None)
      | s_req_schema_slash_slash \<Rightarrow> Inr (if ch = CHR ''/'' then s_req_server_start else s_dead, None)
      | s_req_path \<Rightarrow>
          if IS_URL_CHAR ch then Inr (s, None)
          else if ch = CHR ''?'' then query_at url_mark p s_req_query_string_start else Inr (s_dead, None)
      | _ \<Rightarrow>
          if s = s_req_query_string_start \<or> s = s_req_query_string
          then Inr (if IS_URL_CHAR ch \<or> ch = CHR ''?'' then s_req_query_string else s_dead, None)
          else if s = s_req_server_with_at \<and> ch = CHR ''@'' then Inr (s_dead, None)
          else if s = s_req_server_with_at \<or> s = s_req_server_start \<or> s = s_req_server
          then if ch = CHR ''/'' then Inr (s_req_path, None)
               else if ch = CHR ''?'' then query_at url_mark p s_req_query_string_start
               else if ch = CHR ''@'' then Inr (s_req_server_with_at, None)
               else if IS_USERINFO_CHAR ch \<or> ch = CHR ''['' \<or> ch = CHR '']'' then Inr (s_req_server, None)
               else Inr (s_dead, None)
          else Inr (s_dead, None))"


subsection \<open>The state of an execution\<close>

datatype callback = CB_message_begin | CB_method | CB_url string | CB_header_field string | CB_header_value string
  | CB_headers_complete | CB_body string | CB_message_complete

text \<open>A callback works on the parser and on the user's state, and returns an error code.\<close>

type_synonym 'u callbacks = "callback \<Rightarrow> http_parser \<Rightarrow> 'u \<Rightarrow> (http_parser \<times> 'u \<times> int) result option"

fun cb_errno :: "callback \<Rightarrow> http_errno" where
  "cb_errno CB_message_begin = CHPE_CB_message_begin"
| "cb_errno CB_method = CHPE_CB_method"
| "cb_errno (CB_url t) = CHPE_CB_url"
| "cb_errno (CB_header_field t) = CHPE_CB_header_field"
| "cb_errno (CB_header_value t) = CHPE_CB_header_value"
| "cb_errno CB_headers_complete = CHPE_CB_headers_complete"
| "cb_errno (CB_body t) = CHPE_CB_body"
| "cb_errno CB_message_complete = CHPE_CB_message_complete"

text \<open>The local variables of \<open>http_parser_execute\<close>; the marks are the starts of the texts for the data callbacks.\<close>

datatype mark = M_header_field | M_header_value | M_url | M_body

fun mark_cb :: "mark \<Rightarrow> string \<Rightarrow> callback" where
  "mark_cb M_header_field t = CB_header_field t"
| "mark_cb M_header_value t = CB_header_value t"
| "mark_cb M_url t = CB_url t"
| "mark_cb M_body t = CB_body t"

record 'u machine =
  hp :: http_parser
  usr :: 'u
  pos :: nat
  nread :: u32
  marks :: "mark \<Rightarrow> nat option"
  url_start_mark :: "nat option"

definition upd_hp :: "(http_parser \<Rightarrow> http_parser) \<Rightarrow> 'u machine \<Rightarrow> 'u machine" where
  "upd_hp f m = m\<lparr>hp := f (hp m)\<rparr>"

definition to_state :: "state \<Rightarrow> 'u machine \<Rightarrow> 'u machine" where
  "to_state s m = upd_hp (\<lambda>h. h\<lparr>hp_state := s\<rparr>) m"

text \<open>How a case of the switch ends: \<open>break\<close>, \<open>goto reexecute\<close>, or a return with the bytes consumed.\<close>

datatype 'u flow = Next "'u machine" | Reexecute "'u machine" | Return "'u machine" nat

type_synonym 'u run = "'u flow result option"

definition go :: "'u machine \<Rightarrow> 'u run" where
  "go m = Some (Inr (Next m))"

definition reexecute :: "'u machine \<Rightarrow> 'u run" where
  "reexecute m = Some (Inr (Reexecute m))"

definition SET_ERRNO :: "http_errno \<Rightarrow> 'u machine \<Rightarrow> 'u machine" where
  "SET_ERRNO e m = upd_hp (\<lambda>h. h\<lparr>hp_nread := nread m, http_errno := e\<rparr>) m"

text \<open>\<open>CROW_SET_ERRNO(e); goto error\<close>.\<close>

definition goto_error :: "http_errno \<Rightarrow> 'u machine \<Rightarrow> 'u run" where
  "goto_error e m = Some (Inr (Return (SET_ERRNO e m) (pos m)))"

definition assertion :: "bool \<Rightarrow> 'u run \<Rightarrow> 'u run" where
  "assertion b r = (if b then r else Some (Inl (UB ''assertion failed'')))"

definition STRICT_CHECK :: "bool \<Rightarrow> 'u machine \<Rightarrow> 'u run \<Rightarrow> 'u run" where
  "STRICT_CHECK b m r = (if b then goto_error CHPE_STRICT m else r)"

definition COUNT_HEADER_SIZE :: "nat \<Rightarrow> 'u machine \<Rightarrow> ('u machine \<Rightarrow> 'u run) \<Rightarrow> 'u run" where
  "COUNT_HEADER_SIZE v m k =
     (let m1 = m\<lparr>nread := nread m + of_nat v\<rparr>
      in if of_nat max_header_size < nread m1 then goto_error CHPE_HEADER_OVERFLOW m1 else k m1)"

definition CALLBACK_NOTIFY_RET :: "'u callbacks \<Rightarrow> callback \<Rightarrow> nat \<Rightarrow> 'u machine \<Rightarrow> ('u machine \<Rightarrow> 'u run) \<Rightarrow> 'u run" where
  "CALLBACK_NOTIFY_RET cb ev er m k = assertion (http_errno (hp m) = CHPE_OK)
     (then_do (cb ev (hp m) (usr m)) (\<lambda>(h, u, rc).
        let m1 = m\<lparr>hp := h, usr := u\<rparr>;
            m2 = (if rc \<noteq> 0 then SET_ERRNO (cb_errno ev) m1 else m1)
        in if http_errno (hp m2) \<noteq> CHPE_OK then Some (Inr (Return m2 er)) else k m2))"

abbreviation CALLBACK_NOTIFY :: "'u callbacks \<Rightarrow> callback \<Rightarrow> 'u machine \<Rightarrow> ('u machine \<Rightarrow> 'u run) \<Rightarrow> 'u run" where
  "CALLBACK_NOTIFY cb ev m \<equiv> CALLBACK_NOTIFY_RET cb ev (pos m + 1) m"

abbreviation CALLBACK_NOTIFY_NOADVANCE :: "'u callbacks \<Rightarrow> callback \<Rightarrow> 'u machine \<Rightarrow> ('u machine \<Rightarrow> 'u run) \<Rightarrow> 'u run" where
  "CALLBACK_NOTIFY_NOADVANCE cb ev m \<equiv> CALLBACK_NOTIFY_RET cb ev (pos m) m"

text \<open>The text from the mark up to \<open>fin\<close> goes to the callback, and the mark is unset.\<close>

definition CALLBACK_DATA_RET ::
  "'u callbacks \<Rightarrow> string \<Rightarrow> mark \<Rightarrow> nat \<Rightarrow> nat \<Rightarrow> 'u machine \<Rightarrow> ('u machine \<Rightarrow> 'u run) \<Rightarrow> 'u run" where
  "CALLBACK_DATA_RET cb data FOR fin er m k = assertion (http_errno (hp m) = CHPE_OK)
     (case marks m FOR of
        None \<Rightarrow> k m
      | Some a \<Rightarrow> CALLBACK_NOTIFY_RET cb (mark_cb FOR (take (fin - a) (drop a data))) er m (\<lambda>m1.
          k (m1\<lparr>marks := (marks m1)(FOR := None)\<rparr>)))"

abbreviation CALLBACK_DATA :: "'u callbacks \<Rightarrow> string \<Rightarrow> mark \<Rightarrow> 'u machine \<Rightarrow> ('u machine \<Rightarrow> 'u run) \<Rightarrow> 'u run" where
  "CALLBACK_DATA cb data FOR m \<equiv> CALLBACK_DATA_RET cb data FOR (pos m) (pos m + 1) m"

abbreviation CALLBACK_DATA_NOADVANCE :: "'u callbacks \<Rightarrow> string \<Rightarrow> mark \<Rightarrow> 'u machine \<Rightarrow> ('u machine \<Rightarrow> 'u run) \<Rightarrow> 'u run" where
  "CALLBACK_DATA_NOADVANCE cb data FOR m \<equiv> CALLBACK_DATA_RET cb data FOR (pos m) (pos m) m"

definition MARK :: "mark \<Rightarrow> 'u machine \<Rightarrow> 'u machine" where
  "MARK FOR m = (if marks m FOR = None then m\<lparr>marks := (marks m)(FOR := Some (pos m))\<rparr> else m)"

subsection \<open>The request line\<close>

definition step_dead :: "char \<Rightarrow> 'u machine \<Rightarrow> 'u run" where
  "step_dead ch m = (if ch = CR \<or> ch = LF then go m else goto_error CHPE_CLOSED_CONNECTION m)"

definition first_method :: "char \<Rightarrow> HTTPMethod option" where
  "first_method ch = map_of (zip ''ABCDGHLMNOPRSTU''
     [Acl, Bind, Connect, Delete, Get, Head, Lock, MkCol, Notify, Options, Post, Report, Subscribe, Trace, Unlock]) ch"

definition step_start_req :: "'u callbacks \<Rightarrow> char \<Rightarrow> 'u machine \<Rightarrow> 'u run" where
  "step_start_req cb ch m =
     (if ch = CR \<or> ch = LF then go m
      else let m1 = upd_hp (\<lambda>h. h\<lparr>hp_flags := {}, uses_transfer_encoding := False, content_length := ULLONG_MAX\<rparr>) m
           in if \<not> IS_ALPHA ch then goto_error CHPE_INVALID_METHOD m1
              else let m2 = upd_hp (\<lambda>h. h\<lparr>hp_method := 0, hp_index := 1\<rparr>) m1
                   in case first_method ch of
                        None \<Rightarrow> goto_error CHPE_INVALID_METHOD m2
                      | Some meth \<Rightarrow>
                          CALLBACK_NOTIFY cb CB_message_begin
                            (to_state s_req_method (upd_hp (\<lambda>h. h\<lparr>hp_method := method_num meth\<rparr>) m2)) go)"

text \<open>The table of the branches: method so far, position, character, new method.\<close>

definition method_branches :: "((nat \<times> nat \<times> char) \<times> HTTPMethod) list" where
  "method_branches = map (\<lambda>(meth, i, ch, new). ((method_num meth, i, ch), new))
     [(Post, 1, CHR ''U'', Put), (Post, 1, CHR ''A'', Patch), (Post, 1, CHR ''R'', Propfind), (Put, 2, CHR ''R'', Purge),
      (Connect, 1, CHR ''H'', Checkout), (Connect, 2, CHR ''P'', Copy), (MkCol, 1, CHR ''O'', Move), (MkCol, 1, CHR ''E'', Merge),
      (MkCol, 1, CHR ''-'', MSearch), (MkCol, 2, CHR ''A'', MkActivity), (MkCol, 3, CHR ''A'', MkCalendar),
      (Subscribe, 1, CHR ''E'', Search), (Subscribe, 1, CHR ''O'', Source), (Report, 2, CHR ''B'', Rebind),
      (Propfind, 4, CHR ''P'', Proppatch), (Lock, 1, CHR ''I'', Link), (Unlock, 2, CHR ''S'', Unsubscribe),
      (Unlock, 2, CHR ''B'', Unbind), (Unlock, 3, CHR ''I'', Unlink)]"

text \<open>The method that one more character of its name leaves.\<close>

definition next_method :: "nat \<Rightarrow> nat \<Rightarrow> char \<Rightarrow> nat option" where
  "next_method meth i ch =
     (if ch = at (method_strings ! meth) i then Some meth
      else if code (CHR ''A'') \<le> code ch \<and> code ch \<le> code (CHR ''Z'') \<or> ch = CHR ''-''
      then map_option method_num (map_of method_branches (meth, i, ch))
      else None)"

definition step_req_method :: "'u callbacks \<Rightarrow> char \<Rightarrow> 'u machine \<Rightarrow> 'u run" where
  "step_req_method cb ch m =
     (let h = hp m;
          matched = (if ch = NUL then None
                     else if ch = CHR '' '' \<and> at (method_strings ! hp_method h) (hp_index h) = NUL
                     then Some (to_state s_req_spaces_before_url m)
                     else map_option (\<lambda>new. upd_hp (\<lambda>h. h\<lparr>hp_method := new\<rparr>) m) (next_method (hp_method h) (hp_index h) ch))
      in case matched of
           None \<Rightarrow> goto_error CHPE_INVALID_METHOD m
         | Some m1 \<Rightarrow> CALLBACK_NOTIFY_NOADVANCE cb CB_method m1 (\<lambda>m2.
             go (upd_hp (\<lambda>h. h\<lparr>hp_index := (hp_index h + 1) mod 32\<rparr>) m2)))"

text \<open>\<open>parser->state = parse_url_char(...)\<close> with the check for \<open>s_dead\<close>.\<close>

definition advance_url :: "char \<Rightarrow> 'u machine \<Rightarrow> 'u run" where
  "advance_url ch m = (case parse_url_char (hp_state (hp m)) ch (url_start_mark m) (pos m) of
     Inl e \<Rightarrow> Some (Inl e)
   | Inr (s, q) \<Rightarrow>
       let m1 = to_state s (upd_hp (\<lambda>h. h\<lparr>hp_qs_point := (case q of None \<Rightarrow> hp_qs_point h | Some d \<Rightarrow> d)\<rparr>) m)
       in if s = s_dead then goto_error CHPE_INVALID_URL m1 else go m1)"

definition step_spaces_before_url :: "char \<Rightarrow> 'u machine \<Rightarrow> 'u run" where
  "step_spaces_before_url ch m =
     (if ch = CHR '' '' then go m
      else let m1 = MARK M_url m;
               m2 = (if url_start_mark m1 = None then m1\<lparr>url_start_mark := Some (pos m1)\<rparr> else m1);
               m3 = (if hp_method (hp m2) = method_num Connect then to_state s_req_server_start m2 else m2)
           in advance_url ch m3)"

definition step_url_start :: "char \<Rightarrow> 'u machine \<Rightarrow> 'u run" where
  "step_url_start ch m = (if ch = CHR '' '' \<or> ch = CR \<or> ch = LF then goto_error CHPE_INVALID_URL m else advance_url ch m)"

definition step_url :: "'u callbacks \<Rightarrow> string \<Rightarrow> char \<Rightarrow> 'u machine \<Rightarrow> 'u run" where
  "step_url cb data ch m =
     (if ch = CHR '' '' then CALLBACK_DATA cb data M_url (to_state s_req_http_start m) go
      else if ch = CR \<or> ch = LF
      then if hp_method (hp m) \<noteq> method_num Get then goto_error CHPE_INVALID_VERSION (to_state s_dead m)
           else CALLBACK_DATA cb data M_url
                  (to_state (if ch = CR then s_req_line_almost_done else s_header_field_start)
                     (upd_hp (\<lambda>h. h\<lparr>hp_major := 0, hp_minor := 9\<rparr>) m)) go
      else advance_url ch m)"

definition step_http_start :: "char \<Rightarrow> 'u machine \<Rightarrow> 'u run" where
  "step_http_start ch m =
     (if ch = CHR '' '' then go m
      else if ch = CHR ''H'' then go (to_state s_req_http_H m)
      else if ch = CHR ''I'' \<and> hp_method (hp m) = method_num Source then go (to_state s_req_http_I m)
      else goto_error CHPE_INVALID_CONSTANT m)"

text \<open>The states that expect one character of the protocol name.\<close>

definition step_expect :: "char \<Rightarrow> state \<Rightarrow> char \<Rightarrow> 'u machine \<Rightarrow> 'u run" where
  "step_expect expected s ch m = STRICT_CHECK (ch \<noteq> expected) m (go (to_state s m))"

definition step_http_major :: "char \<Rightarrow> 'u machine \<Rightarrow> 'u run" where
  "step_http_major ch m =
     (if \<not> is_digit ch then goto_error CHPE_INVALID_VERSION m
      else go (to_state s_req_http_dot (upd_hp (\<lambda>h. h\<lparr>hp_major := digit_val ch\<rparr>) m)))"

definition step_http_dot :: "char \<Rightarrow> 'u machine \<Rightarrow> 'u run" where
  "step_http_dot ch m = (if ch \<noteq> CHR ''.'' then goto_error CHPE_INVALID_VERSION m else go (to_state s_req_http_minor m))"

definition step_http_minor :: "char \<Rightarrow> 'u machine \<Rightarrow> 'u run" where
  "step_http_minor ch m =
     (if \<not> is_digit ch then goto_error CHPE_INVALID_VERSION m
      else go (to_state s_req_http_end (upd_hp (\<lambda>h. h\<lparr>hp_minor := digit_val ch\<rparr>) m)))"

definition step_http_end :: "char \<Rightarrow> 'u machine \<Rightarrow> 'u run" where
  "step_http_end ch m =
     (if ch = CR then go (to_state s_req_line_almost_done m)
      else if ch = LF then go (to_state s_header_field_start m)
      else goto_error CHPE_INVALID_VERSION m)"

definition step_line_almost_done :: "char \<Rightarrow> 'u machine \<Rightarrow> 'u run" where
  "step_line_almost_done ch m =
     (if ch \<noteq> LF then goto_error CHPE_LF_EXPECTED m else go (to_state s_header_field_start m))"


subsection \<open>Header names\<close>

definition first_header_state :: "char \<Rightarrow> header_states" where
  "first_header_state c = (if c = CHR ''c'' then h_C else if c = CHR ''p'' then h_matching_proxy_connection
     else if c = CHR ''t'' then h_matching_transfer_encoding else if c = CHR ''u'' then h_matching_upgrade
     else h_general)"

definition step_field_start :: "char \<Rightarrow> 'u machine \<Rightarrow> 'u run" where
  "step_field_start ch m =
     (if ch = CR then go (to_state s_headers_almost_done m)
      else if ch = LF then reexecute (to_state s_headers_almost_done m)
      else let c = TOKEN ch
           in if c = NUL then goto_error CHPE_INVALID_HEADER_TOKEN m
              else go (to_state s_header_field
                     (upd_hp (\<lambda>h. h\<lparr>hp_index := 0, header_state := first_header_state c\<rparr>) (MARK M_header_field m))))"

text \<open>
  One more character of a word that is being matched: the new index (of five bits), and the state
  \<open>other\<close> if the word differs, \<open>found\<close> at its end, \<open>same\<close> before.
\<close>

definition match_word :: "string \<Rightarrow> header_states \<Rightarrow> header_states \<Rightarrow> header_states \<Rightarrow> char \<Rightarrow> nat \<Rightarrow> nat \<times> header_states" where
  "match_word word other found same c index =
     (let i = (index + 1) mod 32
      in (i, if length word < i \<or> c \<noteq> at word i then other else if i = length word - 1 then found else same))"

definition field_match :: "string \<Rightarrow> header_states \<Rightarrow> char \<Rightarrow> http_parser \<Rightarrow> http_parser" where
  "field_match word found c h = (case match_word word h_general found (header_state h) c (hp_index h) of
     (i, s) \<Rightarrow> h\<lparr>hp_index := i, header_state := s\<rparr>)"

definition field_next :: "header_states \<Rightarrow> http_parser \<Rightarrow> http_parser" where
  "field_next s h = h\<lparr>hp_index := (hp_index h + 1) mod 32, header_state := s\<rparr>"

text \<open>The switch in the loop over the name, for every state but \<open>h_general\<close>; \<open>None\<close> is its failed assertion.\<close>

definition field_switch :: "char \<Rightarrow> char \<Rightarrow> http_parser \<Rightarrow> http_parser option" where
  "field_switch ch c h = (case header_state h of
     h_C \<Rightarrow> Some (field_next (if c = CHR ''o'' then h_CO else h_general) h)
   | h_CO \<Rightarrow> Some (field_next (if c = CHR ''n'' then h_CON else h_general) h)
   | h_CON \<Rightarrow> Some (field_next (if c = CHR ''n'' then h_matching_connection
                    else if c = CHR ''t'' then h_matching_content_length else h_general) h)
   | h_matching_connection \<Rightarrow> Some (field_match ''connection'' h_connection c h)
   | h_matching_proxy_connection \<Rightarrow> Some (field_match ''proxy-connection'' h_connection c h)
   | h_matching_content_length \<Rightarrow> Some (field_match ''content-length'' h_content_length c h)
   | h_matching_transfer_encoding \<Rightarrow>
       (let h1 = field_match ''transfer-encoding'' h_transfer_encoding c h
        in Some (if header_state h1 = h_transfer_encoding then h1\<lparr>uses_transfer_encoding := True\<rparr> else h1))
   | h_matching_upgrade \<Rightarrow> Some (field_match ''upgrade'' h_upgrade c h)
   | h_connection \<Rightarrow> Some (if ch \<noteq> CHR '' '' then h\<lparr>header_state := h_general\<rparr> else h)
   | h_content_length \<Rightarrow> Some (if ch \<noteq> CHR '' '' then h\<lparr>header_state := h_general\<rparr> else h)
   | h_transfer_encoding \<Rightarrow> Some (if ch \<noteq> CHR '' '' then h\<lparr>header_state := h_general\<rparr> else h)
   | h_upgrade \<Rightarrow> Some (if ch \<noteq> CHR '' '' then h\<lparr>header_state := h_general\<rparr> else h)
   | _ \<Rightarrow> None)"

text \<open>\<open>while (p+1 < pe && CROW_TOKEN(p[1])) p++\<close>.\<close>

function skip_tokens :: "string \<Rightarrow> nat \<Rightarrow> nat \<Rightarrow> nat" where
  "skip_tokens data pe p = (if p + 1 < pe \<and> TOKEN (data ! (p + 1)) \<noteq> NUL then skip_tokens data pe (p + 1) else p)"
  by pat_completeness auto
termination
  by (relation "measure (\<lambda>(data, pe, p). pe - p)") auto

declare skip_tokens.simps [simp del]

lemma skip_tokens_ge: "p \<le> skip_tokens data pe p"
  by (induction data pe p rule: skip_tokens.induct) (subst skip_tokens.simps, auto)

text \<open>The loop over the name: where it stops, and the parser then.\<close>

function field_loop :: "string \<Rightarrow> nat \<Rightarrow> http_parser \<Rightarrow> (nat \<times> http_parser) option" where
  "field_loop data p h =
     (if length data \<le> p then Some (p, h)
      else let ch = data ! p; c = TOKEN ch
           in if c = NUL then Some (p, h)
              else if header_state h = h_general
              then field_loop data (skip_tokens data (p + min (length data - p) max_header_size) p + 1) h
              else case field_switch ch c h of None \<Rightarrow> None | Some h1 \<Rightarrow> field_loop data (p + 1) h1)"
  by pat_completeness auto
termination
proof (relation "measure (\<lambda>(data, p, h). length data - p)")
  fix data :: string and p :: nat and h :: http_parser
  show "((data, skip_tokens data (p + min (length data - p) max_header_size) p + 1, h), (data, p, h)) \<in>
      measure (\<lambda>(data, p, h). length data - p)" if "\<not> length data \<le> p"
    using that skip_tokens_ge [of p data "p + min (length data - p) max_header_size"] by auto
qed auto

declare field_loop.simps [simp del]

definition step_field :: "'u callbacks \<Rightarrow> string \<Rightarrow> 'u machine \<Rightarrow> 'u run" where
  "step_field cb data m = (case field_loop data (pos m) (hp m) of
     None \<Rightarrow> assertion False (go m)
   | Some (p, h) \<Rightarrow>
       if p = length data
       then COUNT_HEADER_SIZE (p - 1 - pos m) (m\<lparr>hp := h, pos := p - 1\<rparr>) go
       else COUNT_HEADER_SIZE (p - pos m) (m\<lparr>hp := h, pos := p\<rparr>) (\<lambda>m1.
              if data ! p = CHR '':'' then CALLBACK_DATA cb data M_header_field (to_state s_header_value_discard_ws m1) go
              else goto_error CHPE_INVALID_HEADER_TOKEN m1))"

subsection \<open>Header values\<close>

definition step_value_start :: "string \<Rightarrow> char \<Rightarrow> 'u machine \<Rightarrow> 'u run" where
  "step_value_start data ch m =
     (let m1 = to_state s_header_value (upd_hp (\<lambda>h. h\<lparr>hp_index := 0\<rparr>) (MARK M_header_value m)); c = LOWER ch;
          next_state = \<lambda>s. go (upd_hp (\<lambda>h. h\<lparr>header_state := s\<rparr>) m1)
      in case header_state (hp m) of
           h_upgrade \<Rightarrow>
             go (upd_hp (\<lambda>h. h\<lparr>header_state := h_general, hp_flags :=
                   (if ch \<noteq> CHR ''h'' \<or> pos m + 1 = length data \<or> data ! (pos m + 1) \<noteq> CHR ''2''
                    then insert F_UPGRADE (hp_flags h) else hp_flags h)\<rparr>) m1)
         | h_transfer_encoding \<Rightarrow>
             next_state (if c = CHR ''c'' then h_matching_transfer_encoding_chunked else h_matching_transfer_encoding_token)
         | h_matching_transfer_encoding_token_start \<Rightarrow> go m1
         | h_content_length \<Rightarrow>
             if \<not> is_digit ch then goto_error CHPE_INVALID_CONTENT_LENGTH m1
             else if F_CONTENTLENGTH \<in> hp_flags (hp m1) then goto_error CHPE_UNEXPECTED_CONTENT_LENGTH m1
             else go (upd_hp (\<lambda>h. h\<lparr>hp_flags := insert F_CONTENTLENGTH (hp_flags h),
                    content_length := of_nat (digit_val ch), header_state := h_content_length_num\<rparr>) m1)
         | h_content_length_ws \<Rightarrow> go m1
         | h_connection \<Rightarrow>
             if c = CHR ''k'' then next_state h_matching_connection_keep_alive
             else if c = CHR ''c'' then next_state h_matching_connection_close
             else if c = CHR '' '' \<or> c = TAB then go m1
             else next_state h_general
         | _ \<Rightarrow> next_state h_general)"

definition step_value_discard_ws :: "string \<Rightarrow> char \<Rightarrow> 'u machine \<Rightarrow> 'u run" where
  "step_value_discard_ws data ch m =
     (if ch = CHR '' '' \<or> ch = TAB then go m
      else if ch = CR then go (to_state s_header_value_discard_ws_almost_done m)
      else if ch = LF then go (to_state s_header_value_discard_lws m)
      else step_value_start data ch m)"

text \<open>
  The switch in the loop over the value, for every state but \<open>h_general\<close>, on the parser and the local
  \<open>h_state\<close>: an error with the state to save, or both after the character. The outer \<open>None\<close> is the
  failed assertion.
\<close>

definition length_digit :: "char \<Rightarrow> http_parser \<Rightarrow> (http_errno + http_parser \<times> header_states) option" where
  "length_digit ch h =
     (if ch = CHR '' '' then Some (Inr (h, h_content_length_ws))
      else if \<not> is_digit ch \<or> (ULLONG_MAX - 10) div 10 < content_length h then Some (Inl CHPE_INVALID_CONTENT_LENGTH)
      else Some (Inr (h\<lparr>content_length := content_length h * 10 + of_nat (digit_val ch)\<rparr>, h_content_length_num)))"

definition value_match :: "string \<Rightarrow> header_states \<Rightarrow> header_states \<Rightarrow> header_states \<Rightarrow> char \<Rightarrow> http_parser \<Rightarrow>
    (http_errno + http_parser \<times> header_states) option" where
  "value_match word other found same c h = (case match_word word other found same c (hp_index h) of
     (i, s) \<Rightarrow> Some (Inr (h\<lparr>hp_index := i\<rparr>, s)))"

definition value_switch ::
  "char \<Rightarrow> char \<Rightarrow> http_parser \<Rightarrow> header_states \<Rightarrow> (http_errno + http_parser \<times> header_states) option" where
  "value_switch ch c h hs = (case hs of
     h_connection \<Rightarrow> None
   | h_transfer_encoding \<Rightarrow> None
   | h_content_length \<Rightarrow> if ch = CHR '' '' then Some (Inr (h, hs)) else length_digit ch h
   | h_content_length_num \<Rightarrow> length_digit ch h
   | h_content_length_ws \<Rightarrow> Some (if ch = CHR '' '' then Inr (h, hs) else Inl CHPE_INVALID_CONTENT_LENGTH)
   | h_matching_transfer_encoding_token_start \<Rightarrow>
       Some (Inr (h, if c = CHR ''c'' then h_matching_transfer_encoding_chunked
                     else if TOKEN c \<noteq> NUL then h_matching_transfer_encoding_token
                     else if c = CHR '' '' \<or> c = TAB then hs else h_general))
   | h_matching_transfer_encoding_chunked \<Rightarrow>
       value_match ''chunked'' h_matching_transfer_encoding_token h_transfer_encoding_chunked hs c h
   | h_matching_transfer_encoding_token \<Rightarrow>
       Some (Inr (if ch = CHR '','' then (h\<lparr>hp_index := 0\<rparr>, h_matching_transfer_encoding_token_start) else (h, hs)))
   | h_matching_connection_keep_alive \<Rightarrow> value_match ''keep-alive'' h_general h_connection_keep_alive hs c h
   | h_matching_connection_close \<Rightarrow> value_match ''close'' h_general h_connection_close hs c h
   | h_transfer_encoding_chunked \<Rightarrow> Some (Inr (h, if ch \<noteq> CHR '' '' then h_matching_transfer_encoding_token else hs))
   | h_connection_keep_alive \<Rightarrow> Some (Inr (h, if ch \<noteq> CHR '' '' then h_general else hs))
   | h_connection_close \<Rightarrow> Some (Inr (h, if ch \<noteq> CHR '' '' then h_general else hs))
   | _ \<Rightarrow> Some (Inr (h\<lparr>hp_state := s_header_value\<rparr>, h_general)))"

text \<open>The inner loop of \<open>h_general\<close>: the position it leaves, or of the bad character.\<close>

function general_loop :: "string \<Rightarrow> bool \<Rightarrow> nat \<Rightarrow> nat \<Rightarrow> nat + nat" where
  "general_loop data lenient pe p =
     (if pe \<le> p then Inr p
      else if data ! p = CR \<or> data ! p = LF then Inr (p - 1)
      else if \<not> lenient \<and> \<not> IS_HEADER_CHAR (data ! p) then Inl p
      else general_loop data lenient pe (p + 1))"
  by pat_completeness auto
termination
  by (relation "measure (\<lambda>(data, lenient, pe, p). pe - p)") auto

declare general_loop.simps [simp del]

lemma general_loop_ge: "general_loop data lenient pe p = Inr p' \<Longrightarrow> p - 1 \<le> p'"
  by (induction data lenient pe p rule: general_loop.induct) (subst (asm) (2) general_loop.simps, auto split: if_splits)

lemma general_loop_first:
  assumes "general_loop data lenient pe p = Inr p'" "p < pe" "data ! p \<noteq> CR" "data ! p \<noteq> LF"
  shows "p \<le> p'"
  using assms general_loop_ge [of data lenient pe "p + 1" p'] by (subst (asm) general_loop.simps) (auto split: if_splits)

text \<open>How the loop over the value ends: at a CR, at an LF, with an error, or at the end of the buffer.\<close>

datatype value_end = V_cr | V_lf | V_error http_errno | V_end

function value_loop :: "string \<Rightarrow> nat \<Rightarrow> http_parser \<Rightarrow> header_states \<Rightarrow> (value_end \<times> nat \<times> http_parser \<times> header_states) option" where
  "value_loop data p h hs =
     (if length data \<le> p then Some (V_end, p, h, hs)
      else let ch = data ! p; c = LOWER ch
           in if ch = CR then Some (V_cr, p, h, hs)
              else if ch = LF then Some (V_lf, p, h, hs)
              else if \<not> lenient_http_headers h \<and> \<not> IS_HEADER_CHAR ch then Some (V_error CHPE_INVALID_HEADER_TOKEN, p, h, hs)
              else if hs = h_general
              then (case general_loop data (lenient_http_headers h) (p + min (length data - p) max_header_size) p of
                      Inl q \<Rightarrow> Some (V_error CHPE_INVALID_HEADER_TOKEN, q, h, hs)
                    | Inr q \<Rightarrow> value_loop data ((if q = length data then q - 1 else q) + 1) h hs)
              else case value_switch ch c h hs of
                     None \<Rightarrow> None
                   | Some (Inl e) \<Rightarrow> Some (V_error e, p, h\<lparr>header_state := (if hs = h_content_length then h_content_length_num else hs)\<rparr>, hs)
                   | Some (Inr (h1, hs1)) \<Rightarrow> value_loop data (p + 1) h1 hs1)"
  by pat_completeness auto
termination value_loop
proof (relation "measure (\<lambda>(data, p, h, hs). length data - p)")
  fix data :: string and p q :: nat and h :: http_parser and hs :: header_states and ch c :: char
  assume "\<not> length data \<le> p" "ch = data ! p" "ch \<noteq> CR" "ch \<noteq> LF"
    "general_loop data (lenient_http_headers h) (p + min (length data - p) max_header_size) p = Inr q"
  then have "p \<le> q" by (intro general_loop_first) (auto simp: max_header_size_def)
  with \<open>\<not> length data \<le> p\<close> show "((data, (if q = length data then q - 1 else q) + 1, h, hs), data, p, h, hs) \<in>
      measure (\<lambda>(data, p, h, hs). length data - p)" by auto
qed auto

declare value_loop.simps [simp del]


definition step_value :: "'u callbacks \<Rightarrow> string \<Rightarrow> 'u machine \<Rightarrow> 'u run" where
  "step_value cb data m = (case value_loop data (pos m) (hp m) (header_state (hp m)) of
     None \<Rightarrow> assertion False (go m)
   | Some (V_error e, p, h, hs) \<Rightarrow> goto_error e (m\<lparr>hp := h, pos := p\<rparr>)
   | Some (V_cr, p, h, hs) \<Rightarrow>
       CALLBACK_DATA cb data M_header_value
         (m\<lparr>hp := h\<lparr>hp_state := s_header_almost_done, header_state := hs\<rparr>, pos := p\<rparr>) (\<lambda>m1.
           COUNT_HEADER_SIZE (p - pos m) (upd_hp (\<lambda>h. h\<lparr>header_state := hs\<rparr>) m1) go)
   | Some (V_lf, p, h, hs) \<Rightarrow>
       COUNT_HEADER_SIZE (p - pos m) (m\<lparr>hp := h\<lparr>hp_state := s_header_almost_done\<rparr>, pos := p\<rparr>) (\<lambda>m1.
         CALLBACK_DATA_NOADVANCE cb data M_header_value (upd_hp (\<lambda>h. h\<lparr>header_state := hs\<rparr>) m1) reexecute)
   | Some (V_end, p, h, hs) \<Rightarrow>
       COUNT_HEADER_SIZE (p - 1 - pos m) (m\<lparr>hp := h\<lparr>header_state := hs\<rparr>, pos := p - 1\<rparr>) go)"

definition step_header_almost_done :: "char \<Rightarrow> 'u machine \<Rightarrow> 'u run" where
  "step_header_almost_done ch m = (if ch \<noteq> LF then goto_error CHPE_LF_EXPECTED m else go (to_state s_header_value_lws m))"

text \<open>The flag that a finished header sets.\<close>

definition finish_header :: "http_parser \<Rightarrow> http_parser" where
  "finish_header h = (case header_state h of
     h_connection_keep_alive \<Rightarrow> h\<lparr>hp_flags := insert F_CONNECTION_KEEP_ALIVE (hp_flags h)\<rparr>
   | h_connection_close \<Rightarrow> h\<lparr>hp_flags := insert F_CONNECTION_CLOSE (hp_flags h)\<rparr>
   | h_transfer_encoding_chunked \<Rightarrow> h\<lparr>hp_flags := insert F_CHUNKED (hp_flags h)\<rparr>
   | _ \<Rightarrow> h)"

definition step_value_lws :: "char \<Rightarrow> 'u machine \<Rightarrow> 'u run" where
  "step_value_lws ch m =
     (if ch = CHR '' '' \<or> ch = TAB
      then reexecute (to_state s_header_value_start (upd_hp (\<lambda>h. h\<lparr>header_state :=
             (if header_state h = h_content_length_num then h_content_length_ws else header_state h)\<rparr>) m))
      else reexecute (to_state s_header_field_start (upd_hp finish_header m)))"

definition step_value_discard_lws :: "'u callbacks \<Rightarrow> string \<Rightarrow> char \<Rightarrow> 'u machine \<Rightarrow> 'u run" where
  "step_value_discard_lws cb data ch m =
     (if ch = CHR '' '' \<or> ch = TAB then go (to_state s_header_value_discard_ws m)
      else CALLBACK_DATA_NOADVANCE cb data M_header_value (to_state s_header_field_start (MARK M_header_value m)) reexecute)"

subsection \<open>The end of the headers\<close>

text \<open>
  The callback \<open>on_headers_complete\<close> may return 1 for a message without a body and 2 for one that
  changes the protocol; any other value but 0 is an error.
\<close>

definition step_headers_almost_done :: "'u callbacks \<Rightarrow> char \<Rightarrow> 'u machine \<Rightarrow> 'u run" where
  "step_headers_almost_done cb ch m =
     (let h = hp m; stop = \<lambda>m. Some (Inr (Return (upd_hp (\<lambda>h. h\<lparr>hp_nread := nread m\<rparr>) m) (pos m)))
      in STRICT_CHECK (ch \<noteq> LF) m
           (if F_TRAILING \<in> hp_flags h then CALLBACK_NOTIFY cb CB_message_complete m go
            else if uses_transfer_encoding h \<and> F_CONTENTLENGTH \<in> hp_flags h \<and>
                    (if F_CHUNKED \<in> hp_flags h then \<not> allow_chunked_length h else \<not> lenient_http_headers h)
            then goto_error CHPE_UNEXPECTED_CONTENT_LENGTH m
            else let m1 = to_state s_headers_done (upd_hp (\<lambda>h. h\<lparr>hp_upgrade :=
                            (F_UPGRADE \<in> hp_flags h \<or> hp_method h = method_num Connect)\<rparr>) m)
                 in then_do (cb CB_headers_complete (hp m1) (usr m1)) (\<lambda>(h2, u2, rc).
                      let m2 = m1\<lparr>hp := h2, usr := u2\<rparr>;
                          m3 = (if rc = 2 then upd_hp (\<lambda>h. h\<lparr>hp_upgrade := True, hp_flags := insert F_SKIPBODY (hp_flags h)\<rparr>) m2
                                else if rc = 1 then upd_hp (\<lambda>h. h\<lparr>hp_flags := insert F_SKIPBODY (hp_flags h)\<rparr>) m2 else m2)
                      in if rc \<noteq> 0 \<and> rc \<noteq> 1 \<and> rc \<noteq> 2 then stop (SET_ERRNO CHPE_CB_headers_complete m3)
                         else if http_errno (hp m3) \<noteq> CHPE_OK then stop m3
                         else reexecute m3)))"

definition step_headers_done :: "'u callbacks \<Rightarrow> char \<Rightarrow> 'u machine \<Rightarrow> 'u run" where
  "step_headers_done cb ch m = STRICT_CHECK (ch \<noteq> LF) m
     (let m1 = (upd_hp (\<lambda>h. h\<lparr>hp_nread := 0\<rparr>) m)\<lparr>nread := 0\<rparr>; h = hp m1
      in if hp_upgrade h
         then CALLBACK_NOTIFY cb CB_message_complete m1 (\<lambda>m2.
                Some (Inr (Return (upd_hp (\<lambda>h. h\<lparr>hp_nread := nread m2\<rparr>) m2) (pos m2 + 1))))
         else if F_SKIPBODY \<in> hp_flags h then CALLBACK_NOTIFY cb CB_message_complete m1 go
         else if F_CHUNKED \<in> hp_flags h then go (to_state s_chunk_size_start m1)
         else if uses_transfer_encoding h
         then if \<not> lenient_http_headers h
              then Some (Inr (Return (SET_ERRNO CHPE_INVALID_TRANSFER_ENCODING m1) (pos m1)))
              else go (to_state s_body_identity_eof m1)
         else if content_length h = 0 then CALLBACK_NOTIFY cb CB_message_complete m1 go
         else if content_length h \<noteq> ULLONG_MAX then go (to_state s_body_identity m1)
         else CALLBACK_NOTIFY cb CB_message_complete m1 go)"

subsection \<open>Bodies\<close>

text \<open>\<open>CROW_MIN(parser->content_length, (uint64_t) ((data + len) - p))\<close>, and the advance by it.\<close>

definition take_body :: "string \<Rightarrow> 'u machine \<Rightarrow> 'u machine" where
  "take_body data m =
     (let to_read = min (content_length (hp m)) (of_nat (length data - pos m))
      in (upd_hp (\<lambda>h. h\<lparr>content_length := content_length h - to_read\<rparr>) (MARK M_body m))\<lparr>pos := pos m + unat to_read - 1\<rparr>)"

definition has_length :: "http_parser \<Rightarrow> bool" where
  "has_length h \<longleftrightarrow> content_length h \<noteq> 0 \<and> content_length h \<noteq> ULLONG_MAX"

definition step_body_identity :: "'u callbacks \<Rightarrow> string \<Rightarrow> 'u machine \<Rightarrow> 'u run" where
  "step_body_identity cb data m = assertion (has_length (hp m))
     (let m1 = take_body data m
      in if content_length (hp m1) = 0
         then CALLBACK_DATA_RET cb data M_body (pos m1 + 1) (pos m1) (to_state s_message_done m1) reexecute
         else go m1)"

definition step_body_identity_eof :: "string \<Rightarrow> 'u machine \<Rightarrow> 'u run" where
  "step_body_identity_eof data m = go ((MARK M_body m)\<lparr>pos := length data - 1\<rparr>)"

definition step_message_done :: "'u callbacks \<Rightarrow> 'u machine \<Rightarrow> 'u run" where
  "step_message_done cb m = CALLBACK_NOTIFY cb CB_message_complete m go"

definition chunked :: "'u machine \<Rightarrow> 'u run \<Rightarrow> 'u run" where
  "chunked m = assertion (F_CHUNKED \<in> hp_flags (hp m))"

definition step_chunk_size_start :: "char \<Rightarrow> 'u machine \<Rightarrow> 'u run" where
  "step_chunk_size_start ch m = assertion (nread m = 1) (chunked m
     (if unhex ch = - 1 then goto_error CHPE_INVALID_CHUNK_SIZE m
      else go (to_state s_chunk_size (upd_hp (\<lambda>h. h\<lparr>content_length := of_int (unhex ch)\<rparr>) m))))"

definition step_chunk_size :: "char \<Rightarrow> 'u machine \<Rightarrow> 'u run" where
  "step_chunk_size ch m = chunked m
     (if ch = CR then go (to_state s_chunk_size_almost_done m)
      else if unhex ch = - 1
      then if ch = CHR '';'' \<or> ch = CHR '' '' then go (to_state s_chunk_parameters m) else goto_error CHPE_INVALID_CHUNK_SIZE m
      else if (ULLONG_MAX - 16) div 16 < content_length (hp m) then goto_error CHPE_INVALID_CONTENT_LENGTH m
      else go (upd_hp (\<lambda>h. h\<lparr>content_length := content_length h * 16 + of_int (unhex ch)\<rparr>) m))"

definition step_chunk_parameters :: "char \<Rightarrow> 'u machine \<Rightarrow> 'u run" where
  "step_chunk_parameters ch m = chunked m (if ch = CR then go (to_state s_chunk_size_almost_done m) else go m)"

definition step_chunk_size_almost_done :: "char \<Rightarrow> 'u machine \<Rightarrow> 'u run" where
  "step_chunk_size_almost_done ch m = chunked m (STRICT_CHECK (ch \<noteq> LF) m
     (let m1 = (upd_hp (\<lambda>h. h\<lparr>hp_nread := 0\<rparr>) m)\<lparr>nread := 0\<rparr>
      in if content_length (hp m1) = 0
         then go (to_state s_header_field_start (upd_hp (\<lambda>h. h\<lparr>hp_flags := insert F_TRAILING (hp_flags h)\<rparr>) m1))
         else go (to_state s_chunk_data m1)))"

definition step_chunk_data :: "string \<Rightarrow> 'u machine \<Rightarrow> 'u run" where
  "step_chunk_data data m = chunked m (assertion (has_length (hp m))
     (let m1 = take_body data m
      in go (if content_length (hp m1) = 0 then to_state s_chunk_data_almost_done m1 else m1)))"

definition step_chunk_data_almost_done :: "'u callbacks \<Rightarrow> string \<Rightarrow> char \<Rightarrow> 'u machine \<Rightarrow> 'u run" where
  "step_chunk_data_almost_done cb data ch m = chunked m (assertion (content_length (hp m) = 0) (STRICT_CHECK (ch \<noteq> CR) m
     (CALLBACK_DATA cb data M_body (to_state s_chunk_data_done m) go)))"

definition step_chunk_data_done :: "char \<Rightarrow> 'u machine \<Rightarrow> 'u run" where
  "step_chunk_data_done ch m = chunked m (STRICT_CHECK (ch \<noteq> LF) m
     (go (to_state s_chunk_size_start ((upd_hp (\<lambda>h. h\<lparr>hp_nread := 0\<rparr>) m)\<lparr>nread := 0\<rparr>))))"

subsection \<open>\<open>http_parser_execute\<close>\<close>

definition dispatch_state :: "'u callbacks \<Rightarrow> string \<Rightarrow> char \<Rightarrow> 'u machine \<Rightarrow> 'u run" where
  "dispatch_state cb data ch m = (case hp_state (hp m) of
     s_dead \<Rightarrow> step_dead ch m
   | s_start_req \<Rightarrow> step_start_req cb ch m
   | s_req_method \<Rightarrow> step_req_method cb ch m
   | s_req_spaces_before_url \<Rightarrow> step_spaces_before_url ch m
   | s_req_schema \<Rightarrow> step_url_start ch m
   | s_req_schema_slash \<Rightarrow> step_url_start ch m
   | s_req_schema_slash_slash \<Rightarrow> step_url_start ch m
   | s_req_server_start \<Rightarrow> step_url_start ch m
   | s_req_server \<Rightarrow> step_url cb data ch m
   | s_req_server_with_at \<Rightarrow> step_url cb data ch m
   | s_req_path \<Rightarrow> step_url cb data ch m
   | s_req_query_string_start \<Rightarrow> step_url cb data ch m
   | s_req_query_string \<Rightarrow> step_url cb data ch m
   | s_req_http_start \<Rightarrow> step_http_start ch m
   | s_req_http_H \<Rightarrow> step_expect (CHR ''T'') s_req_http_HT ch m
   | s_req_http_HT \<Rightarrow> step_expect (CHR ''T'') s_req_http_HTT ch m
   | s_req_http_HTT \<Rightarrow> step_expect (CHR ''P'') s_req_http_HTTP ch m
   | s_req_http_I \<Rightarrow> step_expect (CHR ''C'') s_req_http_IC ch m
   | s_req_http_IC \<Rightarrow> step_expect (CHR ''E'') s_req_http_HTTP ch m
   | s_req_http_HTTP \<Rightarrow> step_expect (CHR ''/'') s_req_http_major ch m
   | s_req_http_major \<Rightarrow> step_http_major ch m
   | s_req_http_dot \<Rightarrow> step_http_dot ch m
   | s_req_http_minor \<Rightarrow> step_http_minor ch m
   | s_req_http_end \<Rightarrow> step_http_end ch m
   | s_req_line_almost_done \<Rightarrow> step_line_almost_done ch m
   | s_header_field_start \<Rightarrow> step_field_start ch m
   | s_header_field \<Rightarrow> step_field cb data m
   | s_header_value_discard_ws \<Rightarrow> step_value_discard_ws data ch m
   | s_header_value_start \<Rightarrow> step_value_start data ch m
   | s_header_value \<Rightarrow> step_value cb data m
   | s_header_almost_done \<Rightarrow> step_header_almost_done ch m
   | s_header_value_lws \<Rightarrow> step_value_lws ch m
   | s_header_value_discard_ws_almost_done \<Rightarrow> STRICT_CHECK (ch \<noteq> LF) m (go (to_state s_header_value_discard_lws m))
   | s_header_value_discard_lws \<Rightarrow> step_value_discard_lws cb data ch m
   | s_headers_almost_done \<Rightarrow> step_headers_almost_done cb ch m
   | s_headers_done \<Rightarrow> step_headers_done cb ch m
   | s_body_identity \<Rightarrow> step_body_identity cb data m
   | s_body_identity_eof \<Rightarrow> step_body_identity_eof data m
   | s_message_done \<Rightarrow> step_message_done cb m
   | s_chunk_size_start \<Rightarrow> step_chunk_size_start ch m
   | s_chunk_size \<Rightarrow> step_chunk_size ch m
   | s_chunk_parameters \<Rightarrow> step_chunk_parameters ch m
   | s_chunk_size_almost_done \<Rightarrow> step_chunk_size_almost_done ch m
   | s_chunk_data \<Rightarrow> step_chunk_data data m
   | s_chunk_data_almost_done \<Rightarrow> step_chunk_data_almost_done cb data ch m
   | s_chunk_data_done \<Rightarrow> step_chunk_data_done ch m)"

text \<open>One round of the loop: the count of the header bytes, unless the round is a repetition, and the switch.\<close>

definition round :: "'u callbacks \<Rightarrow> string \<Rightarrow> bool \<Rightarrow> 'u machine \<Rightarrow> 'u run" where
  "round cb data again m =
     (if \<not> again \<and> PARSING_HEADER (hp_state (hp m))
      then COUNT_HEADER_SIZE 1 m (dispatch_state cb data (data ! pos m))
      else dispatch_state cb data (data ! pos m) m)"

text \<open>After the last byte: at most one mark is left, and its data callback runs.\<close>

definition leftover :: "'u callbacks \<Rightarrow> string \<Rightarrow> 'u machine \<Rightarrow> 'u run" where
  "leftover cb data m =
     assertion (length (filter (\<lambda>k. marks m k \<noteq> None) [M_header_field, M_header_value, M_url, M_body]) \<le> 1)
       (CALLBACK_DATA_NOADVANCE cb data M_header_field m (\<lambda>m1.
        CALLBACK_DATA_NOADVANCE cb data M_header_value m1 (\<lambda>m2.
        CALLBACK_DATA_NOADVANCE cb data M_url m2 (\<lambda>m3.
        CALLBACK_DATA_NOADVANCE cb data M_body m3 (\<lambda>m4.
          Some (Inr (Return (upd_hp (\<lambda>h. h\<lparr>hp_nread := nread m4\<rparr>) m4) (length data))))))))"

text \<open>A callback can put the parser into any state, so that nothing but the callbacks bounds the loop.\<close>

partial_function (option) http_loop :: "'u callbacks \<Rightarrow> string \<Rightarrow> bool \<Rightarrow> 'u machine \<Rightarrow> ('u machine \<times> nat) result option" where
  "http_loop cb data again m =
     (case (if \<not> again \<and> length data \<le> pos m then leftover cb data m else round cb data again m) of
        None \<Rightarrow> None
      | Some (Inl e) \<Rightarrow> Some (Inl e)
      | Some (Inr (Return m1 n)) \<Rightarrow> Some (Inr (m1, n))
      | Some (Inr (Reexecute m1)) \<Rightarrow> http_loop cb data True m1
      | Some (Inr (Next m1)) \<Rightarrow> http_loop cb data False (m1\<lparr>pos := pos m1 + 1\<rparr>))"

text \<open>The marks of a buffer that continues a text.\<close>

definition initial_marks :: "state \<Rightarrow> mark \<Rightarrow> nat option" where
  "initial_marks s k =
     (if k = M_header_field \<and> s = s_header_field \<or> k = M_header_value \<and> s = s_header_value \<or>
         k = M_url \<and> s \<in> {s_req_path, s_req_schema, s_req_schema_slash, s_req_schema_slash_slash, s_req_server_start,
           s_req_server, s_req_server_with_at, s_req_query_string_start, s_req_query_string}
      then Some 0 else None)"

definition http_parser_execute :: "'u callbacks \<Rightarrow> string \<Rightarrow> http_parser \<Rightarrow> 'u \<Rightarrow> (http_parser \<times> 'u \<times> nat) result option" where
  "http_parser_execute cb data h u =
     (let m = \<lparr>hp = h, usr = u, pos = 0, nread = hp_nread h, marks = initial_marks (hp_state h), url_start_mark = None\<rparr>;
          result = \<lambda>r. then_do r (\<lambda>(m1, n). Some (Inr (hp m1, usr m1, n)))
      in if http_errno h \<noteq> CHPE_OK then Some (Inr (h, u, 0))
         else if data = []
         then if hp_state h = s_body_identity_eof
              then then_do (CALLBACK_NOTIFY_NOADVANCE cb CB_message_complete m (\<lambda>m1. Some (Inr (Return m1 0))))
                     (\<lambda>f. case f of Return m1 n \<Rightarrow> Some (Inr (hp m1, usr m1, n)) | _ \<Rightarrow> None)
              else if hp_state h = s_dead \<or> hp_state h = s_start_req then Some (Inr (h, u, 0))
              else Some (Inr (hp (SET_ERRNO CHPE_INVALID_EOF_STATE m), u, 1))
         else result (http_loop cb data False m))"

end
