(* ===== verification/Http_Text.thy ===== *)
theory Http_Text
  imports Http_Parser
begin

text \<open>
  The byte-level parser on pieces of a request: the texts of a method, a url, a header name and a
  header value, each with what the loops of the parser make of it, and the kinds of headers that the
  parser reads on its own account.
\<close>

subsection \<open>Texts in a buffer\<close>

definition has :: "string \<Rightarrow> nat \<Rightarrow> string \<Rightarrow> bool" where
  "has data p t \<longleftrightarrow> take (length t) (drop p data) = t"

lemma has_Nil [simp]: "has data p []"
  by (simp add: has_def)

lemma has_Cons [simp]: "has data p (c # t) \<longleftrightarrow> p < length data \<and> data ! p = c \<and> has data (Suc p) t"
proof (cases "p < length data")
  case True
  then have "drop p data = data ! p # drop (Suc p) data" by (simp add: Cons_nth_drop_Suc)
  with True show ?thesis by (auto simp: has_def)
qed (simp add: has_def)

lemma has_append: "has data p (s @ t) \<longleftrightarrow> has data p s \<and> has data (p + length s) t"
  by (induction s arbitrary: p) auto

lemma has_whole: "has data 0 data"
  by (simp add: has_def)

lemma has_take: "has data p t \<Longrightarrow> take (p + length t - p) (drop p data) = t"
  by (simp add: has_def)

lemma has_fits: "has data p t \<Longrightarrow> t \<noteq> [] \<Longrightarrow> p + length t \<le> length data"
proof -
  assume t: "has data p t" "t \<noteq> []"
  then have "length t \<le> length data - p" unfolding has_def by (metis length_drop length_take min.cobounded1)
  with t(2) show ?thesis by (cases t) auto
qed

lemma has_nth:
  assumes "has data p t" "i < length t"
  shows "p + i < length data" "data ! (p + i) = t ! i"
proof -
  have "p + length t \<le> length data" using assms by (intro has_fits) auto
  then show "p + i < length data" using assms(2) by simp
  have "take (length t) (drop p data) ! i = t ! i" using assms(1) by (simp add: has_def)
  with assms(2) \<open>p + length t \<le> length data\<close> show "data ! (p + i) = t ! i" by simp
qed

subsection \<open>Rounds of the loop\<close>

text \<open>The number of header bytes read, in its width.\<close>

definition nread_of :: "nat \<Rightarrow> u32" where
  "nread_of n = of_nat n"

abbreviation mach :: "http_parser \<Rightarrow> 'u \<Rightarrow> nat \<Rightarrow> nat \<Rightarrow> (mark \<Rightarrow> nat option) \<Rightarrow> nat option \<Rightarrow> 'u machine" where
  "mach h u p n mk us \<equiv> \<lparr>hp = h, usr = u, pos = p, nread = nread_of n, marks = mk, url_start_mark = us\<rparr>"

abbreviation no_marks :: "mark \<Rightarrow> nat option" where "no_marks \<equiv> \<lambda>_. None"

text \<open>Updates of the parser are written with the state last.\<close>

lemma state_last [simp]:
  "h\<lparr>hp_state := s, header_state := a\<rparr> = h\<lparr>header_state := a, hp_state := s\<rparr>"
  "h\<lparr>hp_state := s, hp_index := i\<rparr> = h\<lparr>hp_index := i, hp_state := s\<rparr>"
  "h\<lparr>hp_state := s, hp_method := i\<rparr> = h\<lparr>hp_method := i, hp_state := s\<rparr>"
  "h\<lparr>hp_state := s, hp_flags := fl\<rparr> = h\<lparr>hp_flags := fl, hp_state := s\<rparr>"
  "h\<lparr>hp_state := s, content_length := l\<rparr> = h\<lparr>content_length := l, hp_state := s\<rparr>"
  "h\<lparr>hp_state := s, hp_nread := r\<rparr> = h\<lparr>hp_nread := r, hp_state := s\<rparr>"
  "h\<lparr>hp_state := s, hp_qs_point := i\<rparr> = h\<lparr>hp_qs_point := i, hp_state := s\<rparr>"
  "h\<lparr>hp_state := s, hp_major := i\<rparr> = h\<lparr>hp_major := i, hp_state := s\<rparr>"
  "h\<lparr>hp_state := s, hp_minor := i\<rparr> = h\<lparr>hp_minor := i, hp_state := s\<rparr>"
  "h\<lparr>hp_state := s, hp_upgrade := b\<rparr> = h\<lparr>hp_upgrade := b, hp_state := s\<rparr>"
  "h\<lparr>hp_state := s, uses_transfer_encoding := b\<rparr> = h\<lparr>uses_transfer_encoding := b, hp_state := s\<rparr>"
  "h\<lparr>header_state := a, hp_index := i\<rparr> = h\<lparr>hp_index := i, header_state := a\<rparr>"
  by (cases h; simp)+

lemma loop_simps:
  "again \<or> pos m < length data \<Longrightarrow> round cb data again m = Some (Inr (Next m1)) \<Longrightarrow>
     http_loop cb data again m = http_loop cb data False (m1\<lparr>pos := pos m1 + 1\<rparr>)"
  "again \<or> pos m < length data \<Longrightarrow> round cb data again m = Some (Inr (Reexecute m1)) \<Longrightarrow>
     http_loop cb data again m = http_loop cb data True m1"
  "again \<or> pos m < length data \<Longrightarrow> round cb data again m = Some (Inr (Return m1 n)) \<Longrightarrow>
     http_loop cb data again m = Some (Inr (m1, n))"
  "length data \<le> pos m \<Longrightarrow> leftover cb data m = Some (Inr (Return m1 n)) \<Longrightarrow> http_loop cb data False m = Some (Inr (m1, n))"
  by (subst http_loop.simps; auto)+

lemma count_header:
  assumes "n + v \<le> max_header_size"
  shows "COUNT_HEADER_SIZE v (mach h u p n mk us) k = k (mach h u p (n + v) mk us)"
proof -
  have "n + v < 2 ^ 32" "max_header_size < 2 ^ 32" using assms by (simp_all add: max_header_size_def)
  then have "unat (of_nat n + of_nat v :: u32) = n + v" "unat (of_nat max_header_size :: u32) = max_header_size"
    by (simp_all only: of_nat_add [symmetric] unat_of_nat len_num1 len_num0 len_bit0 mod_less mult_1_right, simp_all)
  then have "\<not> of_nat max_header_size < (of_nat n + of_nat v :: u32)" using assms by (simp add: word_less_nat_alt)
  then show ?thesis by (simp add: COUNT_HEADER_SIZE_def nread_of_def)
qed

text \<open>A byte of the header is counted, then goes to the case of the state.\<close>

lemma round_header:
  assumes "PARSING_HEADER (hp_state h)" "n + 1 \<le> max_header_size"
  shows "round cb data False (mach h u p n mk us) = dispatch_state cb data (data ! p) (mach h u p (n + 1) mk us)"
  using assms count_header [OF assms(2)] by (simp add: round_def)

text \<open>The same as a repetition of the round.\<close>

lemma loop_counted:
  assumes "p < length data" "PARSING_HEADER (hp_state h)" "n + 1 \<le> max_header_size"
  shows "http_loop cb data False (mach h u p n mk us) = http_loop cb data True (mach h u p (n + 1) mk us)"
proof -
  have "round cb data False (mach h u p n mk us) = round cb data True (mach h u p (n + 1) mk us)"
    using round_header [OF assms(2,3), of cb data u p mk us] by (simp add: round_def)
  then show ?thesis using assms(1) by (subst (1 2) http_loop.simps) simp
qed

lemma loop_next:
  assumes "dispatch_state cb data (data ! p) (mach h u p n mk us) = go (mach h' u' p' n' mk' us')"
  shows "http_loop cb data True (mach h u p n mk us) = http_loop cb data False (mach h' u' (p' + 1) n' mk' us')"
  using assms loop_simps(1) [of True "mach h u p n mk us" data cb "mach h' u' p' n' mk' us'"] by (simp add: round_def go_def)

lemma loop_again:
  assumes "dispatch_state cb data (data ! p) (mach h u p n mk us) = reexecute (mach h' u' p' n' mk' us')"
  shows "http_loop cb data True (mach h u p n mk us) = http_loop cb data True (mach h' u' p' n' mk' us')"
  using assms loop_simps(2) [of True "mach h u p n mk us" data cb "mach h' u' p' n' mk' us'"] by (simp add: round_def reexecute_def)

lemma loop_header:
  assumes "p < length data" "PARSING_HEADER (hp_state h)" "n + 1 \<le> max_header_size"
    "dispatch_state cb data (data ! p) (mach h u p (n + 1) mk us) = go (mach h' u' p' n' mk' us')"
  shows "http_loop cb data False (mach h u p n mk us) = http_loop cb data False (mach h' u' (p' + 1) n' mk' us')"
  using assms round_header [of h n cb data u p mk us] loop_simps(1) [of False "mach h u p n mk us" data cb "mach h' u' p' n' mk' us'"]
  by (simp add: go_def)


lemma notify_quiet:
  assumes "cb ev h u = Some (Inr (h, u', 0))" "http_errno h = CHPE_OK"
  shows "CALLBACK_NOTIFY_RET cb ev er (mach h u p n mk us) k = k (mach h u' p n mk us)"
  using assms by (simp add: CALLBACK_NOTIFY_RET_def assertion_def then_do_def)

lemma data_quiet:
  assumes "mk FOR = Some a" "cb (mark_cb FOR (take (fin - a) (drop a data))) h u = Some (Inr (h, u', 0))" "http_errno h = CHPE_OK"
  shows "CALLBACK_DATA_RET cb data FOR fin er (mach h u p n mk us) k = k (mach h u' p n (mk(FOR := None)) us)"
  using assms(1,3) notify_quiet [of cb "mark_cb FOR (take (fin - a) (drop a data))" h u u' er p n mk us]
  by (simp add: CALLBACK_DATA_RET_def assertion_def assms(2))

subsection \<open>Method names\<close>

fun method_scan :: "nat \<Rightarrow> nat \<Rightarrow> string \<Rightarrow> nat option" where
  "method_scan meth i [] = Some meth"
| "method_scan meth i (c # cs) = (if c = NUL \<or> c = CHR '' '' then None
     else case next_method meth i c of None \<Rightarrow> None | Some new \<Rightarrow> method_scan new (i + 1) cs)"

text \<open>The scan finds every method under its name.\<close>

definition method_found :: "nat \<Rightarrow> bool" where
  "method_found meth \<longleftrightarrow> (case method_strings ! meth of
     [] \<Rightarrow> False
   | c # cs \<Rightarrow> IS_ALPHA c \<and> length cs < 30 \<and>
       (case first_method c of None \<Rightarrow> False | Some f \<Rightarrow> method_scan (method_num f) 1 cs = Some meth))"

lemma methods_found: "meth < internal_method_count \<Longrightarrow> method_found meth"
proof -
  have "list_all method_found [0..<34]" by code_simp
  then show "meth < internal_method_count \<Longrightarrow> method_found meth" by (simp add: internal_method_count_def list_all_iff)
qed

subsection \<open>Urls\<close>

definition url_text :: "string \<Rightarrow> bool" where
  "url_text t \<longleftrightarrow> list_all (\<lambda>c. IS_URL_CHAR c \<or> c = CHR ''?'') t"

definition query_point :: "string \<Rightarrow> nat" where
  "query_point u = (if CHR ''?'' \<in> set u then length (takeWhile (\<lambda>c. c \<noteq> CHR ''?'') u) else 0)"

text \<open>The query position after the text \<open>t\<close> at \<open>p\<close> of a url that starts at \<open>a\<close>.\<close>

fun query_seen :: "nat \<Rightarrow> nat \<Rightarrow> string \<Rightarrow> nat \<Rightarrow> nat" where
  "query_seen a p [] d = d"
| "query_seen a p (c # t) d = (if c = CHR ''?'' then p - a else query_seen a (Suc p) t d)"

lemma query_seen_point:
  "a \<le> p \<Longrightarrow> query_seen a p t d = (if CHR ''?'' \<in> set t then p - a + length (takeWhile (\<lambda>c. c \<noteq> CHR ''?'') t) else d)"
  by (induction t arbitrary: p) (auto simp: Suc_diff_le)

lemma url_char_plain:
  assumes "IS_URL_CHAR c \<or> c = CHR ''?''"
  shows "c \<noteq> CHR '' ''" "c \<noteq> CR" "c \<noteq> LF" "c \<noteq> TAB" "c \<noteq> FF"
proof -
  have "\<not> IS_URL_CHAR (CHR '' '')" "\<not> IS_URL_CHAR CR" "\<not> IS_URL_CHAR LF" "\<not> IS_URL_CHAR TAB" "\<not> IS_URL_CHAR FF"
    by code_simp+
  with assms show "c \<noteq> CHR '' ''" "c \<noteq> CR" "c \<noteq> LF" "c \<noteq> TAB" "c \<noteq> FF" by auto
qed

lemma question_mark: "\<not> IS_URL_CHAR (CHR ''?'')"
  by code_simp

lemma query_step:
  assumes "hp_state h \<in> {s_req_query_string_start, s_req_query_string}" "IS_URL_CHAR c \<or> c = CHR ''?''"
  shows "dispatch_state cb data c (mach h u p n mk us) = go (mach (h\<lparr>hp_state := s_req_query_string\<rparr>) u p n mk us)"
proof -
  consider "hp_state h = s_req_query_string_start" | "hp_state h = s_req_query_string" using assms(1) by auto
  then show ?thesis
    by cases (use url_char_plain [OF assms(2)] assms(2) in
        \<open>simp_all add: dispatch_state_def step_url_def advance_url_def parse_url_char_def to_state_def upd_hp_def Let_def\<close>)
qed

lemma path_step:
  assumes "hp_state h = s_req_path" "IS_URL_CHAR c"
  shows "dispatch_state cb data c (mach h u p n mk us) = go (mach h u p n mk us)"
  using assms url_char_plain [of c] question_mark
  by (cases h) (auto simp: dispatch_state_def step_url_def advance_url_def parse_url_char_def to_state_def upd_hp_def Let_def)

lemma path_query_step:
  assumes "hp_state h = s_req_path"
  shows "dispatch_state cb data (CHR ''?'') (mach h u p n mk (Some a)) =
    go (mach (h\<lparr>hp_qs_point := p - a, hp_state := s_req_query_string_start\<rparr>) u p n mk (Some a))"
  using assms question_mark
  by (cases h) (simp add: dispatch_state_def step_url_def advance_url_def parse_url_char_def query_at_def to_state_def upd_hp_def Let_def)

lemma query_loop:
  "hp_state h \<in> {s_req_query_string_start, s_req_query_string} \<Longrightarrow> url_text t \<Longrightarrow> has data p t \<Longrightarrow>
   n + length t \<le> max_header_size \<Longrightarrow>
   \<exists>s \<in> {s_req_query_string_start, s_req_query_string}. http_loop cb data False (mach h u p n mk us) =
     http_loop cb data False (mach (h\<lparr>hp_state := s\<rparr>) u (p + length t) (n + length t) mk us)"
proof (induction t arbitrary: h p n)
  case Nil
  then show ?case by (cases h) auto
next
  case (Cons c t)
  let ?h = "h\<lparr>hp_state := s_req_query_string\<rparr>"
  have "dispatch_state cb data (data ! p) (mach h u p (n + 1) mk us) = go (mach ?h u p (n + 1) mk us)"
    using query_step [of h c] Cons.prems by (simp add: url_text_def)
  from loop_header [OF _ _ _ this] Cons.prems
  have "http_loop cb data False (mach h u p n mk us) = http_loop cb data False (mach ?h u (p + 1) (n + 1) mk us)"
    by (auto simp: PARSING_HEADER_def)
  with Cons.IH [of ?h "p + 1" "n + 1"] Cons.prems show ?case by (simp add: url_text_def)
qed

lemma path_loop:
  "hp_state h = s_req_path \<Longrightarrow> url_text t \<Longrightarrow> has data p t \<Longrightarrow> n + length t \<le> max_header_size \<Longrightarrow>
   \<exists>s \<in> {s_req_path, s_req_query_string_start, s_req_query_string}. http_loop cb data False (mach h u p n mk (Some a)) =
     http_loop cb data False (mach (h\<lparr>hp_qs_point := query_seen a p t (hp_qs_point h), hp_state := s\<rparr>)
       u (p + length t) (n + length t) mk (Some a))"
proof (induction t arbitrary: p n)
  case Nil
  then show ?case by (cases h) auto
next
  case (Cons c t)
  show ?case
  proof (cases "c = CHR ''?''")
    case True
    let ?h = "h\<lparr>hp_qs_point := p - a, hp_state := s_req_query_string_start\<rparr>"
    have "dispatch_state cb data (data ! p) (mach h u p (n + 1) mk (Some a)) = go (mach ?h u p (n + 1) mk (Some a))"
      using path_query_step [of h] Cons.prems True by simp
    from loop_header [OF _ _ _ this] Cons.prems
    have "http_loop cb data False (mach h u p n mk (Some a)) = http_loop cb data False (mach ?h u (p + 1) (n + 1) mk (Some a))"
      by (auto simp: PARSING_HEADER_def)
    with query_loop [of ?h t data "p + 1" "n + 1" cb u mk "Some a"] Cons.prems True show ?thesis
      by (auto simp: url_text_def)
  next
    case False
    then have "dispatch_state cb data (data ! p) (mach h u p (n + 1) mk (Some a)) = go (mach h u p (n + 1) mk (Some a))"
      using path_step [of h c] Cons.prems by (simp add: url_text_def)
    from loop_header [OF _ _ _ this] Cons.prems
    have "http_loop cb data False (mach h u p n mk (Some a)) = http_loop cb data False (mach h u (p + 1) (n + 1) mk (Some a))"
      by (auto simp: PARSING_HEADER_def)
    with Cons.IH [of "p + 1" "n + 1"] Cons.prems False show ?thesis by (simp add: url_text_def)
  qed
qed

text \<open>
  The position that is stored for a url at \<open>p\<close>: it counts from the first url of the buffer, whose start
  \<open>us\<close> stays marked.
\<close>

definition url_origin :: "nat option \<Rightarrow> nat \<Rightarrow> nat" where
  "url_origin us p = (case us of None \<Rightarrow> p | Some a \<Rightarrow> a)"

definition stored_query :: "nat option \<Rightarrow> nat \<Rightarrow> string \<Rightarrow> nat" where
  "stored_query us p u = (if CHR ''?'' \<in> set u then p - url_origin us p + query_point u else 0)"

lemma stored_query_first [simp]: "stored_query None p u = query_point u"
  by (simp add: stored_query_def url_origin_def query_point_def)

lemma url_loop:
  assumes "hp_state h = s_req_spaces_before_url" "http_errno h = CHPE_OK" "hp_method h \<noteq> method_num Connect" "hp_qs_point h = 0"
    "url_origin us p \<le> p"
    and t: "url_text t" "has data p ((CHR ''/'' # t) @ '' '')" "n + length t + 2 \<le> max_header_size"
    and cb: "cb (CB_url (CHR ''/'' # t)) (h\<lparr>hp_qs_point := stored_query us p (CHR ''/'' # t), hp_state := s_req_http_start\<rparr>) u =
      Some (Inr (h\<lparr>hp_qs_point := stored_query us p (CHR ''/'' # t), hp_state := s_req_http_start\<rparr>, u', 0))"
  shows "http_loop cb data False (mach h u p n no_marks us) = http_loop cb data False
    (mach (h\<lparr>hp_qs_point := stored_query us p (CHR ''/'' # t), hp_state := s_req_http_start\<rparr>) u' (p + length t + 2) (n + length t + 2)
      no_marks (Some (url_origin us p)))"
proof -
  let ?mk = "no_marks(M_url := Some p)" and ?h1 = "h\<lparr>hp_state := s_req_path\<rparr>" and ?q = "stored_query us p (CHR ''/'' # t)"
  let ?e = "p + length t + 1" and ?k = "n + length t + 1" and ?us = "Some (url_origin us p)"
  have "dispatch_state cb data (data ! p) (mach h u p (n + 1) no_marks us) = go (mach ?h1 u p (n + 1) ?mk ?us)"
    using assms(1,3) t(2)
    by (cases us) (simp_all add: dispatch_state_def step_spaces_before_url_def MARK_def advance_url_def parse_url_char_def to_state_def
        upd_hp_def url_origin_def Let_def)
  from loop_header [OF _ _ _ this] assms(1) t
  have 1: "http_loop cb data False (mach h u p n no_marks us) = http_loop cb data False (mach ?h1 u (p + 1) (n + 1) ?mk ?us)"
    by (simp add: PARSING_HEADER_def)
  have q: "query_seen (url_origin us p) (p + 1) t (hp_qs_point ?h1) = ?q"
    using assms(4,5) by (simp add: stored_query_def query_point_def query_seen_point Suc_diff_le)
  have tl: "has data (p + 1) t" using t(2) unfolding has_append by simp
  obtain s where s: "s \<in> {s_req_path, s_req_query_string_start, s_req_query_string}"
    "http_loop cb data False (mach ?h1 u (p + 1) (n + 1) ?mk ?us) =
       http_loop cb data False (mach (h\<lparr>hp_qs_point := ?q, hp_state := s\<rparr>) u ?e ?k ?mk ?us)"
    using path_loop [OF _ t(1) tl, of ?h1 "n + 1" cb u ?mk "url_origin us p", unfolded q] t(3) by auto
  let ?h2 = "h\<lparr>hp_qs_point := ?q, hp_state := s_req_http_start\<rparr>"
  have "has data p (CHR ''/'' # t)" using t(2) unfolding has_append by simp
  then have "take (?e - p) (drop p data) = CHR ''/'' # t" by (simp add: has_def del: has_Cons)
  then have "CALLBACK_DATA_RET cb data M_url ?e (?e + 1) (mach ?h2 u ?e (?k + 1) ?mk ?us) go =
      go (mach ?h2 u' ?e (?k + 1) (?mk(M_url := None)) ?us)"
    using cb assms(2) by (intro data_quiet [where a = p]) simp_all
  then have "dispatch_state cb data (data ! ?e) (mach (h\<lparr>hp_qs_point := ?q, hp_state := s\<rparr>) u ?e (?k + 1) ?mk ?us) =
      go (mach ?h2 u' ?e (?k + 1) (?mk(M_url := None)) ?us)"
    using s(1) t(2) by (elim insertE emptyE) (simp_all add: has_append dispatch_state_def step_url_def to_state_def upd_hp_def)
  from loop_header [OF _ _ _ this] s(1) t
  have "http_loop cb data False (mach (h\<lparr>hp_qs_point := ?q, hp_state := s\<rparr>) u ?e ?k ?mk ?us) =
      http_loop cb data False (mach ?h2 u' (?e + 1) (?k + 1) (?mk(M_url := None)) ?us)"
    by (auto simp: has_append PARSING_HEADER_def)
  moreover have "?mk(M_url := None) = no_marks" by auto
  ultimately show ?thesis using 1 s(2) by (simp del: fun_upd_apply)
qed

subsection \<open>Header names\<close>

text \<open>The loop over the rest of a name as a fold.\<close>

fun name_fold :: "string \<Rightarrow> http_parser \<Rightarrow> http_parser" where
  "name_fold [] h = h"
| "name_fold (c # t) h = (if header_state h = h_general then h
     else case field_switch c (TOKEN c) h of None \<Rightarrow> h | Some h1 \<Rightarrow> name_fold t h1)"

definition token_text :: "string \<Rightarrow> bool" where
  "token_text t \<longleftrightarrow> list_all (\<lambda>c. TOKEN c \<noteq> NUL) t"

text \<open>
  What the states say of the lower-case name \<open>pre\<close> read so far: a proper part of a word that is
  being matched, with the index of its last character, or the whole word.
\<close>

definition part_of :: "string \<Rightarrow> nat \<Rightarrow> string \<Rightarrow> http_parser \<Rightarrow> bool" where
  "part_of word k pre h \<longleftrightarrow> k \<le> length pre \<and> length pre < length word \<and> pre = take (length pre) word \<and> hp_index h + 1 = length pre"

definition name_inv :: "string \<Rightarrow> http_parser \<Rightarrow> bool" where
  "name_inv pre h \<longleftrightarrow> (case header_state h of
     h_general \<Rightarrow> True
   | h_C \<Rightarrow> pre = ''c'' \<and> hp_index h = 0
   | h_CO \<Rightarrow> pre = ''co'' \<and> hp_index h = 1
   | h_CON \<Rightarrow> pre = ''con'' \<and> hp_index h = 2
   | h_matching_connection \<Rightarrow> part_of ''connection'' 1 pre h
   | h_matching_proxy_connection \<Rightarrow> part_of ''proxy-connection'' 1 pre h
   | h_matching_content_length \<Rightarrow> part_of ''content-length'' 1 pre h
   | h_matching_transfer_encoding \<Rightarrow> part_of ''transfer-encoding'' 1 pre h
   | h_matching_upgrade \<Rightarrow> part_of ''upgrade'' 1 pre h
   | h_connection \<Rightarrow> pre = ''connection'' \<or> pre = ''proxy-connection''
   | h_content_length \<Rightarrow> pre = ''content-length''
   | h_transfer_encoding \<Rightarrow> pre = ''transfer-encoding''
   | h_upgrade \<Rightarrow> pre = ''upgrade''
   | _ \<Rightarrow> False)"

text \<open>The fields that the loop over a name may change.\<close>

definition same_but_name :: "http_parser \<Rightarrow> http_parser \<Rightarrow> bool" where
  "same_but_name h h' \<longleftrightarrow> h' = h\<lparr>hp_index := hp_index h', header_state := header_state h',
     uses_transfer_encoding := uses_transfer_encoding h'\<rparr>"

lemma field_match_part:
  assumes "part_of word 1 pre h" "length word < 32"
  shows "header_state (field_match word found c h) = h_general \<or>
    header_state (field_match word found c h) = found \<and> pre @ [c] = word \<or>
    header_state (field_match word found c h) = header_state h \<and> part_of word 1 (pre @ [c]) (field_match word found c h)"
    "same_but_name h (field_match word found c h)" "uses_transfer_encoding (field_match word found c h) = uses_transfer_encoding h"
proof -
  have i: "(hp_index h + 1) mod 32 = length pre" "length pre < length word" "pre = take (length pre) word"
    using assms by (auto simp: part_of_def)
  have at: "at word (length pre) = word ! length pre" using i(2) by (simp add: at_def)
  have app: "pre @ [c] = take (Suc (length pre)) word" if "c = word ! length pre"
    using that i(2,3) by (simp add: take_Suc_conv_app_nth)
  show "header_state (field_match word found c h) = h_general \<or>
    header_state (field_match word found c h) = found \<and> pre @ [c] = word \<or>
    header_state (field_match word found c h) = header_state h \<and> part_of word 1 (pre @ [c]) (field_match word found c h)"
    using i app at by (auto simp: field_match_def match_word_def part_of_def Let_def)
  show "same_but_name h (field_match word found c h)" "uses_transfer_encoding (field_match word found c h) = uses_transfer_encoding h"
    by (cases h; simp add: field_match_def match_word_def same_but_name_def Let_def)+
qed

lemma same_but_name_refl [simp]: "same_but_name h h"
  by (simp add: same_but_name_def)

lemma same_but_name_trans: "same_but_name a b \<Longrightarrow> same_but_name b c \<Longrightarrow> same_but_name a c"
  by (cases a; cases b; cases c) (simp add: same_but_name_def)

text \<open>One character keeps the invariant; only a whole \<open>transfer-encoding\<close> sets its flag.\<close>

definition te_inv :: "http_parser \<Rightarrow> string \<Rightarrow> http_parser \<Rightarrow> bool" where
  "te_inv h pre h' \<longleftrightarrow> (uses_transfer_encoding h' \<longrightarrow> uses_transfer_encoding h \<or> is_prefix ''transfer-encoding'' pre)"

lemma field_switch_inv:
  assumes "name_inv pre h" "header_state h \<noteq> h_general" "ch \<noteq> CHR '' ''"
  shows "\<exists>h1. field_switch ch c h = Some h1 \<and> name_inv (pre @ [c]) h1 \<and> same_but_name h h1 \<and> te_inv h (pre @ [c]) h1"
proof -
  have next_step: "same_but_name h (field_next s h)" "te_inv h q (field_next s h)" for s q
    by (cases h; simp add: field_next_def same_but_name_def te_inv_def)+
  have match_step: "te_inv h q (field_match word found c h)" for word found q
    by (cases h) (simp add: field_match_def match_word_def te_inv_def Let_def)
  have general: "name_inv q (h\<lparr>header_state := h_general\<rparr>)" "same_but_name h (h\<lparr>header_state := h_general\<rparr>)"
    "te_inv h q (h\<lparr>header_state := h_general\<rparr>)" for q
    by (cases h; simp add: name_inv_def same_but_name_def te_inv_def)+
  show ?thesis
  proof (cases "header_state h")
    case h_C
    with assms(1) next_step show ?thesis by (auto simp: field_switch_def name_inv_def field_next_def)
  next
    case h_CO
    with assms(1) next_step show ?thesis by (auto simp: field_switch_def name_inv_def field_next_def)
  next
    case h_CON
    with assms(1) next_step show ?thesis by (auto simp: field_switch_def name_inv_def field_next_def part_of_def)
  next
    case h_matching_connection
    then have "part_of ''connection'' 1 pre h" using assms(1) by (simp add: name_inv_def)
    from field_match_part [OF this, of h_connection c] h_matching_connection match_step show ?thesis
      by (auto simp: field_switch_def name_inv_def)
  next
    case h_matching_proxy_connection
    then have "part_of ''proxy-connection'' 1 pre h" using assms(1) by (simp add: name_inv_def)
    from field_match_part [OF this, of h_connection c] h_matching_proxy_connection match_step show ?thesis
      by (auto simp: field_switch_def name_inv_def)
  next
    case h_matching_content_length
    then have "part_of ''content-length'' 1 pre h" using assms(1) by (simp add: name_inv_def)
    from field_match_part [OF this, of h_content_length c] h_matching_content_length match_step show ?thesis
      by (auto simp: field_switch_def name_inv_def)
  next
    case h_matching_upgrade
    then have "part_of ''upgrade'' 1 pre h" using assms(1) by (simp add: name_inv_def)
    from field_match_part [OF this, of h_upgrade c] h_matching_upgrade match_step show ?thesis
      by (auto simp: field_switch_def name_inv_def)
  next
    case h_matching_transfer_encoding
    let ?h = "field_match ''transfer-encoding'' h_transfer_encoding c h"
    have "part_of ''transfer-encoding'' 1 pre h" using h_matching_transfer_encoding assms(1) by (simp add: name_inv_def)
    note part = field_match_part [OF this, of h_transfer_encoding c, simplified]
    show ?thesis
    proof (cases "header_state ?h = h_transfer_encoding")
      case True
      then have "pre @ [c] = ''transfer-encoding''" using part(1) h_matching_transfer_encoding by auto
      moreover have "same_but_name h (?h\<lparr>uses_transfer_encoding := True\<rparr>)"
        using part(2) by (cases h; cases ?h) (simp add: same_but_name_def)
      ultimately show ?thesis using h_matching_transfer_encoding True
        by (simp add: field_switch_def name_inv_def te_inv_def is_prefix_def)
    next
      case False
      with part match_step h_matching_transfer_encoding show ?thesis by (auto simp: field_switch_def name_inv_def)
    qed
  qed (use assms general in \<open>auto simp: field_switch_def name_inv_def\<close>)
qed

lemma is_prefix_longer: "is_prefix w s \<Longrightarrow> is_prefix w (s @ t)"
proof -
  assume w: "is_prefix w s"
  then have "length w \<le> length s" unfolding is_prefix_def by (metis length_take min.cobounded1)
  with w show "is_prefix w (s @ t)" by (simp add: is_prefix_def)
qed

lemma name_fold_inv:
  "name_inv pre h \<Longrightarrow> token_text t \<Longrightarrow> name_inv (pre @ map TOKEN t) (name_fold t h) \<and> same_but_name h (name_fold t h) \<and>
     te_inv h (pre @ map TOKEN t) (name_fold t h)"
proof (induction t arbitrary: pre h)
  case (Cons c t)
  show ?case
  proof (cases "header_state h = h_general")
    case True
    then show ?thesis by (simp add: name_inv_def te_inv_def)
  next
    case False
    have "TOKEN (CHR '' '') = NUL" by code_simp
    then have "c \<noteq> CHR '' ''" using Cons.prems(2) by (auto simp: token_text_def)
    then obtain h1 where h1: "field_switch c (TOKEN c) h = Some h1" "name_inv (pre @ [TOKEN c]) h1" "same_but_name h h1"
      "te_inv h (pre @ [TOKEN c]) h1" using field_switch_inv [OF Cons.prems(1) False] by blast
    have "te_inv h (pre @ TOKEN c # map TOKEN t) h2" if "te_inv h1 (pre @ TOKEN c # map TOKEN t) h2" for h2
    proof -
      have "is_prefix w (pre @ [TOKEN c]) \<Longrightarrow> is_prefix w (pre @ TOKEN c # map TOKEN t)" for w
        using is_prefix_longer [of w "pre @ [TOKEN c]" "map TOKEN t"] by simp
      with h1(4) that show ?thesis by (auto simp: te_inv_def)
    qed
    with Cons.IH [OF h1(2)] Cons.prems(2) h1 False same_but_name_trans [OF h1(3)] show ?thesis by (auto simp: token_text_def)
  qed
qed (simp add: te_inv_def)

lemma skip_tokens_text:
  "token_text t \<Longrightarrow> has data (Suc p) (t @ [c]) \<Longrightarrow> TOKEN c = NUL \<Longrightarrow> p + length t + 1 < pe \<Longrightarrow>
     skip_tokens data pe p = p + length t"
proof (induction t arbitrary: p)
  case Nil
  then show ?case by (subst skip_tokens.simps) simp
next
  case (Cons d t)
  then have "skip_tokens data pe (Suc p) = Suc p + length t" by (intro Cons.IH) (auto simp: token_text_def)
  with Cons.prems show ?case by (subst skip_tokens.simps) (simp add: token_text_def)
qed

lemma field_loop_text:
  "name_inv pre h \<Longrightarrow> token_text t \<Longrightarrow> has data p (t @ [c]) \<Longrightarrow> TOKEN c = NUL \<Longrightarrow> length t < max_header_size \<Longrightarrow>
     field_loop data p h = Some (p + length t, name_fold t h)"
proof (induction t arbitrary: pre h p)
  case Nil
  then show ?case by (subst field_loop.simps) simp
next
  case (Cons d t)
  then have p: "p < length data" "data ! p = d" "has data (Suc p) (t @ [c])" "TOKEN d \<noteq> NUL" "token_text t"
    by (auto simp: token_text_def)
  show ?case
  proof (cases "header_state h = h_general")
    case True
    have "Suc p + length t < length data" "data ! (Suc p + length t) = c" using has_nth [OF p(3), of "length t"] by (simp_all add: nth_append)
    moreover from this have "skip_tokens data (p + min (length data - p) max_header_size) p = p + length t"
      using p Cons.prems(4,5) by (intro skip_tokens_text) auto
    moreover from calculation have "field_loop data (Suc (p + length t)) h = Some (Suc (p + length t), h)"
      using Cons.prems(4) by (subst field_loop.simps) simp
    ultimately show ?thesis using p True by (subst field_loop.simps) simp
  next
    case False
    have "TOKEN (CHR '' '') = NUL" by code_simp
    then have "d \<noteq> CHR '' ''" using p(4) by auto
    then obtain h1 where h1: "field_switch d (TOKEN d) h = Some h1" "name_inv (pre @ [TOKEN d]) h1"
      using field_switch_inv [OF Cons.prems(1) False] by blast
    with Cons.IH [OF h1(2) p(5,3)] Cons.prems p False show ?thesis by (subst field_loop.simps) simp
  qed
qed

subsection \<open>Header values\<close>

definition value_text :: "string \<Rightarrow> bool" where
  "value_text v \<longleftrightarrow> list_all (\<lambda>c. IS_HEADER_CHAR c \<and> c \<noteq> CR \<and> c \<noteq> LF) v"

lemma general_loop_text:
  "value_text v \<Longrightarrow> has data p (v @ [CR]) \<Longrightarrow> p + length v < pe \<Longrightarrow> general_loop data lenient pe p = Inr (p + length v - 1)"
proof (induction v arbitrary: p)
  case Nil
  then show ?case by (subst general_loop.simps) simp
next
  case (Cons c v)
  with Cons.IH [of "Suc p"] show ?case by (subst general_loop.simps) (auto simp: value_text_def)
qed

lemma value_loop_text:
  assumes "value_text v" "has data p (v @ [CR])" "length v < max_header_size"
  shows "value_loop data p h h_general = Some (V_cr, p + length v, h, h_general)"
proof -
  have fin: "p + length v < length data" "data ! (p + length v) = CR" using has_nth [OF assms(2), of "length v"] by (simp_all add: nth_append)
  then have cr: "value_loop data (p + length v) h h_general = Some (V_cr, p + length v, h, h_general)"
    by (subst value_loop.simps) simp
  show ?thesis
  proof (cases v)
    case Nil
    with cr show ?thesis by simp
  next
    case (Cons c w)
    have "general_loop data (lenient_http_headers h) (p + min (length data - p) max_header_size) p = Inr (p + length v - 1)"
      using assms fin(1) by (intro general_loop_text) auto
    moreover have "p < length data" "data ! p = c" "IS_HEADER_CHAR c" "c \<noteq> CR" "c \<noteq> LF"
      using assms(1,2) Cons by (auto simp: value_text_def)
    moreover have "p + length v - 1 \<noteq> length data" "Suc (p + length v - 1) = p + length v" using fin(1) Cons by simp_all
    ultimately show ?thesis using cr by (subst value_loop.simps) simp
  qed
qed

text \<open>The loop over a value that is looked at, as a fold.\<close>

fun value_fold :: "string \<Rightarrow> http_parser \<Rightarrow> header_states \<Rightarrow> (http_parser \<times> header_states) option" where
  "value_fold [] h hs = Some (h, hs)"
| "value_fold (c # v) h hs = (if hs = h_general then None
     else case value_switch c (LOWER c) h hs of Some (Inr (h1, hs1)) \<Rightarrow> value_fold v h1 hs1 | _ \<Rightarrow> None)"

lemma value_loop_fold:
  "value_text v \<Longrightarrow> has data p (v @ [CR]) \<Longrightarrow> value_fold v h hs = Some (h', hs') \<Longrightarrow>
     value_loop data p h hs = Some (V_cr, p + length v, h', hs')"
proof (induction v arbitrary: p h hs)
  case Nil
  then show ?case by (subst value_loop.simps) simp
next
  case (Cons c v)
  from Cons.prems(3) obtain h1 hs1 where s: "hs \<noteq> h_general" "value_switch c (LOWER c) h hs = Some (Inr (h1, hs1))"
    "value_fold v h1 hs1 = Some (h', hs')" by (auto split: if_splits option.splits sum.splits)
  have "value_loop data (Suc p) h1 hs1 = Some (V_cr, Suc p + length v, h', hs')"
    using Cons.prems s(3) by (intro Cons.IH) (auto simp: value_text_def)
  with Cons.prems(1,2) s(1,2) show ?case by (subst value_loop.simps) (simp add: value_text_def)
qed

text \<open>The largest content length that is accepted; it is five less than the largest number of its width.\<close>

definition length_bound :: nat where
  "length_bound = 18446744073709551609"

definition more_digits :: "nat \<Rightarrow> string \<Rightarrow> nat" where
  "more_digits n w = foldl (\<lambda>v c. 10 * v + digit_val c) n w"

lemma more_digits_simps [simp]:
  "more_digits n [] = n" "more_digits n (c # w) = more_digits (10 * n + digit_val c) w"
  by (simp_all add: more_digits_def)

lemma more_digits_ge: "n \<le> more_digits n w"
proof (induction w arbitrary: n)
  case (Cons c w)
  from Cons.IH [of "10 * n + digit_val c"] show ?case by simp
qed simp

lemma length_guard:
  assumes "n \<le> length_bound"
  shows "(ULLONG_MAX - 10) div 10 < (of_nat n :: u64) \<longleftrightarrow> length_bound < 10 * n"
proof -
  have "(18446744073709551605 :: u64) + 11 = 0" by simp
  then have "(18446744073709551605 :: u64) = - 11" by (simp only: eq_neg_iff_add_eq_0)
  then have max: "ULLONG_MAX - 10 = (18446744073709551605 :: u64)" by (simp add: ULLONG_MAX_def)
  have "unat (of_nat n :: u64) = n" using assms by (simp add: unat_of_nat length_bound_def)
  moreover have "unat ((18446744073709551605 :: u64) div 10) = 1844674407370955160" by (simp add: unat_div)
  ultimately show ?thesis unfolding max by (auto simp: word_less_nat_alt length_bound_def)
qed

lemma length_digit_step:
  assumes "is_digit c" "content_length h = of_nat n" "n \<le> length_bound"
  shows "length_digit c h = (if 10 * n + digit_val c \<le> length_bound
    then Some (Inr (h\<lparr>content_length := of_nat (10 * n + digit_val c)\<rparr>, h_content_length_num))
    else Some (Inl CHPE_INVALID_CONTENT_LENGTH))"
proof -
  have c: "c \<noteq> CHR '' ''" "digit_val c < 10" using assms(1) by (auto simp: digit_val_def is_digit_code code_def)
  have "10 * n \<le> length_bound \<longleftrightarrow> 10 * n + digit_val c \<le> length_bound"
    using c(2) unfolding length_bound_def by presburger
  then show ?thesis using assms c(1) length_guard [OF assms(3)] by (auto simp: length_digit_def algebra_simps)
qed

lemma digit_char: "is_digit c \<Longrightarrow> IS_HEADER_CHAR c \<and> c \<notin> {CHR '' '', TAB, CR, LF}"
  by (auto simp: is_digit_code IS_HEADER_CHAR_def code_def)

text \<open>A number is accepted with its value, or refused because it is too large.\<close>

lemma length_value:
  "list_all is_digit w \<Longrightarrow> has data p (w @ [CR]) \<Longrightarrow> content_length h = of_nat n \<Longrightarrow> n \<le> length_bound \<Longrightarrow>
     (if more_digits n w \<le> length_bound
      then value_loop data p h h_content_length_num =
        Some (V_cr, p + length w, h\<lparr>content_length := of_nat (more_digits n w)\<rparr>, h_content_length_num)
      else \<exists>q h'. value_loop data p h h_content_length_num = Some (V_error CHPE_INVALID_CONTENT_LENGTH, q, h', h_content_length_num))"
proof (induction w arbitrary: p h n)
  case Nil
  then have "h\<lparr>content_length := of_nat n\<rparr> = h" by simp
  with Nil show ?case by (subst value_loop.simps) simp
next
  case (Cons c w)
  let ?n = "10 * n + digit_val c"
  have c: "p < length data" "data ! p = c" "has data (Suc p) (w @ [CR])" "is_digit c" "list_all is_digit w" using Cons.prems by simp_all
  note d = length_digit_step [OF c(4) Cons.prems(3,4)] and ch = digit_char [OF c(4)]
  show ?case
  proof (cases "?n \<le> length_bound")
    case True
    let ?h = "h\<lparr>content_length := of_nat ?n\<rparr>"
    have "value_loop data p h h_content_length_num = value_loop data (Suc p) ?h h_content_length_num"
      using c(1,2) ch d True by (subst value_loop.simps) (simp add: value_switch_def)
    with Cons.IH [OF c(5,3) _ True, of ?h] show ?thesis
      by (cases "more_digits ?n w \<le> length_bound") (simp_all del: of_nat_add of_nat_mult)
  next
    case False
    then have "\<not> more_digits n (c # w) \<le> length_bound" using more_digits_ge [of ?n w] by simp
    moreover have "\<exists>q h'. value_loop data p h h_content_length_num = Some (V_error CHPE_INVALID_CONTENT_LENGTH, q, h', h_content_length_num)"
      using c(1,2) ch d False by (subst value_loop.simps) (simp add: value_switch_def)
    ultimately show ?thesis by simp
  qed
qed

text \<open>Header states after a name that mean nothing to the parser.\<close>

definition plain_state :: "header_states \<Rightarrow> bool" where
  "plain_state s \<longleftrightarrow> s \<notin> {h_upgrade, h_transfer_encoding, h_matching_transfer_encoding_token_start, h_content_length,
     h_content_length_ws, h_connection}"

lemmas value_start_defs = step_value_start_def MARK_def to_state_def upd_hp_def Let_def

lemma value_start_plain:
  assumes "plain_state (header_state h)"
  shows "step_value_start data ch (mach h u p n no_marks us) =
    go (mach (h\<lparr>hp_index := 0, header_state := h_general, hp_state := s_header_value\<rparr>) u p n (no_marks(M_header_value := Some p)) us)"
  using assms
  by (cases h; cases "header_state h")
    (simp_all add: plain_state_def value_start_defs)

text \<open>A header that the parser passes on without looking at it.\<close>

definition plain_name :: "string \<Rightarrow> bool" where
  "plain_name f \<longleftrightarrow> f \<noteq> [] \<and> token_text f \<and>
     map TOKEN f \<notin> {''connection'', ''proxy-connection'', ''content-length'', ''upgrade''} \<and>
     \<not> is_prefix ''transfer-encoding'' (map TOKEN f)"

definition plain_value :: "string \<Rightarrow> bool" where
  "plain_value v \<longleftrightarrow> v \<noteq> [] \<and> value_text v \<and> hd v \<noteq> CHR '' '' \<and> hd v \<noteq> TAB"

definition header_text :: "string \<times> string \<Rightarrow> string" where
  "header_text fv = fst fv @ '': '' @ snd fv @ [CR, LF]"

lemma name_fold_plain:
  assumes "plain_name (c # t)" "name_inv [TOKEN c] h" "\<not> uses_transfer_encoding h"
  shows "\<exists>i s. name_fold t h = h\<lparr>hp_index := i, header_state := s\<rparr> \<and> plain_state s"
proof -
  have inv: "name_inv (map TOKEN (c # t)) (name_fold t h)" "same_but_name h (name_fold t h)" "te_inv h (map TOKEN (c # t)) (name_fold t h)"
    using name_fold_inv [OF assms(2), of t] assms(1) by (simp_all add: plain_name_def token_text_def)
  have "\<not> uses_transfer_encoding (name_fold t h)" using inv(3) assms(1,3) by (auto simp: te_inv_def plain_name_def)
  then have "name_fold t h = h\<lparr>hp_index := hp_index (name_fold t h), header_state := header_state (name_fold t h)\<rparr>"
    using inv(2) assms(3) by (cases h; cases "name_fold t h") (simp add: same_but_name_def)
  moreover have "plain_state (header_state (name_fold t h))"
    using inv(1) assms(1)
    by (cases "header_state (name_fold t h)") (auto simp: plain_state_def name_inv_def plain_name_def is_prefix_def)
  ultimately show ?thesis by blast
qed

text \<open>
  The headers a request may have here: those that mean nothing to the parser, the two connection
  options, and the length of the body.
\<close>

datatype header_kind = Plain | Keep_alive | Close | Length nat

definition header_kind :: "string \<times> string \<Rightarrow> header_kind option" where
  "header_kind fv = (case fv of (f, v) \<Rightarrow>
     if f = [] \<or> \<not> token_text f \<or> \<not> plain_value v then None
     else if map TOKEN f \<in> set [''connection'', ''proxy-connection'']
     then (if map LOWER v = ''close'' then Some Close else if map LOWER v = ''keep-alive'' then Some Keep_alive else None)
     else if map TOKEN f = ''content-length''
     then (if list_all is_digit v \<and> digits_val v \<le> length_bound then Some (Length (digits_val v)) else None)
     else if plain_name f then Some Plain else None)"

fun header_effect :: "header_kind \<Rightarrow> http_parser \<Rightarrow> http_parser" where
  "header_effect Plain h = h"
| "header_effect Keep_alive h = h\<lparr>hp_flags := insert F_CONNECTION_KEEP_ALIVE (hp_flags h)\<rparr>"
| "header_effect Close h = h\<lparr>hp_flags := insert F_CONNECTION_CLOSE (hp_flags h)\<rparr>"
| "header_effect (Length n) h = h\<lparr>hp_flags := insert F_CONTENTLENGTH (hp_flags h), content_length := of_nat n\<rparr>"

text \<open>Names that are matched as a word.\<close>

lemma name_fold_word:
  "header_state h = s \<Longrightarrow> (\<And>ch c g. header_state g = s \<Longrightarrow> field_switch ch c g = Some (field_match word found c g)) \<Longrightarrow>
     s \<noteq> h_general \<Longrightarrow> found \<noteq> s \<Longrightarrow> hp_index h + length t + 1 = length word \<Longrightarrow> length word < 32 \<Longrightarrow> t \<noteq> [] \<Longrightarrow>
     map TOKEN t = drop (hp_index h + 1) word \<Longrightarrow>
     name_fold t h = h\<lparr>hp_index := length word - 1, header_state := found\<rparr>"
proof (induction t arbitrary: h)
  case (Cons c t)
  have i: "hp_index h + 1 < length word" using Cons.prems(5) by simp
  then have d: "drop (hp_index h + 1) word = word ! (hp_index h + 1) # drop (hp_index h + 2) word"
    by (simp add: Cons_nth_drop_Suc)
  then have c: "TOKEN c = word ! (hp_index h + 1)" "map TOKEN t = drop (hp_index h + 2) word" using Cons.prems(8) by simp_all
  have at: "at word (hp_index h + 1) = word ! (hp_index h + 1)" "(hp_index h + 1) mod 32 = hp_index h + 1"
    using i Cons.prems(6) by (simp_all add: at_def)
  let ?h = "field_match word found (TOKEN c) h"
  show ?case
  proof (cases "t = []")
    case True
    then have "?h = h\<lparr>hp_index := length word - 1, header_state := found\<rparr>"
      using Cons.prems(5) i at c(1) by (simp add: field_match_def match_word_def Let_def)
    with True Cons.prems(1-3) show ?thesis by simp
  next
    case False
    then have h: "?h = h\<lparr>hp_index := hp_index h + 1, header_state := s\<rparr>"
      using Cons.prems(1,5) i at c(1) by (cases t) (auto simp: field_match_def match_word_def Let_def)
    have "name_fold t ?h = ?h\<lparr>hp_index := length word - 1, header_state := found\<rparr>"
      using Cons.prems False c(2) by (intro Cons.IH) (auto simp: h)
    with Cons.prems(1-3) show ?thesis by (simp add: h)
  qed
qed simp

text \<open>The parser after the first character of a name.\<close>

abbreviation name_begun :: "char \<Rightarrow> http_parser \<Rightarrow> http_parser" where
  "name_begun c h \<equiv> h\<lparr>hp_index := 0, header_state := first_header_state (TOKEN c), hp_state := s_header_field\<rparr>"

lemma name_begun_inv: "name_inv [TOKEN c] (name_begun c h)"
  by (simp add: name_inv_def first_header_state_def part_of_def)

lemma name_connection:
  assumes "map TOKEN (d # t) = ''connection''"
  shows "name_fold t (name_begun d h) = (name_begun d h)\<lparr>hp_index := 9, header_state := h_connection\<rparr>"
proof -
  obtain c1 c2 c3 r where t: "t = c1 # c2 # c3 # r" "TOKEN c1 = CHR ''o''" "TOKEN c2 = CHR ''n''" "TOKEN c3 = CHR ''n''"
    "map TOKEN r = ''ection''" "TOKEN d = CHR ''c''" using assms by (auto simp: map_eq_Cons_conv)
  have "length r = 6" using arg_cong [OF t(5), of length] by simp
  then have "name_fold r (h\<lparr>hp_index := 3, header_state := h_matching_connection, hp_state := s_header_field\<rparr>) =
      (h\<lparr>hp_index := 3, header_state := h_matching_connection, hp_state := s_header_field\<rparr>)\<lparr>hp_index := 9, header_state := h_connection\<rparr>"
    using name_fold_word [of _ h_matching_connection "''connection''" h_connection r] t(5) by (auto simp: field_switch_def)
  with t show ?thesis by (simp add: first_header_state_def field_switch_def field_next_def)
qed

lemma name_content_length:
  assumes "map TOKEN (d # t) = ''content-length''"
  shows "name_fold t (name_begun d h) = (name_begun d h)\<lparr>hp_index := 13, header_state := h_content_length\<rparr>"
proof -
  obtain c1 c2 c3 r where t: "t = c1 # c2 # c3 # r" "TOKEN c1 = CHR ''o''" "TOKEN c2 = CHR ''n''" "TOKEN c3 = CHR ''t''"
    "map TOKEN r = ''ent-length''" "TOKEN d = CHR ''c''" using assms by (auto simp: map_eq_Cons_conv)
  have "length r = 10" using arg_cong [OF t(5), of length] by simp
  then have "name_fold r (h\<lparr>hp_index := 3, header_state := h_matching_content_length, hp_state := s_header_field\<rparr>) =
      (h\<lparr>hp_index := 3, header_state := h_matching_content_length, hp_state := s_header_field\<rparr>)\<lparr>hp_index := 13, header_state := h_content_length\<rparr>"
    using name_fold_word [of _ h_matching_content_length "''content-length''" h_content_length r] t(5) by (auto simp: field_switch_def)
  with t show ?thesis by (simp add: first_header_state_def field_switch_def field_next_def)
qed

lemma name_proxy_connection:
  assumes "map TOKEN (d # t) = ''proxy-connection''"
  shows "name_fold t (name_begun d h) = (name_begun d h)\<lparr>hp_index := 15, header_state := h_connection\<rparr>"
proof -
  have t: "TOKEN d = CHR ''p''" "map TOKEN t = ''roxy-connection''" using assms by auto
  have "length t = 15" using arg_cong [OF t(2), of length] by simp
  then show ?thesis
    using name_fold_word [of "name_begun d h" h_matching_proxy_connection "''proxy-connection''" h_connection t] t
    by (auto simp: field_switch_def first_header_state_def)
qed

text \<open>
  The first character of a value and the loop over the rest, for each kind of header: the parser
  after the value and the flags that the end of the line sets.
\<close>

lemma value_close:
  assumes "map LOWER (c # w) = ''close''" "value_text w" "has data (p + 2) (w @ [CR])"
  shows "LOWER c = CHR ''c''" "value_loop data (p + 2) (h\<lparr>hp_index := 0\<rparr>) h_matching_connection_close =
    Some (V_cr, p + length w + 2, h\<lparr>hp_index := 4\<rparr>, h_connection_close)"
proof -
  obtain a b d e where w: "w = [a, b, d, e]" "LOWER a = CHR ''l''" "LOWER b = CHR ''o''" "LOWER d = CHR ''s''" "LOWER e = CHR ''e''"
    "LOWER c = CHR ''c''" using assms(1) by (auto simp: map_eq_Cons_conv)
  then show "LOWER c = CHR ''c''" by simp
  have "value_fold w (h\<lparr>hp_index := 0\<rparr>) h_matching_connection_close = Some (h\<lparr>hp_index := 4\<rparr>, h_connection_close)"
    using w by (simp add: value_switch_def value_match_def match_word_def at_def)
  from value_loop_fold [OF assms(2,3) this] show "value_loop data (p + 2) (h\<lparr>hp_index := 0\<rparr>) h_matching_connection_close =
    Some (V_cr, p + length w + 2, h\<lparr>hp_index := 4\<rparr>, h_connection_close)" by (simp add: ac_simps)
qed

lemma value_keep_alive:
  assumes "map LOWER (c # w) = ''keep-alive''" "value_text w" "has data (p + 2) (w @ [CR])"
  shows "LOWER c = CHR ''k''" "value_loop data (p + 2) (h\<lparr>hp_index := 0\<rparr>) h_matching_connection_keep_alive =
    Some (V_cr, p + length w + 2, h\<lparr>hp_index := 9\<rparr>, h_connection_keep_alive)"
proof -
  obtain a b d e f g i j k where w: "w = [a, b, d, e, f, g, i, j, k]" "LOWER a = CHR ''e''" "LOWER b = CHR ''e''" "LOWER d = CHR ''p''"
    "LOWER e = CHR ''-''" "LOWER f = CHR ''a''" "LOWER g = CHR ''l''" "LOWER i = CHR ''i''" "LOWER j = CHR ''v''" "LOWER k = CHR ''e''"
    "LOWER c = CHR ''k''" using assms(1) by (auto simp: map_eq_Cons_conv)
  then show "LOWER c = CHR ''k''" by simp
  have "value_fold w (h\<lparr>hp_index := 0\<rparr>) h_matching_connection_keep_alive = Some (h\<lparr>hp_index := 9\<rparr>, h_connection_keep_alive)"
    using w by (simp add: value_switch_def value_match_def match_word_def at_def)
  from value_loop_fold [OF assms(2,3) this] show "value_loop data (p + 2) (h\<lparr>hp_index := 0\<rparr>) h_matching_connection_keep_alive =
    Some (V_cr, p + length w + 2, h\<lparr>hp_index := 9\<rparr>, h_connection_keep_alive)" by (simp add: ac_simps)
qed

text \<open>
  A zero byte passes for a space in the comparison with the lower-case character, and leaves a state
  in which no value may go on.
\<close>

lemma value_nul:
  assumes "header_state h = h_connection"
  shows "step_value_start data NUL (mach h u p n no_marks us) =
    go (mach (h\<lparr>hp_index := 0, hp_state := s_header_value\<rparr>) u p n (no_marks(M_header_value := Some p)) us)"
proof -
  have "LOWER NUL = CHR '' ''" by code_simp
  then show ?thesis using assms by (cases h) (simp add: value_start_defs)
qed

lemma value_connection_start:
  assumes "header_state h = h_connection"
  shows "LOWER c = CHR ''c'' \<Longrightarrow> step_value_start data c (mach h u p n no_marks us) =
      go (mach (h\<lparr>hp_index := 0, header_state := h_matching_connection_close, hp_state := s_header_value\<rparr>) u p n
        (no_marks(M_header_value := Some p)) us)"
    "LOWER c = CHR ''k'' \<Longrightarrow> step_value_start data c (mach h u p n no_marks us) =
      go (mach (h\<lparr>hp_index := 0, header_state := h_matching_connection_keep_alive, hp_state := s_header_value\<rparr>) u p n
        (no_marks(M_header_value := Some p)) us)"
  using assms by (cases h; simp add: value_start_defs)+

lemma value_length_start:
  assumes "header_state h = h_content_length" "is_digit c" "F_CONTENTLENGTH \<notin> hp_flags h"
  shows "step_value_start data c (mach h u p n no_marks us) =
    go (mach (h\<lparr>hp_index := 0, hp_flags := insert F_CONTENTLENGTH (hp_flags h), content_length := of_nat (digit_val c),
        header_state := h_content_length_num, hp_state := s_header_value\<rparr>) u p n (no_marks(M_header_value := Some p)) us)"
  using assms by (cases h) (simp add: value_start_defs)

definition length_once :: "header_kind \<Rightarrow> http_parser \<Rightarrow> bool" where
  "length_once k h \<longleftrightarrow> (\<forall>n. k = Length n \<longrightarrow> F_CONTENTLENGTH \<notin> hp_flags h)"

lemma header_kind_cases:
  assumes "header_kind (f, v) = Some k"
  obtains "k = Plain" "plain_name f" | "k = Close" "map TOKEN f \<in> {''connection'', ''proxy-connection''}" "map LOWER v = ''close''"
    | "k = Keep_alive" "map TOKEN f \<in> {''connection'', ''proxy-connection''}" "map LOWER v = ''keep-alive''"
    | "k = Length (digits_val v)" "map TOKEN f = ''content-length''" "list_all is_digit v" "digits_val v \<le> length_bound"
  using assms that by (auto simp: header_kind_def split: if_splits)

lemma header_kind_texts:
  assumes "header_kind (f, v) = Some k"
  shows "f \<noteq> []" "token_text f" "plain_value v"
  using assms by (auto simp: header_kind_def split: if_splits)

lemma name_connection_state:
  assumes "map TOKEN (d # t) \<in> {''connection'', ''proxy-connection''}"
  obtains i where "name_fold t (name_begun d h) = (name_begun d h)\<lparr>hp_index := i, header_state := h_connection\<rparr>"
  using assms
proof (elim insertE emptyE)
  assume "map TOKEN (d # t) = ''connection''"
  from that [OF name_connection [OF this]] show thesis .
next
  assume "map TOKEN (d # t) = ''proxy-connection''"
  from that [OF name_proxy_connection [OF this]] show thesis .
qed

lemma header_value:
  assumes k: "header_kind (d # t, c # w) = Some k" and h: "\<not> uses_transfer_encoding h" "length_once k h"
    and w: "has data (p + 2) (w @ [CR])" "length w < max_header_size"
  obtains g h' s i where
    "step_value_start data c (mach ((name_fold t (name_begun d h))\<lparr>hp_state := s_header_value_discard_ws\<rparr>) u (p + 1) n no_marks us) =
       go (mach (g\<lparr>hp_state := s_header_value\<rparr>) u (p + 1) n (no_marks(M_header_value := Some (p + 1))) us)"
    "value_loop data (p + 2) (g\<lparr>hp_state := s_header_value\<rparr>) (header_state g) =
       Some (V_cr, p + length w + 2, h'\<lparr>hp_state := s_header_value\<rparr>, s)"
    "http_errno h' = http_errno h"
    "\<forall>x. (finish_header (h'\<lparr>header_state := s\<rparr>))\<lparr>hp_state := x\<rparr> = (header_effect k h)\<lparr>hp_index := i, header_state := s, hp_state := x\<rparr>"
proof -
  have vt: "value_text w" using header_kind_texts(3) [OF k] by (simp add: plain_value_def value_text_def)
  show thesis
  proof (rule header_kind_cases [OF k])
    assume "k = Plain" "plain_name (d # t)"
    then obtain i s where n: "name_fold t (name_begun d h) = (name_begun d h)\<lparr>hp_index := i, header_state := s\<rparr>" "plain_state s"
      using name_fold_plain [of d t "name_begun d h"] name_begun_inv [of d h] h(1) by auto
    show thesis
      by (rule that [of "h\<lparr>hp_index := 0, header_state := h_general\<rparr>" "h\<lparr>hp_index := 0, header_state := h_general\<rparr>" h_general 0])
        (use n value_loop_text [OF vt w] \<open>k = Plain\<close> in \<open>simp_all add: finish_header_def value_start_plain ac_simps\<close>)
  next
    assume close: "k = Close" "map TOKEN (d # t) \<in> {''connection'', ''proxy-connection''}" "map LOWER (c # w) = ''close''"
    obtain i where n: "name_fold t (name_begun d h) = (name_begun d h)\<lparr>hp_index := i, header_state := h_connection\<rparr>"
      using name_connection_state [OF close(2)] .
    show thesis
      by (rule that [of "h\<lparr>hp_index := 0, header_state := h_matching_connection_close\<rparr>"
            "h\<lparr>hp_index := 4, header_state := h_matching_connection_close\<rparr>" h_connection_close 4])
        (use n value_close(1) [OF close(3) vt w(1)] value_close(2) [OF close(3) vt w(1), of "h\<lparr>header_state := h_matching_connection_close, hp_state := s_header_value\<rparr>"]
          close(1) in \<open>simp_all add: finish_header_def value_connection_start\<close>)
  next
    assume ka: "k = Keep_alive" "map TOKEN (d # t) \<in> {''connection'', ''proxy-connection''}" "map LOWER (c # w) = ''keep-alive''"
    obtain i where n: "name_fold t (name_begun d h) = (name_begun d h)\<lparr>hp_index := i, header_state := h_connection\<rparr>"
      using name_connection_state [OF ka(2)] .
    show thesis
      by (rule that [of "h\<lparr>hp_index := 0, header_state := h_matching_connection_keep_alive\<rparr>"
            "h\<lparr>hp_index := 9, header_state := h_matching_connection_keep_alive\<rparr>" h_connection_keep_alive 9])
        (use n value_keep_alive(1) [OF ka(3) vt w(1)] value_keep_alive(2) [OF ka(3) vt w(1), of "h\<lparr>header_state := h_matching_connection_keep_alive, hp_state := s_header_value\<rparr>"]
          ka(1) in \<open>simp_all add: finish_header_def value_connection_start\<close>)
  next
    assume len: "k = Length (digits_val (c # w))" "map TOKEN (d # t) = ''content-length''" "list_all is_digit (c # w)" "digits_val (c # w) \<le> length_bound"
    note n = name_content_length [OF len(2), of h]
    have val: "digits_val (c # w) = more_digits (digit_val c) w" by (simp add: digits_val_def more_digits_def)
    have fl: "F_CONTENTLENGTH \<notin> hp_flags h" using h(2) len(1) by (simp add: length_once_def)
    let ?g = "h\<lparr>hp_index := 0, hp_flags := insert F_CONTENTLENGTH (hp_flags h), content_length := of_nat (digit_val c),
      header_state := h_content_length_num\<rparr>"
    have "digit_val c \<le> length_bound" using more_digits_ge [of "digit_val c" w] len(4) val by simp
    then have vl: "value_loop data (p + 2) (?g\<lparr>hp_state := s_header_value\<rparr>) h_content_length_num =
        Some (V_cr, p + 2 + length w, ?g\<lparr>hp_state := s_header_value, content_length := of_nat (more_digits (digit_val c) w)\<rparr>, h_content_length_num)"
      using length_value [of w data "p + 2" "?g\<lparr>hp_state := s_header_value\<rparr>" "digit_val c"] len(3,4) w(1) by (simp add: val)
    show thesis
      by (rule that [of ?g "?g\<lparr>content_length := of_nat (more_digits (digit_val c) w)\<rparr>" h_content_length_num 0])
        (use n len(1,3) fl vl val in \<open>simp_all add: finish_header_def value_length_start ac_simps\<close>)
  qed
qed

text \<open>A list of headers with at most one length.\<close>

fun known_headers :: "bool \<Rightarrow> (string \<times> string) list \<Rightarrow> bool" where
  "known_headers seen [] \<longleftrightarrow> True"
| "known_headers seen (fv # hs) \<longleftrightarrow> (case header_kind fv of None \<Rightarrow> False
     | Some (Length n) \<Rightarrow> \<not> seen \<and> known_headers True hs | Some k \<Rightarrow> known_headers seen hs)"

definition headers_effect :: "(string \<times> string) list \<Rightarrow> http_parser \<Rightarrow> http_parser" where
  "headers_effect hs h = fold (\<lambda>fv. header_effect (the (header_kind fv))) hs h"

definition headers_text :: "(string \<times> string) list \<Rightarrow> string" where
  "headers_text hs = concat (map header_text hs)"

lemma header_effect_simps [simp]:
  "header_effect k (h\<lparr>hp_index := i\<rparr>) = (header_effect k h)\<lparr>hp_index := i\<rparr>"
  "header_effect k (h\<lparr>header_state := s\<rparr>) = (header_effect k h)\<lparr>header_state := s\<rparr>"
  "header_effect k (h\<lparr>hp_state := x\<rparr>) = (header_effect k h)\<lparr>hp_state := x\<rparr>"
  "http_errno (header_effect k h) = http_errno h" "uses_transfer_encoding (header_effect k h) = uses_transfer_encoding h"
  by (cases h; cases k; simp)+

lemma headers_effect_simps [simp]:
  "headers_effect hs (h\<lparr>hp_index := i\<rparr>) = (headers_effect hs h)\<lparr>hp_index := i\<rparr>"
  "headers_effect hs (h\<lparr>header_state := s\<rparr>) = (headers_effect hs h)\<lparr>header_state := s\<rparr>"
  "headers_effect hs (h\<lparr>hp_state := x\<rparr>) = (headers_effect hs h)\<lparr>hp_state := x\<rparr>"
  "http_errno (headers_effect hs h) = http_errno h" "uses_transfer_encoding (headers_effect hs h) = uses_transfer_encoding h"
  by (induction hs arbitrary: h) (simp_all add: headers_effect_def)

lemma headers_Cons [simp]:
  "headers_effect (fv # hs) h = headers_effect hs (header_effect (the (header_kind fv)) h)"
  "headers_text (fv # hs) = header_text fv @ headers_text hs"
  by (simp_all add: headers_effect_def headers_text_def)

lemma known_headers_Cons:
  assumes "known_headers (F_CONTENTLENGTH \<in> hp_flags h) (fv # hs)"
  obtains k where "header_kind fv = Some k" "length_once k h" "known_headers (F_CONTENTLENGTH \<in> hp_flags (header_effect k h)) hs"
  using assms that by (cases "header_kind fv"; cases "the (header_kind fv)") (auto simp: length_once_def)

text \<open>What follows a header begins with no blank.\<close>

lemma headers_text_start:
  assumes "known_headers seen hs" "has data p (headers_text hs @ [CR])"
  shows "p < length data" "data ! p \<notin> {CHR '' '', TAB}"
proof -
  have tok: "TOKEN (CHR '' '') = NUL" "TOKEN TAB = NUL" by code_simp+
  show "p < length data" "data ! p \<notin> {CHR '' '', TAB}"
  proof (atomize (full), cases hs)
    case (Cons fv r)
    obtain f v where fv: "fv = (f, v)" by (cases fv)
    obtain d t where "f = d # t" "TOKEN d \<noteq> NUL"
      using assms(1) header_kind_texts(1,2) [of f v] by (cases f) (auto simp: Cons fv token_text_def split: option.splits)
    with assms(2) tok show "p < length data \<and> data ! p \<notin> {CHR '' '', TAB}" by (auto simp: Cons fv headers_text_def header_text_def)
  qed (use assms(2) in \<open>simp add: headers_text_def\<close>)
qed

subsection \<open>The version\<close>

text \<open>The version of the protocol to the end of its line.\<close>

lemma version_line:
  assumes "has data p (''HTTP/'' @ [a, CHR ''.'', b, CR, LF])" "is_digit a" "is_digit b" "n + 10 \<le> max_header_size"
  shows "http_loop cb data False (mach (h\<lparr>hp_state := s_req_http_start\<rparr>) u p n mk us) =
    http_loop cb data False (mach (h\<lparr>hp_major := digit_val a, hp_minor := digit_val b, hp_state := s_header_field_start\<rparr>)
      u (p + 10) (n + 10) mk us)"
proof -
  have step: "http_loop cb data False (mach (g\<lparr>hp_state := s\<rparr>) u q m mk us) = http_loop cb data False (mach (g'\<lparr>hp_state := s'\<rparr>) u (q + 1) (m + 1) mk us)"
    if "q < length data" "m < n + 10" "PARSING_HEADER s"
      "dispatch_state cb data (data ! q) (mach (g\<lparr>hp_state := s\<rparr>) u q (m + 1) mk us) = go (mach (g'\<lparr>hp_state := s'\<rparr>) u q (m + 1) mk us)"
    for g g' s s' q m
    using that(2) assms(4) by (intro loop_header [OF that(1) _ _ that(4)]) (use that(3) in simp_all)
  note defs = PARSING_HEADER_def dispatch_state_def step_http_start_def step_expect_def STRICT_CHECK_def step_http_major_def
    step_http_dot_def step_http_minor_def step_http_end_def step_line_almost_done_def to_state_def upd_hp_def
  let ?h1 = "h\<lparr>hp_major := digit_val a\<rparr>" and ?h2 = "h\<lparr>hp_major := digit_val a, hp_minor := digit_val b\<rparr>"
  let ?loop = "\<lambda>g s k. http_loop cb data False (mach (g\<lparr>hp_state := s\<rparr>) u (p + k) (n + k) mk us)"
  have "?loop h s_req_http_start 0 = ?loop h s_req_http_H 1"
    using step [of p n s_req_http_start h s_req_http_H h] assms by (simp add: defs eval_nat_numeral)
  also have "\<dots> = ?loop h s_req_http_HT 2" using step [of "p + 1" "n + 1" s_req_http_H h s_req_http_HT h] assms by (simp add: defs eval_nat_numeral)
  also have "\<dots> = ?loop h s_req_http_HTT 3" using step [of "p + 2" "n + 2" s_req_http_HT h s_req_http_HTT h] assms by (simp add: defs eval_nat_numeral)
  also have "\<dots> = ?loop h s_req_http_HTTP 4" using step [of "p + 3" "n + 3" s_req_http_HTT h s_req_http_HTTP h] assms by (simp add: defs eval_nat_numeral)
  also have "\<dots> = ?loop h s_req_http_major 5" using step [of "p + 4" "n + 4" s_req_http_HTTP h s_req_http_major h] assms by (simp add: defs eval_nat_numeral)
  also have "\<dots> = ?loop ?h1 s_req_http_dot 6" using step [of "p + 5" "n + 5" s_req_http_major h s_req_http_dot ?h1] assms by (simp add: defs eval_nat_numeral)
  also have "\<dots> = ?loop ?h1 s_req_http_minor 7" using step [of "p + 6" "n + 6" s_req_http_dot ?h1 s_req_http_minor ?h1] assms by (simp add: defs eval_nat_numeral)
  also have "\<dots> = ?loop ?h2 s_req_http_end 8" using step [of "p + 7" "n + 7" s_req_http_minor ?h1 s_req_http_end ?h2] assms by (simp add: defs eval_nat_numeral)
  also have "\<dots> = ?loop ?h2 s_req_line_almost_done 9" using step [of "p + 8" "n + 8" s_req_http_end ?h2 s_req_line_almost_done ?h2] assms by (simp add: defs eval_nat_numeral)
  also have "\<dots> = ?loop ?h2 s_header_field_start 10" using step [of "p + 9" "n + 9" s_req_line_almost_done ?h2 s_header_field_start ?h2] assms by (simp add: defs eval_nat_numeral)
  finally show ?thesis by (simp add: eval_nat_numeral)
qed

end
