(* ===== verification/Http_Message.thy ===== *)
theory Http_Message
  imports Http_Text
begin

text \<open>
  The byte-level parser on whole requests. The client of the parser is a locale: what the callbacks
  do to the user's state, and that they leave the parser alone in the middle of a message. Under it
  the text of every request that keeps to the grammar is taken apart into the calls of the callbacks
  that carry its pieces.
\<close>

subsection \<open>Requests\<close>

fun declared_length :: "(string \<times> string) list \<Rightarrow> nat option" where
  "declared_length [] = None"
| "declared_length (fv # hs) = (case header_kind fv of Some (Length n) \<Rightarrow> Some n | _ \<Rightarrow> declared_length hs)"

text \<open>A request as its texts: the method, the url, the two digits of the version, the headers, the body.\<close>

record wire =
  w_method :: nat
  w_url :: string
  w_major :: nat
  w_minor :: nat
  w_headers :: "(string \<times> string) list"
  w_body :: string

definition request_head :: "wire \<Rightarrow> string" where
  "request_head r = method_strings ! w_method r @ '' '' @ w_url r @ '' HTTP/'' @ [chr (48 + w_major r), CHR ''.'', chr (48 + w_minor r), CR, LF] @
     headers_text (w_headers r) @ [CR, LF]"

definition wire_text :: "wire \<Rightarrow> string" where
  "wire_text r = request_head r @ w_body r"

definition path_url :: "string \<Rightarrow> bool" where
  "path_url u \<longleftrightarrow> u \<noteq> [] \<and> hd u = CHR ''/'' \<and> url_text (tl u)"

definition wire_ok :: "wire \<Rightarrow> bool" where
  "wire_ok r \<longleftrightarrow> w_method r < internal_method_count \<and> w_method r \<noteq> method_num Connect \<and> path_url (w_url r) \<and>
     w_major r < 10 \<and> w_minor r < 10 \<and> known_headers False (w_headers r) \<and>
     length (w_body r) = (case declared_length (w_headers r) of None \<Rightarrow> 0 | Some n \<Rightarrow> n)"

text \<open>The parser after the request line and after the headers, up to the states of the header machine.\<close>

definition line_read :: "wire \<Rightarrow> nat \<Rightarrow> http_parser \<Rightarrow> http_parser" where
  "line_read r qs h = h\<lparr>hp_flags := {}, uses_transfer_encoding := False, content_length := ULLONG_MAX, hp_method := w_method r,
     hp_qs_point := qs, hp_major := w_major r, hp_minor := w_minor r\<rparr>"

lemma header_effect_keeps [simp]:
  "hp_method (header_effect k h) = hp_method h" "hp_major (header_effect k h) = hp_major h" "hp_minor (header_effect k h) = hp_minor h"
  "hp_qs_point (header_effect k h) = hp_qs_point h"
  by (cases k; simp)+

lemma headers_effect_keeps [simp]:
  "hp_method (headers_effect hs h) = hp_method h" "hp_major (headers_effect hs h) = hp_major h"
  "hp_minor (headers_effect hs h) = hp_minor h" "hp_qs_point (headers_effect hs h) = hp_qs_point h"
  by (induction hs arbitrary: h) (simp_all add: headers_effect_def)

definition header_flags :: "(string \<times> string) list \<Rightarrow> http_connection_flags set" where
  "header_flags hs = (if Some Keep_alive \<in> header_kind ` set hs then {F_CONNECTION_KEEP_ALIVE} else {}) \<union>
     (if Some Close \<in> header_kind ` set hs then {F_CONNECTION_CLOSE} else {}) \<union>
     (if declared_length hs = None then {} else {F_CONTENTLENGTH})"

lemma headers_effect_flags:
  "known_headers seen hs \<Longrightarrow> hp_flags (headers_effect hs h) = hp_flags h \<union> header_flags hs"
proof (induction hs arbitrary: seen h)
  case (Cons fv hs)
  then obtain k where k: "header_kind fv = Some k" "known_headers (seen \<or> (\<exists>n. k = Length n)) hs"
    by (auto split: option.splits header_kind.splits)
  have "hp_flags (header_effect k h) \<union> header_flags hs = hp_flags h \<union> header_flags (fv # hs)"
    using k(1) by (cases k) (auto simp: header_flags_def)
  with Cons.IH [OF k(2)] k(1) show ?case by simp
qed (simp add: header_flags_def headers_effect_def)

lemma declared_once: "known_headers True hs \<Longrightarrow> declared_length hs = None"
  by (induction hs) (auto split: option.splits header_kind.splits)

lemma declared_bound: "declared_length hs = Some n \<Longrightarrow> n \<le> length_bound"
proof (induction hs)
  case (Cons fv hs)
  then show ?case by (cases fv) (auto split: option.splits header_kind.splits elim: header_kind_cases)
qed simp

lemma headers_effect_length:
  "known_headers seen hs \<Longrightarrow>
     content_length (headers_effect hs h) = (case declared_length hs of None \<Rightarrow> content_length h | Some n \<Rightarrow> of_nat n)"
proof (induction hs arbitrary: seen h)
  case (Cons fv hs)
  then obtain k where k: "header_kind fv = Some k" "known_headers (seen \<or> (\<exists>n. k = Length n)) hs"
    by (auto split: option.splits header_kind.splits)
  from Cons.IH [OF k(2), of "header_effect k h"] k declared_once [of hs] show ?case by (cases k) (auto split: option.split)
qed (simp add: headers_effect_def)

definition line_text :: "wire \<Rightarrow> string" where
  "line_text r = method_strings ! w_method r @ '' '' @ w_url r @ '' HTTP/'' @ [chr (48 + w_major r), CHR ''.'', chr (48 + w_minor r), CR, LF]"

definition url_start :: "wire \<Rightarrow> nat \<Rightarrow> nat" where
  "url_start r p = p + length (method_strings ! w_method r) + 1"

text \<open>The parser between two messages.\<close>

definition waiting :: "http_parser \<Rightarrow> bool" where
  "waiting h \<longleftrightarrow> hp_state h = s_start_req \<and> http_errno h = CHPE_OK \<and> hp_qs_point h = 0"

lemma method_name_parts:
  assumes "meth < internal_method_count"
  obtains c cs f where "method_strings ! meth = c # cs" "IS_ALPHA c" "c \<noteq> CR" "c \<noteq> LF" "length cs < 30" "first_method c = Some f"
    "method_scan (method_num f) 1 cs = Some meth"
proof -
  have "\<not> IS_ALPHA CR" "\<not> IS_ALPHA LF" by code_simp+
  then show thesis using methods_found [OF assms] that by (auto simp: method_found_def split: list.splits option.splits)
qed

lemma notify_changed:
  assumes "cb ev h u = Some (Inr (h', u', 0))" "http_errno h = CHPE_OK" "http_errno h' = CHPE_OK"
  shows "CALLBACK_NOTIFY_RET cb ev er (mach h u p n mk us) k = k (mach h' u' p n mk us)"
  using assms by (simp add: CALLBACK_NOTIFY_RET_def assertion_def then_do_def)

text \<open>The parser at the end of the headers of a message that is not chunked, needs no upgrade and has its body counted.\<close>

definition plain_head :: "http_parser \<Rightarrow> bool" where
  "plain_head g \<longleftrightarrow> http_errno g = CHPE_OK \<and> \<not> uses_transfer_encoding g \<and> hp_method g \<noteq> method_num Connect \<and>
     hp_flags g \<subseteq> {F_CONNECTION_KEEP_ALIVE, F_CONNECTION_CLOSE, F_CONTENTLENGTH}"

lemma plain_headD:
  assumes "plain_head g"
  shows "http_errno g = CHPE_OK" "\<not> uses_transfer_encoding g" "hp_method g \<noteq> method_num Connect" "F_TRAILING \<notin> hp_flags g"
    "F_UPGRADE \<notin> hp_flags g" "F_SKIPBODY \<notin> hp_flags g" "F_CHUNKED \<notin> hp_flags g"
  using assms by (auto simp: plain_head_def)

lemma nread_of_0 [simp]: "nread_of 0 = 0"
  by (simp add: nread_of_def)

subsection \<open>The client of the parser\<close>

locale parser_client =
  fixes cb :: "'u callbacks"
    and on_meth :: "nat \<Rightarrow> 'u \<Rightarrow> 'u"
    and on_path :: "string \<Rightarrow> nat \<Rightarrow> 'u \<Rightarrow> 'u"
    and taken :: "string \<Rightarrow> nat \<Rightarrow> 'u \<Rightarrow> bool"
    and on_field :: "string \<Rightarrow> 'u \<Rightarrow> 'u"
    and on_val :: "string \<Rightarrow> 'u \<Rightarrow> 'u"
    and on_head :: "nat \<Rightarrow> nat \<Rightarrow> http_connection_flags set \<Rightarrow> bool \<Rightarrow> 'u \<Rightarrow> 'u"
    and on_bdy :: "string \<Rightarrow> 'u \<Rightarrow> 'u"
    and on_end :: "'u \<Rightarrow> 'u result option"
    and calm :: "'u \<Rightarrow> bool"
    and mid :: "'u \<Rightarrow> bool"
    and ready :: "'u \<Rightarrow> bool"
  assumes begin_quiet: "calm u \<Longrightarrow> cb CB_message_begin h u = Some (Inr (h, u, 0))"
    and method_quiet: "calm u \<Longrightarrow> cb CB_method h u = Some (Inr (h, on_meth (hp_method h) u, 0))"
    and method_mid: "calm u \<Longrightarrow> mid (on_meth meth u)"
    and mid_calm: "mid u \<Longrightarrow> calm u"
    and method_last: "on_meth a (on_meth b u) = on_meth a u"
    and url_quiet: "mid u \<Longrightarrow> taken t (hp_qs_point h) u \<Longrightarrow> cb (CB_url t) h u = Some (Inr (h, on_path t (hp_qs_point h) u, 0))"
    and url_mid: "mid u \<Longrightarrow> taken t q u \<Longrightarrow> mid (on_path t q u)"
    and field_quiet: "mid u \<Longrightarrow> cb (CB_header_field t) h u = Some (Inr (h, on_field t u, 0))"
    and field_mid: "mid u \<Longrightarrow> mid (on_field t u)"
    and value_quiet: "mid u \<Longrightarrow> cb (CB_header_value t) h u = Some (Inr (h, on_val t u, 0))"
    and value_mid: "mid u \<Longrightarrow> mid (on_val t u)"
    and head_quiet: "mid u \<Longrightarrow> cb CB_headers_complete h u =
        Some (Inr (h, on_head (hp_major h) (hp_minor h) (hp_flags h) (hp_upgrade h) u, 0))"
    and head_mid: "mid u \<Longrightarrow> mid (on_head a b f g u)"
    and body_quiet: "mid u \<Longrightarrow> cb (CB_body t) h u = Some (Inr (h, on_bdy t u, 0))"
    and body_mid: "mid u \<Longrightarrow> mid (on_bdy t u)"
    and ready_calm: "ready u \<Longrightarrow> calm u"
    and end_ready: "mid u \<Longrightarrow> on_end u = Some (Inr u') \<Longrightarrow> ready u' \<Longrightarrow>
        cb CB_message_complete h u = Some (Inr (h\<lparr>hp_qs_point := 0, hp_state := s_start_req\<rparr>, u', 0))"
begin

lemma method_step:
  assumes "next_method (hp_method h) (hp_index h) ch = Some new" "ch \<noteq> NUL" "ch \<noteq> CHR '' ''"
    "hp_state h = s_req_method" "http_errno h = CHPE_OK" "hp_index h < 31" "calm u"
  shows "dispatch_state cb data ch (mach h u p n mk us) =
    go (mach (h\<lparr>hp_method := new, hp_index := hp_index h + 1\<rparr>) (on_meth new u) p n mk us)"
proof -
  have "CALLBACK_NOTIFY_RET cb CB_method p (mach (h\<lparr>hp_method := new\<rparr>) u p n mk us) k =
      k (mach (h\<lparr>hp_method := new\<rparr>) (on_meth new u) p n mk us)" for k
    using method_quiet [OF assms(7), of "h\<lparr>hp_method := new\<rparr>"] assms(5) by (intro notify_quiet) simp_all
  with assms show ?thesis by (simp add: dispatch_state_def step_req_method_def upd_hp_def Let_def)
qed

lemma method_end:
  assumes "at (method_strings ! hp_method h) (hp_index h) = NUL"
    "hp_state h = s_req_method" "http_errno h = CHPE_OK" "hp_index h < 31" "calm u"
  shows "dispatch_state cb data (CHR '' '') (mach h u p n mk us) =
    go (mach (h\<lparr>hp_state := s_req_spaces_before_url, hp_index := hp_index h + 1\<rparr>) (on_meth (hp_method h) u) p n mk us)"
proof -
  let ?h = "h\<lparr>hp_state := s_req_spaces_before_url\<rparr>"
  have "CALLBACK_NOTIFY_RET cb CB_method p (mach ?h u p n mk us) k = k (mach ?h (on_meth (hp_method h) u) p n mk us)" for k
    using method_quiet [OF assms(5), of ?h] assms(3) by (intro notify_quiet) simp_all
  with assms show ?thesis by (simp add: dispatch_state_def step_req_method_def upd_hp_def to_state_def Let_def)
qed

lemma method_loop:
  "method_scan (hp_method h) (hp_index h) t = Some meth \<Longrightarrow> has data p (t @ '' '') \<Longrightarrow>
   at (method_strings ! meth) (hp_index h + length t) = NUL \<Longrightarrow> hp_state h = s_req_method \<Longrightarrow> http_errno h = CHPE_OK \<Longrightarrow>
   hp_index h + length t < 31 \<Longrightarrow> n + length t + 1 \<le> max_header_size \<Longrightarrow> calm u \<Longrightarrow>
   \<exists>i. http_loop cb data False (mach h u p n mk us) = http_loop cb data False
     (mach (h\<lparr>hp_method := meth, hp_state := s_req_spaces_before_url, hp_index := i\<rparr>) (on_meth meth u)
       (p + length t + 1) (n + length t + 1) mk us)"
proof (induction t arbitrary: h p n u)
  case Nil
  then have d: "dispatch_state cb data (data ! p) (mach h u p (n + 1) mk us) =
      go (mach (h\<lparr>hp_state := s_req_spaces_before_url, hp_index := hp_index h + 1\<rparr>) (on_meth meth u) p (n + 1) mk us)"
    using method_end [of h u data p "n + 1" mk us] by simp
  have meth: "meth = hp_method h" using Nil.prems(1) by simp
  show ?case using Nil.prems loop_header [OF _ _ _ d] unfolding meth
    by (intro exI [of _ "hp_index h + 1"]) (simp add: PARSING_HEADER_def)
next
  case (Cons c t)
  then obtain new where new: "next_method (hp_method h) (hp_index h) c = Some new" "c \<noteq> NUL" "c \<noteq> CHR '' ''"
    "method_scan new (hp_index h + 1) t = Some meth" by (auto split: if_splits option.splits)
  let ?h = "h\<lparr>hp_method := new, hp_index := hp_index h + 1\<rparr>"
  have d: "dispatch_state cb data (data ! p) (mach h u p (n + 1) mk us) = go (mach ?h (on_meth new u) p (n + 1) mk us)"
    using method_step [OF new(1-3), of u data p "n + 1" mk us] Cons.prems by simp
  have "http_loop cb data False (mach h u p n mk us) = http_loop cb data False (mach ?h (on_meth new u) (p + 1) (n + 1) mk us)"
    using loop_header [OF _ _ _ d] Cons.prems by (simp add: PARSING_HEADER_def)
  moreover have "calm (on_meth new u)" using Cons.prems(8) method_mid mid_calm by blast
  ultimately show ?case
    using Cons.IH [of ?h "p + 1" "n + 1" "on_meth new u"] new(4) Cons.prems by (auto simp: method_last)
qed

text \<open>A name up to its colon.\<close>

lemma name_line:
  assumes h: "http_errno h = CHPE_OK" "mid u"
    and f: "token_text (c # t)" "has data p ((c # t) @ '':'')" "n + length t + 2 \<le> max_header_size"
  shows "http_loop cb data True (mach (h\<lparr>hp_state := s_header_field_start\<rparr>) u p (n + 1) no_marks us) =
    http_loop cb data False (mach ((name_fold t (name_begun c h))\<lparr>hp_state := s_header_value_discard_ws\<rparr>) (on_field (c # t) u)
      (p + length t + 2) (n + length t + 2) no_marks us)"
proof -
  let ?h1 = "name_begun c h"
  let ?h2 = "(name_fold t ?h1)\<lparr>hp_state := s_header_value_discard_ws\<rparr>"
  let ?mk = "no_marks(M_header_field := Some p)" and ?e = "p + length t + 1" and ?k = "n + length t + 2"
  have tok: "TOKEN CR = NUL" "TOKEN LF = NUL" "TOKEN (CHR '':'') = NUL" by code_simp+
  have c: "TOKEN c \<noteq> NUL" "c \<noteq> CR" "c \<noteq> LF" "data ! p = c" "token_text t" using f(1,2) tok by (auto simp: token_text_def)
  note inv = name_begun_inv [of c h]
  have start: "dispatch_state cb data (data ! p) (mach (h\<lparr>hp_state := s_header_field_start\<rparr>) u p (n + 1) no_marks us) =
      go (mach ?h1 u p (n + 1) ?mk us)"
    using c by (simp add: dispatch_state_def step_field_start_def MARK_def to_state_def upd_hp_def Let_def)
  have tl: "has data (p + 1) (t @ '':'')" using f(2) by simp
  have fl: "field_loop data (p + 1) ?h1 = Some (?e, name_fold t ?h1)"
    using field_loop_text [OF inv c(5) tl tok(3)] f(3) by simp
  have colon: "?e < length data" "data ! ?e = CHR '':''" using has_nth [OF tl, of "length t"] by (simp_all add: nth_append)
  have same: "same_but_name ?h1 (name_fold t ?h1)" using name_fold_inv [OF inv c(5)] by blast
  have ok: "http_errno ?h2 = CHPE_OK" using same h(1) by (cases "name_fold t ?h1") (auto simp: same_but_name_def)
  have "has data p (c # t)" using f(2) unfolding has_append by blast
  then have slice: "take (?e - p) (drop p data) = c # t" by (simp add: has_def del: has_Cons)
  have cbk: "CALLBACK_DATA_RET cb data M_header_field ?e (?e + 1) (mach ?h2 u ?e ?k ?mk us) go =
      go (mach ?h2 (on_field (c # t) u) ?e ?k (?mk(M_header_field := None)) us)"
    using field_quiet [OF h(2), of "c # t" ?h2] slice ok by (intro data_quiet [where a = p]) simp_all
  have count: "COUNT_HEADER_SIZE (length t) (mach (name_fold t ?h1) u ?e (n + 2) ?mk us) k = k (mach (name_fold t ?h1) u ?e ?k ?mk us)" for k
    using count_header [of "n + 2" "length t" "name_fold t ?h1" u ?e ?mk us k] f(3) by (simp add: add.commute add.left_commute)
  have field: "dispatch_state cb data (data ! (p + 1)) (mach ?h1 u (p + 1) (n + 2) ?mk us) =
      go (mach ?h2 (on_field (c # t) u) ?e ?k (?mk(M_header_field := None)) us)"
    using fl colon count cbk by (simp add: dispatch_state_def step_field_def to_state_def upd_hp_def)
  have "http_loop cb data True (mach (h\<lparr>hp_state := s_header_field_start\<rparr>) u p (n + 1) no_marks us) =
      http_loop cb data False (mach ?h1 u (p + 1) (n + 1) ?mk us)" using loop_next [OF start] .
  also have "\<dots> = http_loop cb data False (mach ?h2 (on_field (c # t) u) (?e + 1) ?k (?mk(M_header_field := None)) us)"
    using loop_header [of "p + 1" data ?h1 "n + 1" cb u ?mk us] field colon(1) f(3) by (simp add: PARSING_HEADER_def)
  also have "?mk(M_header_field := None) = no_marks" by auto
  finally show ?thesis by simp
qed

text \<open>
  A value from the space before it to the end of its line: \<open>g\<close> is the parser after the first
  character, \<open>h'\<close> and \<open>s\<close> what the loop over the others leaves.
\<close>

lemma value_line:
  assumes h: "http_errno h' = CHPE_OK" "mid u"
    and v: "has data p ('' '' @ (c # w) @ [CR, LF])" "c \<notin> {CHR '' '', TAB, CR, LF}" "n + length w + 4 \<le> max_header_size"
    and start: "step_value_start data c (mach (h\<lparr>hp_state := s_header_value_discard_ws\<rparr>) u (p + 1) (n + 2) no_marks us) =
      go (mach (g\<lparr>hp_state := s_header_value\<rparr>) u (p + 1) (n + 2) (no_marks(M_header_value := Some (p + 1))) us)"
    and vl: "value_loop data (p + 2) (g\<lparr>hp_state := s_header_value\<rparr>) (header_state g) =
      Some (V_cr, p + length w + 2, h'\<lparr>hp_state := s_header_value\<rparr>, s)"
  shows "http_loop cb data False (mach (h\<lparr>hp_state := s_header_value_discard_ws\<rparr>) u p n no_marks us) =
    http_loop cb data False (mach (h'\<lparr>header_state := s, hp_state := s_header_value_lws\<rparr>) (on_val (c # w) u)
      (p + length w + 4) (n + length w + 4) no_marks us)"
proof -
  let ?d = "h\<lparr>hp_state := s_header_value_discard_ws\<rparr>"
  let ?h1 = "g\<lparr>hp_state := s_header_value\<rparr>"
  let ?h2 = "h'\<lparr>header_state := s, hp_state := s_header_almost_done\<rparr>"
  let ?mk = "no_marks(M_header_value := Some (p + 1))" and ?e = "p + length w + 2" and ?k = "n + length w + 3"
  have at: "p < length data" "data ! p = CHR '' ''" "p + 1 < length data" "data ! (p + 1) = c" "has data (p + 2) (w @ [CR, LF])"
    using v(1) by simp_all
  have cr: "?e < length data" "data ! ?e = CR" using has_nth [OF at(5), of "length w"] by (simp_all add: nth_append ac_simps)
  have lf: "?e + 1 < length data" "data ! (?e + 1) = LF"
    using has_nth [OF at(5), of "length w + 1"] by (simp_all add: nth_append ac_simps)
  have "dispatch_state cb data (data ! p) (mach ?d u p (n + 1) no_marks us) = go (mach ?d u p (n + 1) no_marks us)"
    using at(2) by (simp add: dispatch_state_def step_value_discard_ws_def)
  from loop_header [OF at(1) _ _ this] v(3)
  have "http_loop cb data False (mach ?d u p n no_marks us) = http_loop cb data False (mach ?d u (p + 1) (n + 1) no_marks us)"
    by (simp add: PARSING_HEADER_def)
  also have "\<dots> = http_loop cb data False (mach ?h1 u (p + 2) (n + 2) ?mk us)"
  proof -
    have "dispatch_state cb data (data ! (p + 1)) (mach ?d u (p + 1) (n + 2) no_marks us) = go (mach ?h1 u (p + 1) (n + 2) ?mk us)"
      using start at(4) v(2) by (simp add: dispatch_state_def step_value_discard_ws_def)
    from loop_header [OF at(3) _ _ this [unfolded one_add_one [symmetric] add.assoc [symmetric]]] v(3)
    show ?thesis by (simp add: PARSING_HEADER_def)
  qed
  also have "\<dots> = http_loop cb data False (mach ?h2 (on_val (c # w) u) (?e + 1) ?k no_marks us)"
  proof -
    have "has data (p + 1) (c # w)" using v(1) unfolding has_append by simp
    then have slice: "take (?e - (p + 1)) (drop (p + 1) data) = c # w" by (simp add: has_def del: has_Cons)
    have cbk: "CALLBACK_DATA_RET cb data M_header_value ?e (?e + 1) (mach ?h2 u ?e (n + 3) ?mk us) k =
        k (mach ?h2 (on_val (c # w) u) ?e (n + 3) (?mk(M_header_value := None)) us)" for k
      using value_quiet [OF h(2), of "c # w" ?h2] slice h(1) by (intro data_quiet [where a = "p + 1"]) simp_all
    have "COUNT_HEADER_SIZE (length w) (mach ?h2 (on_val (c # w) u) ?e (n + 3) (?mk(M_header_value := None)) us) go =
        go (mach ?h2 (on_val (c # w) u) ?e ?k (?mk(M_header_value := None)) us)"
      using count_header [of "n + 3" "length w" ?h2 "on_val (c # w) u" ?e "?mk(M_header_value := None)" us go] v(3)
      by (simp add: ac_simps)
    then have "dispatch_state cb data (data ! (p + 2)) (mach ?h1 u (p + 2) (n + 2 + 1) ?mk us) =
        go (mach ?h2 (on_val (c # w) u) ?e ?k (?mk(M_header_value := None)) us)"
      using vl cbk by (simp add: dispatch_state_def step_value_def to_state_def upd_hp_def eval_nat_numeral)
    from loop_header [OF _ _ _ this] v(3) cr(1)
    have "http_loop cb data False (mach ?h1 u (p + 2) (n + 2) ?mk us) =
        http_loop cb data False (mach ?h2 (on_val (c # w) u) (?e + 1) ?k (?mk(M_header_value := None)) us)"
      by (simp add: PARSING_HEADER_def)
    also have "?mk(M_header_value := None) = no_marks" by auto
    finally show ?thesis .
  qed
  also have "\<dots> = http_loop cb data False (mach (h'\<lparr>header_state := s, hp_state := s_header_value_lws\<rparr>)
      (on_val (c # w) u) (?e + 1 + 1) (?k + 1) no_marks us)"
  proof -
    have "dispatch_state cb data (data ! (?e + 1)) (mach ?h2 (on_val (c # w) u) (?e + 1) (?k + 1) no_marks us) =
        go (mach (h'\<lparr>header_state := s, hp_state := s_header_value_lws\<rparr>) (on_val (c # w) u) (?e + 1) (?k + 1) no_marks us)"
      using lf(2) by (simp add: dispatch_state_def step_header_almost_done_def to_state_def upd_hp_def)
    from loop_header [OF lf(1) _ _ this] v(3) show ?thesis by (simp add: PARSING_HEADER_def)
  qed
  finally show ?thesis by (simp add: eval_nat_numeral)
qed

text \<open>The start of the next line, which is not a continuation.\<close>

lemma line_end:
  assumes "p < length data" "data ! p \<noteq> CHR '' ''" "data ! p \<noteq> TAB" "n + 1 \<le> max_header_size"
  shows "http_loop cb data False (mach (h\<lparr>hp_state := s_header_value_lws\<rparr>) u p n no_marks us) =
    http_loop cb data True (mach ((finish_header h)\<lparr>hp_state := s_header_field_start\<rparr>) u p (n + 1) no_marks us)"
proof -
  have fin: "(finish_header (h\<lparr>hp_state := s\<rparr>))\<lparr>hp_state := s'\<rparr> = (finish_header h)\<lparr>hp_state := s'\<rparr>" for s s'
    by (cases "header_state h") (simp_all add: finish_header_def)
  have "dispatch_state cb data (data ! p) (mach (h\<lparr>hp_state := s_header_value_lws\<rparr>) u p (n + 1) no_marks us) =
      reexecute (mach ((finish_header h)\<lparr>hp_state := s_header_field_start\<rparr>) u p (n + 1) no_marks us)"
    using assms(2,3) fin by (simp add: dispatch_state_def step_value_lws_def to_state_def upd_hp_def)
  from loop_again [OF this] loop_counted [OF assms(1) _ assms(4), of "h\<lparr>hp_state := s_header_value_lws\<rparr>" cb u no_marks us]
  show ?thesis by (simp add: PARSING_HEADER_def)
qed

lemma header_line:
  assumes h: "http_errno h = CHPE_OK" "\<not> uses_transfer_encoding h" "length_once k h" "mid u"
    and fv: "header_kind (f, v) = Some k" "has data p (header_text (f, v) @ [c])" "c \<notin> {CHR '' '', TAB}"
    and n: "n + length (header_text (f, v)) + 1 \<le> max_header_size"
  obtains i s where "http_loop cb data True (mach (h\<lparr>hp_state := s_header_field_start\<rparr>) u p (n + 1) no_marks us) =
    http_loop cb data True (mach ((header_effect k h)\<lparr>hp_index := i, header_state := s, hp_state := s_header_field_start\<rparr>)
      (on_val v (on_field f u)) (p + length (header_text (f, v))) (n + length (header_text (f, v)) + 1) no_marks us)"
proof -
  obtain d t where f: "f = d # t" using header_kind_texts(1) [OF fv(1)] by (cases f) auto
  obtain a w where v: "v = a # w" "a \<notin> {CHR '' '', TAB, CR, LF}"
    using header_kind_texts(3) [OF fv(1)] by (cases v) (auto simp: plain_value_def value_text_def)
  let ?q = "p + length t + 2" and ?m = "n + length t + 2" and ?l = "p + length (header_text (f, v))" and ?k = "n + length (header_text (f, v))"
  have parts: "has data p ((d # t) @ '':'')" "has data ?q ('' '' @ (a # w) @ [CR, LF])" "?l < length data" "data ! ?l = c"
    using fv(2) by (simp_all add: header_text_def f v has_append ac_simps)
  have wcr: "has data (?q + 2) (w @ [CR])" using parts(2) by (simp add: has_append)
  have len: "length w < max_header_size" using n by (simp add: header_text_def f v)
  obtain g h' s i where val:
    "step_value_start data a (mach ((name_fold t (name_begun d h))\<lparr>hp_state := s_header_value_discard_ws\<rparr>) (on_field f u) (?q + 1) (?m + 2) no_marks us) =
       go (mach (g\<lparr>hp_state := s_header_value\<rparr>) (on_field f u) (?q + 1) (?m + 2) (no_marks(M_header_value := Some (?q + 1))) us)"
    "value_loop data (?q + 2) (g\<lparr>hp_state := s_header_value\<rparr>) (header_state g) =
       Some (V_cr, ?q + length w + 2, h'\<lparr>hp_state := s_header_value\<rparr>, s)"
    "http_errno h' = http_errno h"
    "\<forall>x. (finish_header (h'\<lparr>header_state := s\<rparr>))\<lparr>hp_state := x\<rparr> = (header_effect k h)\<lparr>hp_index := i, header_state := s, hp_state := x\<rparr>"
    using header_value [OF fv(1) [unfolded f v(1)] h(2,3) wcr len, where u = "on_field f u" and n = "?m + 2" and us = us] .
  have tok: "token_text (d # t)" using header_kind_texts(2) [OF fv(1)] by (simp add: f)
  have "http_loop cb data True (mach (h\<lparr>hp_state := s_header_field_start\<rparr>) u p (n + 1) no_marks us) =
      http_loop cb data False (mach ((name_fold t (name_begun d h))\<lparr>hp_state := s_header_value_discard_ws\<rparr>) (on_field f u) ?q ?m no_marks us)"
    using name_line [OF h(1,4) tok parts(1)] n by (simp add: f header_text_def)
  also have "\<dots> = http_loop cb data False (mach (h'\<lparr>header_state := s, hp_state := s_header_value_lws\<rparr>)
      (on_val (a # w) (on_field f u)) (?q + length w + 4) (?m + length w + 4) no_marks us)"
    using val(3) h(1) field_mid [OF h(4)] parts(2) v(2) n val(1,2) by (intro value_line) (simp_all add: f v header_text_def)
  also have "\<dots> = http_loop cb data False (mach (h'\<lparr>header_state := s, hp_state := s_header_value_lws\<rparr>)
      (on_val v (on_field f u)) ?l ?k no_marks us)"
    by (simp add: f v header_text_def eval_nat_numeral ac_simps)
  also have "\<dots> = http_loop cb data True (mach ((header_effect k h)\<lparr>hp_index := i, header_state := s, hp_state := s_header_field_start\<rparr>)
      (on_val v (on_field f u)) ?l (?k + 1) no_marks us)"
    using line_end [of ?l data ?k "h'\<lparr>header_state := s\<rparr>" "on_val v (on_field f u)" us] parts(3,4) fv(3) n val(4) by simp
  finally show thesis by (rule that)
qed

lemma header_lines:
  "http_errno h = CHPE_OK \<Longrightarrow> \<not> uses_transfer_encoding h \<Longrightarrow> mid u \<Longrightarrow> known_headers (F_CONTENTLENGTH \<in> hp_flags h) hs \<Longrightarrow>
   has data p (headers_text hs @ [CR]) \<Longrightarrow> n + length (headers_text hs) + 1 \<le> max_header_size \<Longrightarrow>
   \<exists>i s. http_loop cb data True (mach (h\<lparr>hp_state := s_header_field_start\<rparr>) u p (n + 1) no_marks us) =
     http_loop cb data True (mach ((headers_effect hs h)\<lparr>hp_index := i, header_state := s, hp_state := s_header_field_start\<rparr>)
       (fold (\<lambda>(f, v) a. on_val v (on_field f a)) hs u) (p + length (headers_text hs)) (n + length (headers_text hs) + 1) no_marks us)"
proof (induction hs arbitrary: h u p n)
  case Nil
  have "h\<lparr>hp_index := hp_index h, header_state := header_state h, hp_state := x\<rparr> = h\<lparr>hp_state := x\<rparr>" for x by simp
  then show ?case by (intro exI [of _ "hp_index h"] exI [of _ "header_state h"]) (simp add: headers_effect_def headers_text_def)
next
  case (Cons fv hs)
  obtain f v where fv: "fv = (f, v)" by (cases fv)
  obtain k where k: "header_kind fv = Some k" "length_once k h" "known_headers (F_CONTENTLENGTH \<in> hp_flags (header_effect k h)) hs"
    using known_headers_Cons [OF Cons.prems(4)] .
  let ?t = "header_text (f, v)" and ?u = "on_val v (on_field f u)"
  let ?l = "p + length ?t"
  have rest: "has data ?l (headers_text hs @ [CR])" "has data p ?t" using Cons.prems(5) by (simp_all add: fv has_append ac_simps)
  note start = headers_text_start [OF k(3) rest(1)]
  have line: "has data p (?t @ [data ! ?l])" using rest(2) start(1) by (simp add: has_append)
  have size: "n + length ?t + length (headers_text hs) + 1 \<le> max_header_size" using Cons.prems(6) by (simp add: fv)
  obtain i s where 1: "http_loop cb data True (mach (h\<lparr>hp_state := s_header_field_start\<rparr>) u p (n + 1) no_marks us) =
    http_loop cb data True (mach ((header_effect k h)\<lparr>hp_index := i, header_state := s, hp_state := s_header_field_start\<rparr>)
      ?u ?l (n + length ?t + 1) no_marks us)"
    by (rule header_line [OF Cons.prems(1,2) k(2) Cons.prems(3) k(1) [unfolded fv] line start(2), of n us]) (use size in simp_all)
  let ?h = "(header_effect k h)\<lparr>hp_index := i, header_state := s\<rparr>"
  have "\<exists>i s. http_loop cb data True (mach (?h\<lparr>hp_state := s_header_field_start\<rparr>) ?u ?l (n + length ?t + 1) no_marks us) =
     http_loop cb data True (mach ((headers_effect hs ?h)\<lparr>hp_index := i, header_state := s, hp_state := s_header_field_start\<rparr>)
       (fold (\<lambda>(f, v) a. on_val v (on_field f a)) hs ?u) (?l + length (headers_text hs)) (n + length ?t + length (headers_text hs) + 1) no_marks us)"
    using Cons.prems(1-3) k(3) rest(1) size value_mid field_mid by (intro Cons.IH) simp_all
  with 1 show ?case by (simp add: fv k(1) [unfolded fv] ac_simps)
qed

lemma method_line:
  assumes h: "waiting h" "calm u" and r: "w_method r < internal_method_count"
    and t: "has data p (method_strings ! w_method r @ '' '')" "n + length (method_strings ! w_method r) + 1 \<le> max_header_size"
  obtains i where "http_loop cb data False (mach h u p n no_marks us) = http_loop cb data False
    (mach (h\<lparr>hp_flags := {}, uses_transfer_encoding := False, content_length := ULLONG_MAX, hp_method := w_method r, hp_index := i,
        hp_state := s_req_spaces_before_url\<rparr>) (on_meth (w_method r) u) (url_start r p) (n + length (method_strings ! w_method r) + 1) no_marks us)"
proof -
  obtain c cs f where m: "method_strings ! w_method r = c # cs" "IS_ALPHA c" "c \<noteq> CR" "c \<noteq> LF" "length cs < 30" "first_method c = Some f"
    "method_scan (method_num f) 1 cs = Some (w_method r)" using method_name_parts [OF r] .
  let ?h = "h\<lparr>hp_flags := {}, uses_transfer_encoding := False, content_length := ULLONG_MAX, hp_method := method_num f, hp_index := 1,
    hp_state := s_req_method\<rparr>"
  have at: "p < length data" "data ! p = c" "has data (p + 1) (cs @ '' '')" using t(1) by (simp_all add: m(1))
  have h': "hp_state h = s_start_req" "http_errno h = CHPE_OK" using h(1) by (simp_all add: waiting_def)
  have "CALLBACK_NOTIFY_RET cb CB_message_begin (p + 1) (mach ?h u p (n + 1) no_marks us) go = go (mach ?h u p (n + 1) no_marks us)"
    using begin_quiet [OF h(2)] h'(2) by (intro notify_quiet) simp_all
  then have "dispatch_state cb data (data ! p) (mach h u p (n + 1) no_marks us) = go (mach ?h u p (n + 1) no_marks us)"
    using h'(1) m at(2) by (cases h) (simp add: dispatch_state_def step_start_req_def to_state_def upd_hp_def Let_def)
  from loop_header [OF at(1) _ _ this] h'(1) t(2)
  have "http_loop cb data False (mach h u p n no_marks us) = http_loop cb data False (mach ?h u (p + 1) (n + 1) no_marks us)"
    by (simp add: PARSING_HEADER_def m(1))
  moreover have "at (method_strings ! w_method r) (length (method_strings ! w_method r)) = NUL" by (simp add: at_def)
  then obtain i where "http_loop cb data False (mach ?h u (p + 1) (n + 1) no_marks us) = http_loop cb data False
     (mach (?h\<lparr>hp_method := w_method r, hp_state := s_req_spaces_before_url, hp_index := i\<rparr>) (on_meth (w_method r) u)
       (p + 1 + length cs + 1) (n + 1 + length cs + 1) no_marks us)"
    using method_loop [of ?h cs "w_method r" data "p + 1" "n + 1" u no_marks us] m at(3) h'(2) h(2) t(2) by auto
  moreover have "?h\<lparr>hp_method := w_method r, hp_state := s_req_spaces_before_url, hp_index := i\<rparr> = h\<lparr>hp_flags := {}, uses_transfer_encoding := False,
      content_length := ULLONG_MAX, hp_method := w_method r, hp_index := i, hp_state := s_req_spaces_before_url\<rparr>" by (cases h) simp
  ultimately show thesis by (intro that) (simp add: url_start_def m(1))
qed

lemma request_line:
  assumes h: "waiting h" "calm u" and r: "wire_ok r" and us: "url_origin us (url_start r p) \<le> url_start r p"
    and q: "q = stored_query us (url_start r p) (w_url r)" "taken (w_url r) q (on_meth (w_method r) u)"
    and t: "has data p (line_text r)" "n + length (line_text r) \<le> max_header_size"
  obtains i where "http_loop cb data False (mach h u p n no_marks us) = http_loop cb data False
    (mach ((line_read r q h)\<lparr>hp_index := i, hp_state := s_header_field_start\<rparr>) (on_path (w_url r) q (on_meth (w_method r) u))
      (p + length (line_text r)) (n + length (line_text r)) no_marks (Some (url_origin us (url_start r p))))"
proof -
  obtain t' where url: "w_url r = CHR ''/'' # t'" "url_text t'" using r by (cases "w_url r") (auto simp: wire_ok_def path_url_def)
  let ?m = "method_strings ! w_method r" and ?a = "url_start r p" and ?u = "on_meth (w_method r) u"
  let ?d = "chr (48 + w_major r)" and ?e = "chr (48 + w_minor r)" and ?us = "Some (url_origin us (url_start r p))"
  let ?b = "?a + length t' + 2" and ?k = "n + length ?m + 1 + length t' + 2"
  have parts: "has data p (?m @ '' '')" "has data ?a ((CHR ''/'' # t') @ '' '')" "has data ?b (''HTTP/'' @ [?d, CHR ''.'', ?e, CR, LF])"
    using t(1) by (simp_all add: line_text_def url_start_def url(1) has_append ac_simps)
  have len: "length (line_text r) = length ?m + length t' + 13" by (simp add: line_text_def url(1))
  obtain i where 1: "http_loop cb data False (mach h u p n no_marks us) = http_loop cb data False
    (mach (h\<lparr>hp_flags := {}, uses_transfer_encoding := False, content_length := ULLONG_MAX, hp_method := w_method r, hp_index := i,
        hp_state := s_req_spaces_before_url\<rparr>) ?u ?a (n + length ?m + 1) no_marks us)"
    by (rule method_line [OF h, of r data p n us]) (use r parts(1) t(2) len in \<open>simp_all add: wire_ok_def\<close>)
  let ?h1 = "h\<lparr>hp_flags := {}, uses_transfer_encoding := False, content_length := ULLONG_MAX, hp_method := w_method r, hp_index := i,
        hp_state := s_req_spaces_before_url\<rparr>"
  let ?h2 = "?h1\<lparr>hp_qs_point := q, hp_state := s_req_http_start\<rparr>"
  have mid: "mid ?u" using h(2) by (rule method_mid)
  have cbu: "cb (CB_url (w_url r)) ?h2 ?u = Some (Inr (?h2, on_path (w_url r) q ?u, 0))"
    using url_quiet [OF mid, of "w_url r" ?h2] q(2) by simp
  have 2: "http_loop cb data False (mach ?h1 ?u ?a (n + length ?m + 1) no_marks us) =
      http_loop cb data False (mach ?h2 (on_path (w_url r) q ?u) ?b ?k no_marks ?us)"
    using url_loop [of ?h1 us ?a t' data "n + length ?m + 1" cb ?u "on_path (w_url r) q ?u", folded url(1) q(1)]
      h(1) r us url(2) parts(2) t(2) len cbu by (simp add: waiting_def wire_ok_def url(1) del: has_Cons)
  have "is_digit ?d" "is_digit ?e" "digit_val ?d = w_major r" "digit_val ?e = w_minor r"
    using r by (simp_all add: wire_ok_def is_digit_chr digit_val_chr)
  then have 3: "http_loop cb data False (mach ?h2 (on_path (w_url r) q ?u) ?b ?k no_marks ?us) =
      http_loop cb data False (mach (?h1\<lparr>hp_qs_point := q, hp_major := w_major r, hp_minor := w_minor r, hp_state := s_header_field_start\<rparr>)
        (on_path (w_url r) q ?u) (?b + 10) (?k + 10) no_marks ?us)"
    using version_line [OF parts(3), of ?k cb "?h1\<lparr>hp_qs_point := q\<rparr>" "on_path (w_url r) q ?u" no_marks ?us] t(2) len by simp
  have fin: "?h1\<lparr>hp_qs_point := q, hp_major := w_major r, hp_minor := w_minor r, hp_state := s_header_field_start\<rparr> =
      (line_read r q h)\<lparr>hp_index := i, hp_state := s_header_field_start\<rparr>" by (cases h) (simp add: line_read_def)
  have pos: "?b + 10 = p + length (line_text r)" "?k + 10 = n + length (line_text r)" by (simp_all add: len url_start_def)
  show thesis by (rule that [of i]) (simp only: 1 2 3 fin pos)
qed

lemma head_end:
  assumes g: "plain_head g" "mid u" and t: "has data p [CR, LF]" "n + 2 \<le> max_header_size"
  shows "http_loop cb data True (mach (g\<lparr>hp_state := s_header_field_start\<rparr>) u p (n + 1) no_marks us) =
    http_loop cb data True (mach (g\<lparr>hp_upgrade := False, hp_state := s_headers_done\<rparr>)
      (on_head (hp_major g) (hp_minor g) (hp_flags g) False u) (p + 1) (n + 2) no_marks us)"
proof -
  note g' = plain_headD [OF g(1)]
  let ?g = "g\<lparr>hp_state := s_headers_almost_done\<rparr>" and ?d = "g\<lparr>hp_upgrade := False, hp_state := s_headers_done\<rparr>"
  let ?u = "on_head (hp_major g) (hp_minor g) (hp_flags g) False u"
  have "dispatch_state cb data (data ! p) (mach (g\<lparr>hp_state := s_header_field_start\<rparr>) u p (n + 1) no_marks us) = go (mach ?g u p (n + 1) no_marks us)"
    using t(1) by (simp add: dispatch_state_def step_field_start_def to_state_def upd_hp_def)
  from loop_next [OF this] have "http_loop cb data True (mach (g\<lparr>hp_state := s_header_field_start\<rparr>) u p (n + 1) no_marks us) =
      http_loop cb data False (mach ?g u (p + 1) (n + 1) no_marks us)" .
  also have "\<dots> = http_loop cb data True (mach ?g u (p + 1) (n + 2) no_marks us)"
    using loop_counted [of "p + 1" data ?g "n + 1"] t by (simp add: PARSING_HEADER_def)
  also have "\<dots> = http_loop cb data True (mach ?d ?u (p + 1) (n + 2) no_marks us)"
  proof (rule loop_again)
    have "cb CB_headers_complete ?d u = Some (Inr (?d, ?u, 0))" using head_quiet [OF g(2), of ?d] by simp
    then show "dispatch_state cb data (data ! (p + 1)) (mach ?g u (p + 1) (n + 2) no_marks us) = reexecute (mach ?d ?u (p + 1) (n + 2) no_marks us)"
      using t(1) g' by (simp add: dispatch_state_def step_headers_almost_done_def STRICT_CHECK_def to_state_def upd_hp_def then_do_def Let_def)
  qed
  finally show ?thesis .
qed

text \<open>The parser that the end of a message leaves.\<close>

abbreviation restarted :: "http_parser \<Rightarrow> http_parser" where
  "restarted g \<equiv> g\<lparr>hp_nread := 0, hp_qs_point := 0, hp_state := s_start_req\<rparr>"

lemma no_body_end:
  assumes g: "plain_head g" "\<not> hp_upgrade g" "content_length g \<in> {0, ULLONG_MAX}" and u: "mid u" "on_end u = Some (Inr u')" "ready u'"
    and t: "data ! p = LF"
  shows "http_loop cb data True (mach (g\<lparr>hp_state := s_headers_done\<rparr>) u p n no_marks us) =
    http_loop cb data False (mach (restarted g) u' (p + 1) 0 no_marks us)"
proof (rule loop_next)
  note g' = plain_headD [OF g(1)]
  let ?g = "g\<lparr>hp_nread := 0, hp_state := s_headers_done\<rparr>"
  have "CALLBACK_NOTIFY_RET cb CB_message_complete (p + 1) (mach ?g u p 0 no_marks us) go = go (mach (restarted g) u' p 0 no_marks us)"
    using end_ready [OF u, of ?g] g'(1) by (intro notify_changed) simp_all
  then show "dispatch_state cb data (data ! p) (mach (g\<lparr>hp_state := s_headers_done\<rparr>) u p n no_marks us) = go (mach (restarted g) u' p 0 no_marks us)"
    using t g g' by (auto simp: dispatch_state_def step_headers_done_def STRICT_CHECK_def upd_hp_def Let_def)
qed

lemma body_end:
  assumes g: "plain_head g" "\<not> hp_upgrade g" "content_length g = of_nat (length b)" "b \<noteq> []" "length b \<le> length_bound"
    and u: "mid u" "on_end (on_bdy b u) = Some (Inr u')" "ready u'"
    and t: "data ! p = LF" "has data (p + 1) b" "length data < 2 ^ 64"
  shows "http_loop cb data True (mach (g\<lparr>hp_state := s_headers_done\<rparr>) u p n no_marks us) =
    http_loop cb data False (mach (restarted (g\<lparr>content_length := 0\<rparr>)) u' (p + 1 + length b) 0 no_marks us)"
proof -
  note g' = plain_headD [OF g(1)]
  let ?n = "of_nat (length b) :: u64" and ?e = "p + length b" and ?mk = "no_marks(M_body := Some (p + 1))"
  let ?b = "g\<lparr>hp_nread := 0, hp_state := s_body_identity\<rparr>" and ?m = "g\<lparr>hp_nread := 0, content_length := 0, hp_state := s_message_done\<rparr>"
  have fits: "p + 1 + length b \<le> length data" using has_fits [OF t(2) g(4)] .
  have n: "unat ?n = length b" using g(5) by (simp add: unat_of_nat length_bound_def)
  have "unat ULLONG_MAX = 2 ^ 64 - 1" by (simp add: ULLONG_MAX_def unsigned_minus_1_eq_mask mask_eq_exp_minus_1)
  then have n0: "?n \<noteq> 0" "?n \<noteq> ULLONG_MAX" using n g(4,5) by (auto simp: length_bound_def)
  have "unat (of_nat (length data - (p + 1)) :: u64) = length data - (p + 1)" using t(3) by (simp add: unat_of_nat)
  then have to_read: "min ?n (of_nat (length data - (p + 1))) = ?n" using n fits
    by (intro min_absorb1) (simp add: word_le_nat_alt)
  have "dispatch_state cb data (data ! p) (mach (g\<lparr>hp_state := s_headers_done\<rparr>) u p n no_marks us) = go (mach ?b u p 0 no_marks us)"
    using t(1) g g' n0 by (simp add: dispatch_state_def step_headers_done_def STRICT_CHECK_def upd_hp_def to_state_def Let_def)
  from loop_next [OF this] have "http_loop cb data True (mach (g\<lparr>hp_state := s_headers_done\<rparr>) u p n no_marks us) =
      http_loop cb data False (mach ?b u (p + 1) 0 no_marks us)" .
  also have "\<dots> = http_loop cb data True (mach ?b u (p + 1) 0 no_marks us)"
  proof -
    have "p + 1 < length data" using fits g(4) by (cases b) simp_all
    then show ?thesis by (subst (1 2) http_loop.simps) (simp add: round_def PARSING_HEADER_def)
  qed
  also have "\<dots> = http_loop cb data True (mach ?m (on_bdy b u) ?e 0 (?mk(M_body := None)) us)"
  proof (rule loop_again)
    have "take (?e + 1 - (p + 1)) (drop (p + 1) data) = b" using t(2) by (simp add: has_def)
    then have "CALLBACK_DATA_RET cb data M_body (?e + 1) ?e (mach ?m u ?e 0 ?mk us) reexecute = reexecute (mach ?m (on_bdy b u) ?e 0 (?mk(M_body := None)) us)"
      using body_quiet [OF u(1), of b ?m] g'(1) by (intro data_quiet [where a = "p + 1"]) simp_all
    then show "dispatch_state cb data (data ! (p + 1)) (mach ?b u (p + 1) 0 no_marks us) =
        reexecute (mach ?m (on_bdy b u) ?e 0 (?mk(M_body := None)) us)"
      using g(3,4) n n0 to_read by (simp add: dispatch_state_def step_body_identity_def assertion_def has_length_def take_body_def MARK_def
          upd_hp_def to_state_def Let_def)
  qed
  also have "?mk(M_body := None) = no_marks" by auto
  also have "http_loop cb data True (mach ?m (on_bdy b u) ?e 0 no_marks us) =
      http_loop cb data False (mach (restarted (g\<lparr>content_length := 0\<rparr>)) u' (?e + 1) 0 no_marks us)"
  proof (rule loop_next)
    have r: "?m\<lparr>hp_qs_point := 0, hp_state := s_start_req\<rparr> = restarted (g\<lparr>content_length := 0\<rparr>)" by (cases g) simp
    have "CALLBACK_NOTIFY_RET cb CB_message_complete (?e + 1) (mach ?m (on_bdy b u) ?e 0 no_marks us) go =
        go (mach (restarted (g\<lparr>content_length := 0\<rparr>)) u' ?e 0 no_marks us)"
      using end_ready [OF body_mid [OF u(1)] u(2,3), of ?m, unfolded r] g'(1) by (intro notify_changed) simp_all
    then show "dispatch_state cb data (data ! ?e) (mach ?m (on_bdy b u) ?e 0 no_marks us) =
        go (mach (restarted (g\<lparr>content_length := 0\<rparr>)) u' ?e 0 no_marks us)" by (simp add: dispatch_state_def step_message_done_def)
  qed
  finally show ?thesis by simp
qed

lemma message_end:
  assumes g: "plain_head g" "content_length g = (case l of None \<Rightarrow> ULLONG_MAX | Some k \<Rightarrow> of_nat k)"
    and b: "length b = (case l of None \<Rightarrow> 0 | Some k \<Rightarrow> k)" "length b \<le> length_bound"
    and u: "mid u" "on_end (if b = [] then u else on_bdy b u) = Some (Inr u')" "ready u'"
    and t: "data ! p = LF" "has data (p + 1) b" "length data < 2 ^ 64"
  obtains h' where "waiting h'" "http_loop cb data True (mach (g\<lparr>hp_upgrade := False, hp_state := s_headers_done\<rparr>) u p n no_marks us) =
    http_loop cb data False (mach h' u' (p + 1 + length b) 0 no_marks us)"
proof -
  let ?g = "g\<lparr>hp_upgrade := False\<rparr>"
  have g': "plain_head ?g" "\<not> hp_upgrade ?g" using g(1) by (simp_all add: plain_head_def)
  have ok: "waiting (restarted ?g)" "waiting (restarted (?g\<lparr>content_length := 0\<rparr>))" using g(1) by (simp_all add: waiting_def plain_head_def)
  show thesis
  proof (cases "b = []")
    case True
    then have "content_length ?g \<in> {0, ULLONG_MAX}" using g(2) b(1) by (auto split: option.splits)
    from no_body_end [OF g' this u(1) _ u(3) t(1), of n us] u(2) True ok(1) show thesis by (intro that) simp_all
  next
    case False
    then have "content_length ?g = of_nat (length b)" using g(2) b(1) by (auto split: option.splits)
    from body_end [OF g' this False b(2) u(1) _ u(3) t, of n us] u(2) False ok(2) show thesis by (intro that) simp_all
  qed
qed

text \<open>What a whole request does to the state of the user.\<close>

definition request_taken :: "wire \<Rightarrow> nat \<Rightarrow> 'u \<Rightarrow> 'u" where
  "request_taken r q u =
     (let a = fold (\<lambda>(f, v) a. on_val v (on_field f a)) (w_headers r) (on_path (w_url r) q (on_meth (w_method r) u));
          b = on_head (w_major r) (w_minor r) (header_flags (w_headers r)) False a
      in if w_body r = [] then b else on_bdy (w_body r) b)"

lemma fields_mid: "mid u \<Longrightarrow> mid (fold (\<lambda>(f, v) a. on_val v (on_field f a)) hs u)"
  by (induction hs arbitrary: u) (auto simp: value_mid field_mid)

lemma message_loop:
  assumes h: "waiting h" "calm u" and r: "wire_ok r" and us: "url_origin us (url_start r p) \<le> url_start r p"
    and q: "q = stored_query us (url_start r p) (w_url r)" "taken (w_url r) q (on_meth (w_method r) u)"
    and u': "on_end (request_taken r q u) = Some (Inr u')" "ready u'"
    and t: "has data p (wire_text r)" "n + length (request_head r) \<le> max_header_size" "length data < 2 ^ 64"
  obtains h' where "waiting h'" "http_loop cb data False (mach h u p n no_marks us) = http_loop cb data False
    (mach h' u' (p + length (wire_text r)) 0 no_marks (Some (url_origin us (url_start r p))))"
proof -
  let ?hs = "w_headers r" and ?u1 = "on_path (w_url r) q (on_meth (w_method r) u)" and ?us = "Some (url_origin us (url_start r p))"
  let ?a = "p + length (line_text r)" and ?na = "n + length (line_text r)"
  let ?b = "?a + length (headers_text ?hs)" and ?nb = "?na + length (headers_text ?hs)"
  have head: "request_head r = line_text r @ headers_text ?hs @ [CR, LF]" by (simp add: request_head_def line_text_def)
  have parts: "has data p (line_text r)" "has data ?a (headers_text ?hs @ [CR])" "has data ?b [CR, LF]" "has data (?b + 2) (w_body r)"
    using t(1) by (simp_all add: wire_text_def head has_append ac_simps)
  have size: "n + length (line_text r) + length (headers_text ?hs) + 2 \<le> max_header_size" using t(2) by (simp add: head)
  have mid: "mid ?u1" using url_mid [OF method_mid [OF h(2)] q(2)] .
  obtain i where 1: "http_loop cb data False (mach h u p n no_marks us) = http_loop cb data False
    (mach ((line_read r q h)\<lparr>hp_index := i, hp_state := s_header_field_start\<rparr>) ?u1 ?a ?na no_marks ?us)"
    by (rule request_line [OF h r us q parts(1), of n]) (use size in simp_all)
  have known: "known_headers False ?hs" using r by (simp add: wire_ok_def)
  have lr: "http_errno (line_read r q h) = CHPE_OK" "\<not> uses_transfer_encoding (line_read r q h)" "hp_flags (line_read r q h) = {}"
    "content_length (line_read r q h) = ULLONG_MAX" "hp_method (line_read r q h) = w_method r"
    "hp_major (line_read r q h) = w_major r" "hp_minor (line_read r q h) = w_minor r"
    using h(1) by (simp_all add: line_read_def waiting_def)
  let ?l = "(line_read r q h)\<lparr>hp_index := i\<rparr>" and ?u2 = "fold (\<lambda>(f, v) a. on_val v (on_field f a)) ?hs ?u1"
  have "http_loop cb data False (mach (?l\<lparr>hp_state := s_header_field_start\<rparr>) ?u1 ?a ?na no_marks ?us) =
      http_loop cb data True (mach (?l\<lparr>hp_state := s_header_field_start\<rparr>) ?u1 ?a (?na + 1) no_marks ?us)"
    using headers_text_start(1) [OF known parts(2)] size by (intro loop_counted) (simp_all add: PARSING_HEADER_def)
  moreover obtain j s where "http_loop cb data True (mach (?l\<lparr>hp_state := s_header_field_start\<rparr>) ?u1 ?a (?na + 1) no_marks ?us) =
      http_loop cb data True (mach ((headers_effect ?hs ?l)\<lparr>hp_index := j, header_state := s, hp_state := s_header_field_start\<rparr>)
        ?u2 ?b (?nb + 1) no_marks ?us)"
    using header_lines [of ?l ?u1 ?hs data ?a ?na ?us] lr mid known parts(2) size by auto
  moreover let ?g = "(headers_effect ?hs (line_read r q h))\<lparr>hp_index := j, header_state := s\<rparr>"
  let ?u3 = "on_head (w_major r) (w_minor r) (header_flags ?hs) False ?u2"
  have flags: "hp_flags ?g = header_flags ?hs" using headers_effect_flags [OF known] lr(3) by simp
  have len: "content_length ?g = (case declared_length ?hs of None \<Rightarrow> ULLONG_MAX | Some k \<Rightarrow> of_nat k)"
    using headers_effect_length [OF known, of "line_read r q h"] lr(4) by (simp split: option.split)
  have plain: "plain_head ?g" using lr flags r by (auto simp: plain_head_def wire_ok_def header_flags_def)
  have "http_loop cb data True (mach (?g\<lparr>hp_state := s_header_field_start\<rparr>) ?u2 ?b (?nb + 1) no_marks ?us) =
      http_loop cb data True (mach (?g\<lparr>hp_upgrade := False, hp_state := s_headers_done\<rparr>) ?u3 (?b + 1) (?nb + 2) no_marks ?us)"
    using head_end [OF plain fields_mid [OF mid, of ?hs] parts(3), of ?nb ?us] size flags lr by simp
  moreover obtain h' where "waiting h'" "http_loop cb data True (mach (?g\<lparr>hp_upgrade := False, hp_state := s_headers_done\<rparr>) ?u3 (?b + 1) (?nb + 2) no_marks ?us) =
      http_loop cb data False (mach h' u' (?b + 2 + length (w_body r)) 0 no_marks ?us)"
  proof (rule message_end [OF plain len, of "w_body r" ?u3 u' data "?b + 1" "?nb + 2" ?us])
    show "length (w_body r) = (case declared_length ?hs of None \<Rightarrow> 0 | Some k \<Rightarrow> k)" using r by (simp add: wire_ok_def)
    then show "length (w_body r) \<le> length_bound" using declared_bound [of ?hs] by (simp split: option.splits)
  qed (use head_mid fields_mid [OF mid, of ?hs] u' parts(3,4) t(3) in \<open>simp_all add: request_taken_def Let_def\<close>)
  ultimately show thesis using 1 by (intro that [of h']) (simp_all add: wire_text_def head ac_simps)
qed

text \<open>
  The requests of one buffer, one after the other: the start of the first url stays marked, so that the
  query positions of the later ones count from it.
\<close>

inductive takes :: "nat option \<Rightarrow> nat \<Rightarrow> wire list \<Rightarrow> 'u \<Rightarrow> 'u \<Rightarrow> bool" where
  takes_none: "takes us p [] u u"
| takes_one: "wire_ok r \<Longrightarrow> taken (w_url r) (stored_query us (url_start r p) (w_url r)) (on_meth (w_method r) u) \<Longrightarrow>
    on_end (request_taken r (stored_query us (url_start r p) (w_url r)) u) = Some (Inr u1) \<Longrightarrow> ready u1 \<Longrightarrow>
    takes (Some (url_origin us (url_start r p))) (p + length (wire_text r)) rs u1 u' \<Longrightarrow> takes us p (r # rs) u u'"

lemma messages_loop:
  "takes us p rs u u' \<Longrightarrow> waiting h \<Longrightarrow> calm u \<Longrightarrow> url_origin us p \<le> p \<Longrightarrow>
   has data p (concat (map wire_text rs)) \<Longrightarrow> length data \<le> max_header_size \<Longrightarrow> p + length (concat (map wire_text rs)) = length data \<Longrightarrow>
   \<exists>h' us'. waiting h' \<and> http_loop cb data False (mach h u p 0 no_marks us) = http_loop cb data False (mach h' u' (length data) 0 no_marks us')"
proof (induction arbitrary: h rule: takes.induct)
  case (takes_none us p u)
  then show ?case by auto
next
  case (takes_one r us p u u1 rs u')
  let ?q = "stored_query us (url_start r p) (w_url r)" and ?us = "Some (url_origin us (url_start r p))"
  have tx: "has data p (wire_text r)" "has data (p + length (wire_text r)) (concat (map wire_text rs))"
    using takes_one.prems(4) by (simp_all add: has_append)
  have bounds: "length (request_head r) \<le> max_header_size" "length data < 2 ^ 64" "url_origin us (url_start r p) \<le> url_start r p"
    "url_origin us (url_start r p) \<le> p + length (wire_text r)"
    using takes_one.prems(3,5,6)
    by (auto simp: wire_text_def max_header_size_def url_origin_def url_start_def request_head_def split: option.splits)
  obtain h1 where h1: "waiting h1" "http_loop cb data False (mach h u p 0 no_marks us) =
      http_loop cb data False (mach h1 u1 (p + length (wire_text r)) 0 no_marks ?us)"
    by (rule message_loop [OF takes_one.prems(1,2) takes_one.hyps(1) bounds(3) refl takes_one.hyps(2,3,4) tx(1) _ bounds(2), of 0])
      (use bounds(1) in simp_all)
  from takes_one.IH [OF h1(1) ready_calm [OF takes_one.hyps(4)] _ tx(2) takes_one.prems(5)] bounds(4) takes_one.prems(6) h1(2)
  show ?case by (simp add: url_origin_def)
qed

lemma leftover_nothing:
  "http_errno h = CHPE_OK \<Longrightarrow> leftover cb data (mach h u p n no_marks us) =
     Some (Inr (Return (mach (h\<lparr>hp_nread := nread_of n\<rparr>) u p n no_marks us) (length data)))"
  by (simp add: leftover_def CALLBACK_DATA_RET_def assertion_def upd_hp_def)

theorem buffer_taken:
  assumes "takes None 0 rs u u'" "waiting h" "hp_nread h = 0" "calm u" "length (concat (map wire_text rs)) \<le> max_header_size"
  obtains h' where "waiting h'" "hp_nread h' = 0"
    "http_parser_execute cb (concat (map wire_text rs)) h u = Some (Inr (h', u', length (concat (map wire_text rs))))"
proof -
  let ?data = "concat (map wire_text rs)"
  have h: "http_errno h = CHPE_OK" "hp_state h = s_start_req" using assms(2) by (simp_all add: waiting_def)
  have marks: "initial_marks (hp_state h) = no_marks" using h(2) by (simp add: initial_marks_def fun_eq_iff)
  show thesis
  proof (cases "?data = []")
    case True
    have "rs = []"
    proof (rule ccontr)
      assume "rs \<noteq> []"
      with True show False by (cases rs) (simp_all add: wire_text_def request_head_def)
    qed
    with assms(1) have "u' = u" by (auto elim: takes.cases)
    with h True assms(2,3) show thesis by (intro that [of h]) (simp_all add: http_parser_execute_def Let_def)
  next
    case False
    obtain h1 us where h1: "waiting h1" "http_loop cb ?data False (mach h u 0 0 no_marks None) =
        http_loop cb ?data False (mach h1 u' (length ?data) 0 no_marks us)"
      using messages_loop [OF assms(1,2,4) _ has_whole assms(5)] by (auto simp: url_origin_def)
    then have "http_loop cb ?data False (mach h u 0 0 no_marks None) = Some (Inr (mach (h1\<lparr>hp_nread := 0\<rparr>) u' (length ?data) 0 no_marks us, length ?data))"
      using leftover_nothing [of h1 ?data u' "length ?data" 0 us] by (simp add: waiting_def loop_simps(4))
    with False h marks assms(3) show thesis
      by (intro that [of "h1\<lparr>hp_nread := 0\<rparr>"]) (use h1(1) in \<open>auto simp: http_parser_execute_def then_do_def waiting_def Let_def\<close>)
  qed
qed

text \<open>A connection header whose value begins with a zero byte runs into the assertion.\<close>

lemma nul_in_connection:
  assumes h: "waiting h" "hp_nread h = 0" "calm u" and r: "wire_ok r"
    and q: "taken (w_url r) (stored_query None (url_start r 0) (w_url r)) (on_meth (w_method r) u)"
    and t: "has data 0 (line_text r @ ''Connection:'' @ [NUL, x])" "length (line_text r) + 13 \<le> max_header_size"
    and x: "IS_HEADER_CHAR x" "x \<noteq> CR" "x \<noteq> LF"
  shows "http_parser_execute cb data h u = Some (Inl (UB ''assertion failed''))"
proof -
  let ?n = "length (line_text r)" and ?q = "stored_query None (url_start r 0) (w_url r)" and ?us = "Some (url_origin None (url_start r 0))"
  let ?u = "on_path (w_url r) ?q (on_meth (w_method r) u)" and ?f = "''Connection''" and ?mk = "no_marks(M_header_value := Some (?n + 11))"
  have parts: "has data 0 (line_text r)" "has data ?n (''Connection'' @ '':'')" "has data (?n + 11) [NUL, x]"
    using t(1) unfolding has_append by (simp_all add: has_append [symmetric] eval_nat_numeral)
  obtain i where 1: "http_loop cb data False (mach h u 0 0 no_marks None) = http_loop cb data False
    (mach ((line_read r ?q h)\<lparr>hp_index := i, hp_state := s_header_field_start\<rparr>) ?u ?n ?n no_marks ?us)"
    by (rule request_line [OF h(1,3) r _ refl q parts(1), of 0]) (use t(2) in \<open>simp_all add: url_origin_def\<close>)
  let ?l = "(line_read r ?q h)\<lparr>hp_index := i\<rparr>"
  let ?g = "(name_begun (CHR ''C'') ?l)\<lparr>hp_index := 9, header_state := h_connection\<rparr>"
  have mid: "mid ?u" using url_mid [OF method_mid [OF h(3)] q] .
  have l: "http_errno ?l = CHPE_OK" using h(1) by (simp add: line_read_def waiting_def)
  have "http_loop cb data False (mach (?l\<lparr>hp_state := s_header_field_start\<rparr>) ?u ?n ?n no_marks ?us) =
      http_loop cb data True (mach (?l\<lparr>hp_state := s_header_field_start\<rparr>) ?u ?n (?n + 1) no_marks ?us)"
    using parts(2) t(2) by (intro loop_counted) (simp_all add: PARSING_HEADER_def)
  also have "\<dots> = http_loop cb data False (mach ((name_fold ''onnection'' (name_begun (CHR ''C'') ?l))\<lparr>hp_state := s_header_value_discard_ws\<rparr>)
      (on_field ?f ?u) (?n + length ''onnection'' + 2) (?n + length ''onnection'' + 2) no_marks ?us)"
  proof (rule name_line [OF l mid])
    show "token_text ''Connection''" by code_simp
  qed (use parts(2) t(2) in simp_all)
  also have "name_fold ''onnection'' (name_begun (CHR ''C'') ?l) = ?g"
    by (rule name_connection) code_simp
  finally have 2: "http_loop cb data False (mach (?l\<lparr>hp_state := s_header_field_start\<rparr>) ?u ?n ?n no_marks ?us) =
      http_loop cb data False (mach (?g\<lparr>hp_state := s_header_value_discard_ws\<rparr>) (on_field ?f ?u) (?n + 11) (?n + 11) no_marks ?us)"
    by (simp add: eval_nat_numeral)
  let ?g1 = "?g\<lparr>hp_index := 0, hp_state := s_header_value\<rparr>"
  have "dispatch_state cb data (data ! (?n + 11)) (mach (?g\<lparr>hp_state := s_header_value_discard_ws\<rparr>) (on_field ?f ?u) (?n + 11) (?n + 11 + 1) no_marks ?us) =
      go (mach ?g1 (on_field ?f ?u) (?n + 11) (?n + 12) ?mk ?us)"
    using parts(3) value_nul [of "?g\<lparr>hp_state := s_header_value_discard_ws\<rparr>" data] by (simp add: dispatch_state_def step_value_discard_ws_def ac_simps)
  from loop_header [OF _ _ _ this]
  have 3: "http_loop cb data False (mach (?g\<lparr>hp_state := s_header_value_discard_ws\<rparr>) (on_field ?f ?u) (?n + 11) (?n + 11) no_marks ?us) =
      http_loop cb data False (mach ?g1 (on_field ?f ?u) (?n + 12) (?n + 12) ?mk ?us)"
    using parts(3) t(2) by (simp add: PARSING_HEADER_def ac_simps)
  have "value_loop data (?n + 12) ?g1 h_connection = None"
    using parts(3) x by (subst value_loop.simps) (simp add: value_switch_def ac_simps)
  then have "round cb data False (mach ?g1 (on_field ?f ?u) (?n + 12) (?n + 12) ?mk ?us) = Some (Inl (UB ''assertion failed''))"
    using t(2) by (simp add: round_header PARSING_HEADER_def dispatch_state_def step_value_def assertion_def)
  then have "http_loop cb data False (mach ?g1 (on_field ?f ?u) (?n + 12) (?n + 12) ?mk ?us) = Some (Inl (UB ''assertion failed''))"
    using parts(3) by (subst http_loop.simps) (simp add: ac_simps)
  moreover have "initial_marks (hp_state h) = no_marks" using h(1) by (simp add: waiting_def initial_marks_def fun_eq_iff)
  moreover have "data \<noteq> []" using parts(3) by auto
  ultimately show ?thesis using 1 2 3 h(1,2) by (simp add: http_parser_execute_def then_do_def waiting_def Let_def)
qed

end

end
