(* ===== verification/Http_Returns.thy ===== *)
theory Http_Returns
  imports Http_Parser
begin

text \<open>
  The loop of the byte-level parser comes to an end: every round that is not the last one of its
  byte moves to a state of a lower rank, every other round moves on in the buffer. The callbacks are
  a locale: they return, and they leave the state of the parser or send it back to the start.
\<close>

subsection \<open>Rounds that make advances\<close>

text \<open>The states that may ask for another round on the same byte, and how many are still possible.\<close>

fun rank :: "state \<Rightarrow> nat" where
  "rank s_header_value_lws = 4"
| "rank s_header_value_discard_lws = 4"
| "rank s_header_field_start = 3"
| "rank s_headers_almost_done = 2"
| "rank s_headers_done = 1"
| "rank s_header_value = 1"
| "rank s_body_identity = 1"
| "rank _ = 0"

definition advances :: "string \<Rightarrow> 'u machine \<Rightarrow> 'u run \<Rightarrow> bool" where
  "advances data m r \<longleftrightarrow> (case r of
     None \<Rightarrow> False
   | Some (Inr (Next m1)) \<Rightarrow> pos m \<le> pos m1
   | Some (Inr (Reexecute m1)) \<Rightarrow> pos m \<le> pos m1 \<and> pos m1 < length data \<and> rank (hp_state (hp m1)) < rank (hp_state (hp m))
   | _ \<Rightarrow> True)"

lemma advances_simps [simp]:
  "advances data m (go m1) \<longleftrightarrow> pos m \<le> pos m1"
  "advances data m (reexecute m1) \<longleftrightarrow> pos m \<le> pos m1 \<and> pos m1 < length data \<and> rank (hp_state (hp m1)) < rank (hp_state (hp m))"
  "advances data m (goto_error e m1)" "advances data m (Some (Inl x))" "advances data m (Some (Inr (Return m1 n)))"
  "\<not> advances data m None"
  by (simp_all add: advances_def go_def reexecute_def goto_error_def)

lemma advances_check [simp]:
  "advances data m (STRICT_CHECK b m1 r) \<longleftrightarrow> b \<or> advances data m r"
  "advances data m (assertion b r) \<longleftrightarrow> (b \<longrightarrow> advances data m r)"
  "advances data m (chunked m1 r) \<longleftrightarrow> (F_CHUNKED \<in> hp_flags (hp m1) \<longrightarrow> advances data m r)"
  by (simp_all add: STRICT_CHECK_def assertion_def chunked_def)

lemma advances_count:
  "(\<And>m2. pos m2 = pos m1 \<Longrightarrow> hp m2 = hp m1 \<Longrightarrow> advances data m (k m2)) \<Longrightarrow> advances data m (COUNT_HEADER_SIZE v m1 k)"
  by (simp add: COUNT_HEADER_SIZE_def Let_def)

lemma machine_simps [simp]:
  "pos (upd_hp f m) = pos m" "hp (upd_hp f m) = f (hp m)" "pos (to_state s m) = pos m" "hp_state (hp (to_state s m)) = s"
  "pos (MARK k m) = pos m" "hp (MARK k m) = hp m" "pos (SET_ERRNO e m) = pos m" "hp_state (hp (SET_ERRNO e m)) = hp_state (hp m)"
  by (simp_all add: upd_hp_def to_state_def MARK_def SET_ERRNO_def)

subsection \<open>The loops over a header\<close>

lemma skip_tokens_less: "p < pe \<Longrightarrow> skip_tokens data pe p < pe"
  by (induction data pe p rule: skip_tokens.induct) (subst skip_tokens.simps, simp)

lemma general_loop_less: "general_loop data lenient pe p = Inl q \<Longrightarrow> q < pe"
  by (induction data lenient pe p rule: general_loop.induct) (subst (asm) (2) general_loop.simps, auto split: if_splits)

lemma general_loop_from: "general_loop data lenient pe p = Inl q \<Longrightarrow> p \<le> q"
  by (induction data lenient pe p rule: general_loop.induct) (subst (asm) (2) general_loop.simps, fastforce split: if_splits)

lemma general_loop_le: "general_loop data lenient pe p = Inr q \<Longrightarrow> p \<le> pe \<Longrightarrow> q \<le> pe"
  by (induction data lenient pe p rule: general_loop.induct) (subst (asm) (2) general_loop.simps, auto split: if_splits)

text \<open>
  Both loops keep what every character keeps, be it by the switch of the state or by the inner loop
  that skips to a later character.
\<close>

lemma field_loop_rule:
  assumes step: "\<And>p h h1. J p h \<Longrightarrow> p < length data \<Longrightarrow> field_switch (data ! p) (TOKEN (data ! p)) h = Some h1 \<Longrightarrow> J (p + 1) h1"
    and skip: "\<And>p q h. J p h \<Longrightarrow> p \<le> q \<Longrightarrow> q < length data \<Longrightarrow> J (q + 1) h"
  shows "J p h \<Longrightarrow> case field_loop data p h of
      None \<Rightarrow> \<exists>p h ch c. J p h \<and> header_state h \<noteq> h_general \<and> field_switch ch c h = None
    | Some (p', h') \<Rightarrow> J p' h'"
  using step skip
proof (induction data p h rule: field_loop.induct)
  case (1 data p h)
  let ?s = "skip_tokens data (p + min (length data - p) max_header_size) p"
  consider "length data \<le> p \<or> TOKEN (data ! p) = NUL"
    | "\<not> length data \<le> p" "TOKEN (data ! p) \<noteq> NUL" "header_state h = h_general"
    | "\<not> length data \<le> p" "TOKEN (data ! p) \<noteq> NUL" "header_state h \<noteq> h_general" by blast
  then show ?case
  proof cases
    case 1
    with "1.prems"(1) show ?thesis by (subst field_loop.simps) (auto simp: Let_def)
  next
    case 2
    have "?s < length data" "p \<le> ?s"
      using skip_tokens_less [of p "p + min (length data - p) max_header_size" data] skip_tokens_ge [of p] 2(1)
      by (auto simp: max_header_size_def)
    then have "J (?s + 1) h" using "1.prems"(1,3) by blast
    from "1.IH"(1) [OF 2(1) refl refl 2(2,3) this "1.prems"(2,3)] 2 show ?thesis
      by (simp only: field_loop.simps [of data p] Let_def if_False if_True simp_thms)
  next
    case 3
    show ?thesis
    proof (cases "field_switch (data ! p) (TOKEN (data ! p)) h")
      case None
      then have "field_loop data p h = None" using 3 by (subst field_loop.simps) (auto simp: Let_def)
      moreover have "J p h \<and> header_state h \<noteq> h_general \<and> field_switch (data ! p) (TOKEN (data ! p)) h = None"
        using None 3 "1.prems"(1) by simp
      ultimately show ?thesis by (simp only: option.case) blast
    next
      case (Some h1)
      then have "J (p + 1) h1" using "1.prems"(1,2) 3(1) by simp
      from "1.IH"(2) [OF 3(1) refl refl 3(2,3) Some this "1.prems"(2,3)] 3 Some show ?thesis
        by (simp only: field_loop.simps [of data p h] Let_def if_False option.case simp_thms)
    qed
  qed
qed

lemma value_switch_error: "value_switch ch c h hs = Some (Inl e) \<Longrightarrow> e = CHPE_INVALID_CONTENT_LENGTH"
  by (cases hs) (auto simp: value_switch_def length_digit_def value_match_def split: if_splits prod.splits)

lemma value_loop_rule:
  assumes step: "\<And>p h hs h1 hs1. J p h hs \<Longrightarrow> p < length data \<Longrightarrow>
      value_switch (data ! p) (LOWER (data ! p)) h hs = Some (Inr (h1, hs1)) \<Longrightarrow> J (p + 1) h1 hs1"
    and skip: "\<And>p q h hs. J p h hs \<Longrightarrow> p \<le> q \<Longrightarrow> q < length data \<Longrightarrow> J (q + 1) h hs"
  shows "J p h hs \<Longrightarrow> case value_loop data p h hs of
      None \<Rightarrow> \<exists>p h hs ch c. J p h hs \<and> value_switch ch c h hs = None
    | Some (e, p', h', hs') \<Rightarrow>
        (case e of V_end \<Rightarrow> length data \<le> p' \<and> J p' h' hs'
         | V_error x \<Rightarrow> x \<noteq> CHPE_OK \<and> p' < length data \<and> (\<exists>p0 h0 s. p0 \<le> p' \<and> J p0 h0 hs' \<and> (h' = h0 \<or> h' = h0\<lparr>header_state := s\<rparr>))
         | _ \<Rightarrow> p' < length data \<and> J p' h' hs')"
  using step skip
proof (induction data p h hs rule: value_loop.induct)
  case (1 data p h hs)
  let ?ch = "data ! p" and ?pe = "p + min (length data - p) max_header_size"
  let ?g = "general_loop data (lenient_http_headers h) ?pe p"
  consider "length data \<le> p \<or> ?ch = CR \<or> ?ch = LF \<or> \<not> lenient_http_headers h \<and> \<not> IS_HEADER_CHAR ?ch"
    | "\<not> length data \<le> p" "?ch \<noteq> CR" "?ch \<noteq> LF" "\<not> (\<not> lenient_http_headers h \<and> \<not> IS_HEADER_CHAR ?ch)" "hs = h_general"
    | "\<not> length data \<le> p" "?ch \<noteq> CR" "?ch \<noteq> LF" "\<not> (\<not> lenient_http_headers h \<and> \<not> IS_HEADER_CHAR ?ch)" "hs \<noteq> h_general"
    by blast
  then show ?case
  proof cases
    case 1
    with "1.prems"(1) show ?thesis by (subst value_loop.simps) (auto simp: Let_def)
  next
    case 2
    show ?thesis
    proof (cases ?g)
      case (Inl q)
      with 2 "1.prems"(1) general_loop_less [OF Inl] general_loop_from [OF Inl] show ?thesis
        by (subst value_loop.simps) (auto simp: Let_def)
    next
      case (Inr q)
      let ?q = "if q = length data then q - 1 else q"
      have q: "p \<le> q" using 2 Inr by (intro general_loop_first [of data _ _ p]) (auto simp: max_header_size_def)
      with general_loop_le [OF Inr] 2(1) have "p \<le> ?q" "?q < length data" by auto
      then have "J (?q + 1) h hs" using "1.prems"(1,3) by blast
      from "1.IH"(1) [OF 2(1) refl refl 2(2-5) Inr this "1.prems"(2,3)] 2 Inr show ?thesis
        by (simp only: value_loop.simps [of data p] Let_def if_False sum.case if_True simp_thms)
    qed
  next
    case 3
    consider "value_switch ?ch (LOWER ?ch) h hs = None" | x where "value_switch ?ch (LOWER ?ch) h hs = Some (Inl x)"
      | h1 hs1 where "value_switch ?ch (LOWER ?ch) h hs = Some (Inr (h1, hs1))"
      by (metis option.exhaust sum.exhaust surj_pair)
    then show ?thesis
    proof cases
      case 1
      then have "value_loop data p h hs = None" using 3 by (subst value_loop.simps) (auto simp: Let_def)
      moreover have "J p h hs \<and> value_switch ?ch (LOWER ?ch) h hs = None" using 1 3(1) "1.prems"(1) by simp
      ultimately show ?thesis by (simp only: option.case) blast
    next
      case (2 x)
      with 3 "1.prems"(1) value_switch_error [OF 2] show ?thesis by (subst value_loop.simps) (auto simp: Let_def)
    next
      case sw: (3 h1 hs1)
      have "J (p + 1) h1 hs1" using "1.prems"(1,2) 3(1) sw by simp
      from "1.IH"(2) [OF 3(1) refl refl 3(2-5) sw refl refl this "1.prems"(2,3)] 3 sw show ?thesis
        by (simp only: value_loop.simps [of data p h] Let_def if_False sum.case option.case prod.case simp_thms)
    qed
  qed
qed

lemma field_loop_bounds: "field_loop data p h = Some (p', h') \<Longrightarrow> p \<le> p'"
  using field_loop_rule [of "\<lambda>q h. p \<le> q" data p h] by simp

lemma value_loop_bounds:
  "value_loop data p h hs = Some (e, p', h', hs') \<Longrightarrow> p \<le> p' \<and> (e = V_lf \<or> e = V_cr \<longrightarrow> p' < length data) \<and> (e = V_end \<longrightarrow> length data \<le> p') \<or>
     (\<exists>x. e = V_error x)"
  using value_loop_rule [of "\<lambda>q h hs. p \<le> q" data p h hs] by (cases e) simp_all

subsection \<open>What a round leaves\<close>

text \<open>A run that ends the loop.\<close>

definition ended :: "'u run \<Rightarrow> bool" where
  "ended r \<longleftrightarrow> (case r of Some (Inl e) \<Rightarrow> True | Some (Inr (Return m n)) \<Rightarrow> True | _ \<Rightarrow> False)"

text \<open>
  What a round has to leave for the next one, which may be on the same byte, or as the result of the loop.
\<close>

definition follows :: "(bool \<Rightarrow> 'v machine \<Rightarrow> bool) \<Rightarrow> (('v machine \<times> nat) result \<Rightarrow> bool) \<Rightarrow> 'v run \<Rightarrow> bool" where
  "follows I Q r \<longleftrightarrow> (case r of
     None \<Rightarrow> True
   | Some (Inl e) \<Rightarrow> Q (Inl e)
   | Some (Inr (Next m1)) \<Rightarrow> I False (m1\<lparr>pos := pos m1 + 1\<rparr>)
   | Some (Inr (Reexecute m1)) \<Rightarrow> I True m1
   | Some (Inr (Return m1 n)) \<Rightarrow> Q (Inr (m1, n)))"

subsection \<open>Callbacks that return\<close>

locale tame_callbacks =
  fixes cb :: "'u callbacks"
  assumes returns: "cb ev h u \<noteq> None"
    and keeps_state: "cb ev h u = Some (Inr (h', u', rc)) \<Longrightarrow> hp_state h' \<in> {hp_state h, s_start_req}"
begin

text \<open>A property of a run through a callback: it has to hold of the ways out and of the rest.\<close>

lemma notify_rule:
  assumes "\<And>e. P (Some (Inl e))" "\<And>m2 n. P (Some (Inr (Return m2 n)))"
    and "\<And>m2. pos m2 = pos m1 \<Longrightarrow> hp_state (hp m2) \<in> {hp_state (hp m1), s_start_req} \<Longrightarrow> P (k m2)"
  shows "P (CALLBACK_NOTIFY_RET cb ev er m1 k)"
proof (cases "cb ev (hp m1) (usr m1)")
  case None
  then show ?thesis using returns by blast
next
  case (Some r)
  show ?thesis
  proof (cases r)
    case (Inl e)
    with Some assms(1) show ?thesis by (simp add: CALLBACK_NOTIFY_RET_def assertion_def then_do_def)
  next
    case (Inr x)
    obtain h u rc where x: "x = (h, u, rc)" by (cases x)
    have "hp_state h \<in> {hp_state (hp m1), s_start_req}" using keeps_state Some Inr x by blast
    then show ?thesis using Some Inr x assms by (auto simp: CALLBACK_NOTIFY_RET_def assertion_def then_do_def Let_def)
  qed
qed

lemma data_rule:
  assumes "\<And>e. P (Some (Inl e))" "\<And>m2 n. P (Some (Inr (Return m2 n)))"
    and "\<And>m2. pos m2 = pos m1 \<Longrightarrow> hp_state (hp m2) \<in> {hp_state (hp m1), s_start_req} \<Longrightarrow> P (k m2)"
  shows "P (CALLBACK_DATA_RET cb data FOR fin er m1 k)"
proof (cases "http_errno (hp m1) = CHPE_OK \<and> marks m1 FOR \<noteq> None")
  case True
  then obtain a where "CALLBACK_DATA_RET cb data FOR fin er m1 k =
      CALLBACK_NOTIFY_RET cb (mark_cb FOR (take (fin - a) (drop a data))) er m1 (\<lambda>m1. k (m1\<lparr>marks := (marks m1)(FOR := None)\<rparr>))"
    by (auto simp: CALLBACK_DATA_RET_def assertion_def)
  moreover have "P (CALLBACK_NOTIFY_RET cb (mark_cb FOR (take (fin - a) (drop a data))) er m1 (\<lambda>m1. k (m1\<lparr>marks := (marks m1)(FOR := None)\<rparr>)))"
    by (rule notify_rule [of P]) (use assms in simp_all)
  ultimately show ?thesis by simp
next
  case False
  with assms show ?thesis by (auto simp: CALLBACK_DATA_RET_def assertion_def)
qed

lemmas advances_notify = notify_rule [of "advances data m" for data m, simplified]
lemmas advances_data = data_rule [of "advances data m" for data m, simplified]

lemma advances_url: "advances data m (advance_url ch m1)" if "pos m \<le> pos m1"
  using that by (auto simp: advance_url_def Let_def split: sum.split prod.split)

lemma advances_method: "advances data m (step_req_method cb ch m)"
  by (auto simp: step_req_method_def Let_def split: option.split intro!: advances_notify)

lemma advances_field: "pos m < length data \<Longrightarrow> advances data m (step_field cb data m)"
  using field_loop_bounds [of data "pos m" "hp m"]
  by (auto simp: step_field_def intro!: advances_count advances_data split: option.split)

lemma advances_value:
  assumes "pos m < length data" "hp_state (hp m) = s_header_value"
  shows "advances data m (step_value cb data m)"
proof (cases "value_loop data (pos m) (hp m) (header_state (hp m))")
  case None
  then show ?thesis by (simp add: step_value_def)
next
  case (Some x)
  obtain e p h hs where x: "x = (e, p, h, hs)" by (cases x)
  from value_loop_bounds [OF Some [unfolded x]] Some x assms show ?thesis
    by (cases e) (auto simp: step_value_def intro!: advances_count advances_data)
qed

lemma to_read_bounds:
  assumes "has_length (hp m)" "pos m < length data" "length data < 2 ^ 64"
  shows "pos m \<le> pos (take_body data m)" "pos (take_body data m) < length data"
proof -
  let ?n = "content_length (hp m)" and ?k = "of_nat (length data - pos m) :: u64"
  have k: "unat ?k = length data - pos m" using assms(3) by (simp add: unat_of_nat)
  have "unat (min ?n ?k) \<le> unat ?k" by (simp add: min_def word_le_nat_alt)
  moreover have "0 < unat (min ?n ?k)" using assms(1,2) k by (auto simp: min_def has_length_def unat_eq_zero unat_gt_0)
  ultimately show "pos m \<le> pos (take_body data m)" "pos (take_body data m) < length data"
    using assms(2) k by (simp_all add: take_body_def Let_def)
qed

lemma advances_body:
  assumes "pos m < length data" "length data < 2 ^ 64"
  shows "hp_state (hp m) = s_body_identity \<Longrightarrow> advances data m (step_body_identity cb data m)" "advances data m (step_chunk_data data m)"
  using to_read_bounds [OF _ assms] by (auto simp: step_body_identity_def step_chunk_data_def Let_def intro!: advances_data)

lemma advances_headers_end:
  assumes "pos m < length data" "hp_state (hp m) = s_headers_almost_done"
  shows "advances data m (step_headers_almost_done cb ch m)"
proof -
  have complete: "advances data m (then_do (cb CB_headers_complete (hp m1) (usr m1)) (\<lambda>(h2, u2, rc). k h2 u2 rc))"
    if "\<And>h2 u2 rc. hp_state h2 \<in> {hp_state (hp m1), s_start_req} \<Longrightarrow> advances data m (k h2 u2 rc)" for m1 k
    using that returns [of CB_headers_complete "hp m1" "usr m1"] keeps_state [of CB_headers_complete "hp m1" "usr m1"]
    by (auto simp: then_do_def split: option.split sum.split)
  show ?thesis
    using assms by (auto simp: step_headers_almost_done_def Let_def intro!: advances_notify complete)
qed

lemmas step_simple_defs = step_dead_def step_start_req_def step_spaces_before_url_def step_url_start_def step_url_def step_http_start_def
  step_expect_def step_http_major_def step_http_dot_def step_http_minor_def step_http_end_def step_line_almost_done_def
  step_field_start_def step_value_start_def step_value_discard_ws_def step_header_almost_done_def step_value_lws_def
  step_value_discard_lws_def step_headers_done_def step_body_identity_eof_def step_message_done_def step_chunk_size_start_def
  step_chunk_size_def step_chunk_parameters_def step_chunk_size_almost_done_def step_chunk_data_almost_done_def step_chunk_data_done_def

lemma advances_dispatch:
  assumes "pos m < length data" "length data < 2 ^ 64"
  shows "advances data m (dispatch_state cb data ch m)"
  using assms advances_method [of data m ch] advances_field advances_value advances_body [OF assms] advances_headers_end [of m data ch]
  by (cases "hp_state (hp m)")
    (auto simp: dispatch_state_def step_simple_defs Let_def intro!: advances_notify advances_data advances_url
      split: option.split header_states.split)

lemma advances_same: "pos m2 = pos m \<Longrightarrow> hp m2 = hp m \<Longrightarrow> advances data m2 r \<Longrightarrow> advances data m r"
  by (auto simp: advances_def split: option.splits sum.splits flow.splits)

lemma advances_round:
  assumes "pos m < length data" "length data < 2 ^ 64"
  shows "advances data m (round cb data again m)"
proof -
  have "advances data m (dispatch_state cb data ch m2)" if "pos m2 = pos m" "hp m2 = hp m" for ch m2
    using advances_same [OF that advances_dispatch] assms that by simp
  then show ?thesis by (auto simp: round_def intro!: advances_count)
qed

lemma ended_data: "(\<And>m2. ended (k m2)) \<Longrightarrow> ended (CALLBACK_DATA_RET cb data FOR fin er m k)"
  by (rule data_rule [of ended]) (simp_all add: ended_def)

lemma ended_assertion: "ended r \<Longrightarrow> ended (assertion b r)"
  by (simp add: assertion_def ended_def)

lemma leftover_ended: "ended (leftover cb data m)"
  unfolding leftover_def by (intro ended_assertion ended_data) (simp add: ended_def)

text \<open>The loop comes to an end, with what an invariant of its rounds says of the result.\<close>

theorem loop_rule:
  assumes at_round: "\<And>again m. I again m \<Longrightarrow> pos m < length data \<Longrightarrow> follows I Q (round cb data again m)"
    and at_end: "\<And>m. I False m \<Longrightarrow> follows I Q (leftover cb data m)"
    and len: "length data < 2 ^ 64"
  shows "I again m \<Longrightarrow> again \<longrightarrow> pos m < length data \<Longrightarrow> \<exists>r. http_loop cb data again m = Some r \<and> Q r"
proof (induction "5 * (length data - pos m) + rank (hp_state (hp m))" arbitrary: again m rule: less_induct)
  case less
  show ?case
  proof (cases "\<not> again \<and> length data \<le> pos m")
    case True
    then show ?thesis using leftover_ended [of data m] at_end [of m] less.prems(1)
      by (subst http_loop.simps) (auto simp: ended_def follows_def split: option.splits sum.splits flow.splits)
  next
    case False
    then have p: "pos m < length data" using less.prems(2) by auto
    note r = advances_round [OF p len, of again] and f = at_round [OF less.prems(1) p]
    have rank: "rank s \<le> 4" for s by (cases s) simp_all
    show ?thesis
    proof (cases "round cb data again m")
      case None
      with r show ?thesis by simp
    next
      case (Some x)
      have "\<exists>r. http_loop cb data False (m1\<lparr>pos := pos m1 + 1\<rparr>) = Some r \<and> Q r" if "x = Inr (Next m1)" for m1
      proof (rule less.hyps)
        have "pos m \<le> pos m1" using r Some that by (simp add: advances_def)
        with p rank [of "hp_state (hp m1)"] show "5 * (length data - pos (m1\<lparr>pos := pos m1 + 1\<rparr>)) + rank (hp_state (hp (m1\<lparr>pos := pos m1 + 1\<rparr>)))
            < 5 * (length data - pos m) + rank (hp_state (hp m))" by simp
      qed (use f Some that in \<open>simp_all add: follows_def\<close>)
      moreover have "\<exists>r. http_loop cb data True m1 = Some r \<and> Q r" if "x = Inr (Reexecute m1)" for m1
      proof (rule less.hyps)
        have "pos m \<le> pos m1" "pos m1 < length data" "rank (hp_state (hp m1)) < rank (hp_state (hp m))"
          using r Some that by (simp_all add: advances_def)
        then show "5 * (length data - pos m1) + rank (hp_state (hp m1)) < 5 * (length data - pos m) + rank (hp_state (hp m))"
          "True \<longrightarrow> pos m1 < length data" by simp_all
      qed (use f Some that in \<open>simp_all add: follows_def\<close>)
      ultimately show ?thesis
        using False Some f by (subst http_loop.simps) (auto simp: follows_def split: sum.splits flow.splits)
    qed
  qed
qed

lemma loop_returns: "again \<longrightarrow> pos m < length data \<Longrightarrow> length data < 2 ^ 64 \<Longrightarrow> http_loop cb data again m \<noteq> None"
  using loop_rule [of "\<lambda>_ _. True" data "\<lambda>_. True" again m] by (auto simp: follows_def split: option.split sum.split flow.split)

theorem execute_returns: "length data < 2 ^ 64 \<Longrightarrow> http_parser_execute cb data h u \<noteq> None"
proof -
  assume len: "length data < 2 ^ 64"
  let ?m = "\<lparr>hp = h, usr = u, pos = 0, nread = hp_nread h, marks = initial_marks (hp_state h), url_start_mark = None\<rparr>"
  have "http_loop cb data False ?m \<noteq> None" using loop_returns [of False ?m data] len by simp
  then have loop: "then_do (http_loop cb data False ?m) (\<lambda>(m1, n). Some (Inr (hp m1, usr m1, n))) \<noteq> None"
    by (auto simp: then_do_def split: sum.split)
  have "ended (CALLBACK_NOTIFY_RET cb CB_message_complete 0 ?m (\<lambda>m1. Some (Inr (Return m1 0))))"
    by (rule notify_rule [of ended]) (simp_all add: ended_def)
  then have eof: "then_do (CALLBACK_NOTIFY_RET cb CB_message_complete 0 ?m (\<lambda>m1. Some (Inr (Return m1 0))))
      (\<lambda>f. case f of Return m1 n \<Rightarrow> Some (Inr (hp m1, usr m1, n)) | _ \<Rightarrow> None) \<noteq> None"
    by (auto simp: then_do_def ended_def split: option.splits sum.splits flow.splits)
  show ?thesis
    unfolding http_parser_execute_def Let_def using loop eof
    by (cases "hp_state h = s_body_identity_eof") (simp_all del: not_None_eq)
qed

end

subsection \<open>Callbacks that are observed\<close>

text \<open>
  A callback that throws or does not return, as one outcome: what is left without an outcome, or
  with another failure, is then the parser itself.
\<close>

definition observed :: "'u callbacks \<Rightarrow> 'u callbacks" where
  "observed cb ev h u = (case cb ev h u of Some (Inr x) \<Rightarrow> Some (Inr x) | _ \<Rightarrow> Some (Inl (UB ''callback failed'')))"

lemma observed_returns: "observed cb ev h u \<noteq> None"
  by (simp add: observed_def split: option.split sum.split)

lemma observed_Inl: "observed cb ev h u = Some (Inl e) \<Longrightarrow> e = UB ''callback failed''"
  by (simp add: observed_def split: option.splits sum.splits)

lemma observed_Inr: "observed cb ev h u = Some (Inr x) \<longleftrightarrow> cb ev h u = Some (Inr x)"
  by (auto simp: observed_def split: option.splits sum.splits)

end
