(* ===== verification/Http_Typed.thy ===== *)
theory Http_Typed
  imports Http_Returns
begin

text \<open>
  The fields of the parser keep the widths they are declared with, and the parser never reports more
  bytes than the buffer has, whatever the bytes are. The callbacks are those of \<open>Http_Returns\<close> that
  also keep the widths.
\<close>

subsection \<open>Widths\<close>

text \<open>\<open>index\<close> has five bits; \<open>method\<close> indexes the table of names; the version has two digits.\<close>

definition typed :: "http_parser \<Rightarrow> bool" where
  "typed h \<longleftrightarrow> hp_index h < 32 \<and> hp_method h < internal_method_count \<and> hp_major h < 10 \<and> hp_minor h < 10"

lemma typed_simps [simp]:
  "typed (h\<lparr>hp_state := s\<rparr>) = typed h" "typed (h\<lparr>header_state := a\<rparr>) = typed h" "typed (h\<lparr>hp_flags := fl\<rparr>) = typed h"
  "typed (h\<lparr>content_length := l\<rparr>) = typed h" "typed (h\<lparr>hp_nread := r\<rparr>) = typed h" "typed (h\<lparr>hp_qs_point := q\<rparr>) = typed h"
  "typed (h\<lparr>hp_upgrade := b\<rparr>) = typed h" "typed (h\<lparr>uses_transfer_encoding := b\<rparr>) = typed h" "typed (h\<lparr>http_errno := e\<rparr>) = typed h"
  by (simp_all add: typed_def)

lemma typed_index [simp]: "typed h \<Longrightarrow> i < 32 \<Longrightarrow> typed (h\<lparr>hp_index := i\<rparr>)"
  by (simp add: typed_def)

lemma typed_method [simp]: "typed h \<Longrightarrow> m < internal_method_count \<Longrightarrow> typed (h\<lparr>hp_method := m\<rparr>)"
  by (simp add: typed_def)

lemma typed_version [simp]:
  "typed h \<Longrightarrow> i < 10 \<Longrightarrow> typed (h\<lparr>hp_major := i\<rparr>)" "typed h \<Longrightarrow> i < 10 \<Longrightarrow> typed (h\<lparr>hp_minor := i\<rparr>)"
  by (simp_all add: typed_def)

lemma typed_init: "typed http_parser_init"
  by (simp add: typed_def http_parser_init_def internal_method_count_def)

lemma typed_machine [simp]: "typed (hp (to_state s m)) = typed (hp m)" "typed (hp (SET_ERRNO e m)) = typed (hp m)"
  by (simp_all add: to_state_def SET_ERRNO_def upd_hp_def)

lemma some_method [simp]: "0 < internal_method_count"
  by (simp add: internal_method_count_def)

lemma digit_val_less: "is_digit c \<Longrightarrow> digit_val c < 10"
  by (auto simp: digit_val_def is_digit_code)

lemma next_method_less: "next_method m i ch = Some new \<Longrightarrow> m < internal_method_count \<Longrightarrow> new < internal_method_count"
  by (auto simp: next_method_def method_num_less split: if_splits)

subsection \<open>The loops over a header\<close>

lemma typed_field_match: "typed h \<Longrightarrow> typed (field_match word found c h)"
  by (simp add: field_match_def match_word_def Let_def)

lemma typed_field_switch: "field_switch ch c h = Some h1 \<Longrightarrow> typed h \<Longrightarrow> typed h1"
  by (cases "header_state h") (auto simp: field_switch_def field_next_def typed_field_match Let_def)

lemma typed_field_loop: "field_loop data p h = Some (p', h') \<Longrightarrow> typed h \<Longrightarrow> p \<le> length data \<Longrightarrow> typed h' \<and> p' \<le> length data"
  using field_loop_rule [of "\<lambda>p h. typed h \<and> p \<le> length data" data p h] typed_field_switch by simp

lemma typed_value_switch: "value_switch ch c h hs = Some (Inr (h1, hs1)) \<Longrightarrow> typed h \<Longrightarrow> typed h1"
  by (cases hs) (auto simp: value_switch_def length_digit_def value_match_def match_word_def Let_def split: if_splits)

lemma typed_value_loop:
  "value_loop data p h hs = Some (e, p', h', hs') \<Longrightarrow> typed h \<Longrightarrow> p \<le> length data \<Longrightarrow> typed h' \<and> p' \<le> length data"
  using value_loop_rule [of "\<lambda>p h hs. typed h \<and> p \<le> length data" data p h hs] typed_value_switch by (cases e) auto

subsection \<open>Rounds\<close>

definition kept :: "string \<Rightarrow> 'u run \<Rightarrow> bool" where
  "kept data r \<longleftrightarrow> (case r of
     Some (Inr (Next m1)) \<Rightarrow> typed (hp m1) \<and> pos m1 < length data
   | Some (Inr (Reexecute m1)) \<Rightarrow> typed (hp m1)
   | Some (Inr (Return m1 n)) \<Rightarrow> typed (hp m1) \<and> n \<le> length data
   | _ \<Rightarrow> True)"

lemma kept_simps [simp]:
  "kept data (go m1) \<longleftrightarrow> typed (hp m1) \<and> pos m1 < length data" "kept data (reexecute m1) \<longleftrightarrow> typed (hp m1)"
  "kept data (goto_error e m1) \<longleftrightarrow> typed (hp m1) \<and> pos m1 \<le> length data" "kept data (Some (Inl x))"
  "kept data (Some (Inr (Return m1 n))) \<longleftrightarrow> typed (hp m1) \<and> n \<le> length data" "kept data None"
  by (simp_all add: kept_def go_def reexecute_def goto_error_def)

lemma kept_check [simp]:
  "kept data (STRICT_CHECK b m1 r) \<longleftrightarrow> (if b then typed (hp m1) \<and> pos m1 \<le> length data else kept data r)"
  "kept data (assertion b r) \<longleftrightarrow> (b \<longrightarrow> kept data r)"
  "kept data (chunked m1 r) \<longleftrightarrow> (F_CHUNKED \<in> hp_flags (hp m1) \<longrightarrow> kept data r)"
  by (simp_all add: STRICT_CHECK_def assertion_def chunked_def)

lemma kept_count:
  "typed (hp m1) \<Longrightarrow> pos m1 \<le> length data \<Longrightarrow> (\<And>m2. pos m2 = pos m1 \<Longrightarrow> hp m2 = hp m1 \<Longrightarrow> kept data (k m2)) \<Longrightarrow>
     kept data (COUNT_HEADER_SIZE v m1 k)"
  by (simp add: COUNT_HEADER_SIZE_def Let_def)

definition typed_end :: "string \<Rightarrow> ('v machine \<times> nat) result \<Rightarrow> bool" where
  "typed_end data r \<longleftrightarrow> (case r of Inl e \<Rightarrow> True | Inr (m1, n) \<Rightarrow> typed (hp m1) \<and> n \<le> length data)"

lemma kept_follows:
  "kept data r \<Longrightarrow> (\<And>m1. r = Some (Inr (Reexecute m1)) \<Longrightarrow> pos m1 \<le> length data) \<Longrightarrow>
     follows (\<lambda>_ m. typed (hp m) \<and> pos m \<le> length data) (typed_end data) r"
  by (auto simp: kept_def follows_def typed_end_def split: option.splits sum.splits flow.splits)

locale typed_callbacks = tame_callbacks +
  assumes keeps_typed: "cb ev h u = Some (Inr (h', u', rc)) \<Longrightarrow> typed h \<Longrightarrow> typed h'"
begin

lemma kept_notify:
  assumes "typed (hp m1)" "er \<le> length data" and k: "\<And>m2. pos m2 = pos m1 \<Longrightarrow> typed (hp m2) \<Longrightarrow> kept data (k m2)"
  shows "kept data (CALLBACK_NOTIFY_RET cb ev er m1 k)"
proof (cases "\<exists>h u rc. cb ev (hp m1) (usr m1) = Some (Inr (h, u, rc))")
  case True
  then obtain h u rc where "cb ev (hp m1) (usr m1) = Some (Inr (h, u, rc))" by blast
  with keeps_typed [OF this assms(1)] assms(2) k show ?thesis by (simp add: CALLBACK_NOTIFY_RET_def then_do_def Let_def)
next
  case False
  then show ?thesis by (auto simp: CALLBACK_NOTIFY_RET_def then_do_def split: option.split sum.split)
qed

lemma kept_data:
  assumes "typed (hp m1)" "er \<le> length data" and k: "\<And>m2. pos m2 = pos m1 \<Longrightarrow> typed (hp m2) \<Longrightarrow> kept data (k m2)"
  shows "kept data (CALLBACK_DATA_RET cb data' FOR fin er m1 k)"
  using assms(1) k kept_notify [OF assms(1,2), of "\<lambda>m1. k (m1\<lparr>marks := (marks m1)(FOR := None)\<rparr>)"]
  by (auto simp: CALLBACK_DATA_RET_def split: option.split)

lemma kept_url: "typed (hp m) \<Longrightarrow> pos m < length data \<Longrightarrow> kept data (advance_url ch m)"
  by (auto simp: advance_url_def Let_def split: sum.split prod.split)

lemma kept_method: "typed (hp m) \<Longrightarrow> pos m < length data \<Longrightarrow> kept data (step_req_method cb ch m)"
  using next_method_less [of "hp_method (hp m)" "hp_index (hp m)" ch]
  by (auto simp: step_req_method_def Let_def typed_def [of "hp m"] split: option.split intro!: kept_notify)

lemma kept_field: "typed (hp m) \<Longrightarrow> pos m < length data \<Longrightarrow> kept data (step_field cb data m)"
  using typed_field_loop [of data "pos m" "hp m"]
  by (auto simp: step_field_def intro!: kept_count kept_data split: option.split)

lemma kept_value:
  assumes "typed (hp m)" "pos m < length data"
  shows "kept data (step_value cb data m)"
proof (cases "value_loop data (pos m) (hp m) (header_state (hp m))")
  case None
  then show ?thesis by (simp add: step_value_def)
next
  case (Some x)
  obtain e p h hs where x: "x = (e, p, h, hs)" by (cases x)
  from typed_value_loop [OF Some [unfolded x] assms(1)] value_loop_bounds [OF Some [unfolded x]] Some x assms(2) show ?thesis
    by (cases e) (auto simp: step_value_def intro!: kept_count kept_data)
qed

lemma kept_body:
  assumes "typed (hp m)" "pos m < length data" "length data < 2 ^ 64"
  shows "kept data (step_body_identity cb data m)" "kept data (step_chunk_data data m)"
proof -
  have "typed (hp (take_body data m))" using assms(1) by (simp add: take_body_def Let_def)
  with to_read_bounds [OF _ assms(2,3)] show "kept data (step_body_identity cb data m)" "kept data (step_chunk_data data m)"
    by (auto simp: step_body_identity_def step_chunk_data_def Let_def less_imp_le intro!: kept_data)
qed

lemma kept_headers_end:
  assumes "typed (hp m)" "pos m < length data"
  shows "kept data (step_headers_almost_done cb ch m)"
proof -
  have complete: "kept data (then_do (cb CB_headers_complete (hp m1) (usr m1)) (\<lambda>(h2, u2, rc). k h2 u2 rc))"
    if "typed (hp m1)" "\<And>h2 u2 rc. typed h2 \<Longrightarrow> kept data (k h2 u2 rc)" for m1 k
    using that keeps_typed [of CB_headers_complete "hp m1" "usr m1"] by (auto simp: then_do_def split: option.split sum.split)
  show ?thesis
    using assms by (auto simp: step_headers_almost_done_def Let_def intro!: kept_notify complete)
qed

lemma kept_dispatch:
  assumes "typed (hp m)" "pos m < length data" "length data < 2 ^ 64"
  shows "kept data (dispatch_state cb data ch m)"
  using assms kept_method kept_field kept_value kept_body [OF assms] kept_headers_end
  by (cases "hp_state (hp m)")
    (auto simp: dispatch_state_def step_simple_defs Let_def digit_val_less method_num_less finish_header_def
      intro!: kept_notify kept_data kept_url split: option.split header_states.split)

lemma kept_round:
  assumes "typed (hp m)" "pos m < length data" "length data < 2 ^ 64"
  shows "kept data (round cb data again m)"
  using assms kept_dispatch by (auto simp: round_def intro!: kept_count)

lemma kept_leftover: "typed (hp m) \<Longrightarrow> pos m \<le> length data \<Longrightarrow> kept data (leftover cb data m)"
  by (auto simp: leftover_def intro!: kept_data)

theorem execute_typed:
  assumes "http_parser_execute cb data h u = Some (Inr (h', u', n))" "typed h" "length data < 2 ^ 64" "data \<noteq> []"
  shows "typed h' \<and> n \<le> length data"
proof (cases "http_errno h = CHPE_OK")
  case True
  let ?m = "\<lparr>hp = h, usr = u, pos = 0, nread = hp_nread h, marks = initial_marks (hp_state h), url_start_mark = None\<rparr>"
  obtain m1 where m1: "http_loop cb data False ?m = Some (Inr (m1, n))" "hp m1 = h'"
    using assms(1,4) True by (auto simp: http_parser_execute_def then_do_def Let_def split: option.splits sum.splits)
  have "\<exists>r. http_loop cb data False ?m = Some r \<and> typed_end data r"
  proof (rule loop_rule [of "\<lambda>_ m. typed (hp m) \<and> pos m \<le> length data"], goal_cases)
    case (1 again m)
    with kept_round [of m data again] advances_round [of m data again] assms(3) show ?case
      by (intro kept_follows) (auto simp: advances_def)
  next
    case (2 m)
    with kept_leftover [of m data] leftover_ended [of data m] show ?case by (intro kept_follows) (auto simp: ended_def)
  qed (use assms(2,3) in simp_all)
  with m1 show ?thesis by (auto simp: typed_end_def)
next
  case False
  with assms show ?thesis by (simp add: http_parser_execute_def)
qed

end

end
