(* ===== verification/Http_Safe.thy ===== *)
theory Http_Safe
  imports Http_Typed
begin

text \<open>
  No assertion of the byte-level parser fails on a buffer without zero bytes, and none of the pointers
  it subtracts is null unless the buffer begins in the middle of a url. The invariant says, for every
  state, what the code that runs in it asserts, and which mark may be set in it. The callbacks are those of
  \<open>Http_Returns\<close> that change no more of the parser than \<open>HTTPParser::clear\<close> and \<open>HTTPParser::done\<close> do.
\<close>

subsection \<open>The invariant\<close>

text \<open>The header states of a name, and those in which a value can go on.\<close>

definition name_states :: "header_states set" where
  "name_states = {h_general, h_C, h_CO, h_CON, h_matching_connection, h_matching_proxy_connection, h_matching_content_length,
     h_matching_transfer_encoding, h_matching_upgrade, h_connection, h_content_length, h_transfer_encoding, h_upgrade}"

definition value_states :: "header_states set" where
  "value_states = - {h_connection, h_transfer_encoding}"

text \<open>What the code of every state relies on; for a method, that its matcher stays within the name.\<close>

definition sane :: "http_parser \<Rightarrow> bool" where
  "sane h \<longleftrightarrow> (case hp_state h of
     s_req_method \<Rightarrow> hp_index h \<le> length (method_strings ! hp_method h)
   | s_header_field \<Rightarrow> header_state h \<in> name_states
   | s_header_value_start \<Rightarrow> header_state h \<in> value_states
   | s_header_value \<Rightarrow> header_state h \<in> value_states
   | s_header_value_lws \<Rightarrow> header_state h \<in> value_states
   | s_header_almost_done \<Rightarrow> header_state h \<in> value_states
   | s_chunk_size_start \<Rightarrow> F_CHUNKED \<in> hp_flags h
   | s_chunk_size \<Rightarrow> F_CHUNKED \<in> hp_flags h \<and> content_length h \<noteq> ULLONG_MAX
   | s_chunk_parameters \<Rightarrow> F_CHUNKED \<in> hp_flags h \<and> content_length h \<noteq> ULLONG_MAX
   | s_chunk_size_almost_done \<Rightarrow> F_CHUNKED \<in> hp_flags h \<and> content_length h \<noteq> ULLONG_MAX
   | s_chunk_data \<Rightarrow> F_CHUNKED \<in> hp_flags h \<and> has_length h
   | s_chunk_data_almost_done \<Rightarrow> F_CHUNKED \<in> hp_flags h \<and> content_length h = 0
   | s_chunk_data_done \<Rightarrow> F_CHUNKED \<in> hp_flags h
   | s_body_identity \<Rightarrow> has_length h
   | _ \<Rightarrow> True)"

text \<open>The states in which each of the marks may be set; \<open>url_start_mark\<close> is set behind the start of a url.\<close>

definition url_states :: "state set" where
  "url_states = {s_req_path, s_req_schema, s_req_schema_slash, s_req_schema_slash_slash, s_req_server_start,
     s_req_server, s_req_server_with_at, s_req_query_string_start, s_req_query_string}"

fun owner :: "mark \<Rightarrow> state set" where
  "owner M_header_field = {s_header_field}"
| "owner M_header_value = {s_header_value}"
| "owner M_url = url_states"
| "owner M_body = {s_body_identity, s_body_identity_eof, s_chunk_data, s_chunk_data_almost_done}"

definition owned :: "'u machine \<Rightarrow> bool" where
  "owned m \<longleftrightarrow> (\<forall>k. marks m k \<noteq> None \<longrightarrow> hp_state (hp m) \<in> owner k)"

definition placed :: "bool \<Rightarrow> 'u machine \<Rightarrow> bool" where
  "placed split m \<longleftrightarrow> (hp_state (hp m) \<in> url_states \<longrightarrow> split \<or> url_start_mark m \<noteq> None)"

text \<open>A chunk begins with a fresh count of header bytes.\<close>

definition counted :: "nat \<Rightarrow> http_parser \<Rightarrow> u32 \<Rightarrow> bool" where
  "counted k h n \<longleftrightarrow> (hp_state h = s_chunk_size_start \<longrightarrow> n = of_nat k)"

text \<open>The invariant of the loop, and what it leaves as a result: \<open>split\<close> says that the buffer began within a url.\<close>

definition orderly :: "bool \<Rightarrow> bool \<Rightarrow> 'u machine \<Rightarrow> bool" where
  "orderly split again m \<longleftrightarrow> http_errno (hp m) = CHPE_OK \<and> sane (hp m) \<and> owned m \<and> placed split m \<and>
     (if again then hp_state (hp m) \<noteq> s_chunk_size_start else counted 0 (hp m) (nread m))"

definition safe_end :: "bool \<Rightarrow> ('u machine \<times> nat) result \<Rightarrow> bool" where
  "safe_end split r \<longleftrightarrow> (case r of
     Inl e \<Rightarrow> e = UB ''callback failed'' \<or> split \<and> e = UB ''distance from a null pointer''
   | Inr (m, n) \<Rightarrow> http_errno (hp m) = CHPE_OK \<longrightarrow> sane (hp m) \<and> counted 0 (hp m) (hp_nread (hp m)))"

abbreviation safe :: "bool \<Rightarrow> 'u run \<Rightarrow> bool" where
  "safe split \<equiv> follows (orderly split) (safe_end split)"

subsection \<open>Runs\<close>

lemma machine_fields [simp]:
  "nread (upd_hp f m) = nread m" "marks (upd_hp f m) = marks m" "url_start_mark (upd_hp f m) = url_start_mark m"
  "nread (to_state s m) = nread m" "marks (to_state s m) = marks m" "url_start_mark (to_state s m) = url_start_mark m"
  "nread (MARK k m) = nread m" "url_start_mark (MARK k m) = url_start_mark m"
  "hp (to_state s m) = (hp m)\<lparr>hp_state := s\<rparr>"
  "marks (MARK k m) = (if marks m k = None then (marks m)(k := Some (pos m)) else marks m)"
  by (simp_all add: upd_hp_def to_state_def MARK_def)

lemma orderly_pos [simp]: "orderly split again (m\<lparr>pos := p\<rparr>) = orderly split again m"
  by (simp add: orderly_def owned_def placed_def)

lemma safe_simps [simp]:
  "safe split (go m) \<longleftrightarrow> orderly split False m" "safe split (reexecute m) \<longleftrightarrow> orderly split True m"
  "safe split (goto_error e m) \<longleftrightarrow> (e = CHPE_OK \<longrightarrow> sane (hp (SET_ERRNO CHPE_OK m)) \<and> counted 0 (hp m) (nread m))"
  "safe split (Some (Inr (Return m n))) \<longleftrightarrow> safe_end split (Inr (m, n))" "safe split (Some (Inl x)) \<longleftrightarrow> x = UB ''callback failed'' \<or> split \<and> x = UB ''distance from a null pointer''"
  by (auto simp: follows_def go_def reexecute_def goto_error_def safe_end_def SET_ERRNO_def upd_hp_def counted_def)

lemma safe_check [simp]:
  "safe split (STRICT_CHECK b m r) \<longleftrightarrow> b \<or> safe split r"
  "safe split (assertion b r) \<longleftrightarrow> b \<and> safe split r"
  "safe split (chunked m r) \<longleftrightarrow> F_CHUNKED \<in> hp_flags (hp m) \<and> safe split r"
  by (auto simp: STRICT_CHECK_def assertion_def chunked_def safe_end_def)

lemma safe_count: "safe split (k (m\<lparr>nread := nread m + of_nat v\<rparr>)) \<Longrightarrow> safe split (COUNT_HEADER_SIZE v m k)"
  by (simp add: COUNT_HEADER_SIZE_def Let_def)

lemma safe_error: "http_errno (hp m) \<noteq> CHPE_OK \<Longrightarrow> safe_end split (Inr (m, n))"
  by (simp add: safe_end_def)

lemma cb_errno_error: "cb_errno ev \<noteq> CHPE_OK"
  by (cases ev) simp_all

text \<open>What the state of a case of the switch satisfies: the byte is counted already.\<close>

definition dispatchable :: "bool \<Rightarrow> 'u machine \<Rightarrow> bool" where
  "dispatchable split m \<longleftrightarrow> http_errno (hp m) = CHPE_OK \<and> sane (hp m) \<and> owned m \<and> placed split m \<and> counted 1 (hp m) (nread m)"

definition parser_ok :: "http_parser \<Rightarrow> bool" where
  "parser_ok h \<longleftrightarrow> sane h \<and> counted 0 h (hp_nread h)"

lemma sane_nread: "sane (h\<lparr>hp_nread := n\<rparr>) = sane h"
  by (cases "hp_state h") (simp_all add: sane_def has_length_def)

lemma marks_none: "owned m \<Longrightarrow> hp_state (hp m) \<notin> url_states \<Longrightarrow> hp_state (hp m) \<notin> {s_header_field, s_header_value, s_body_identity,
    s_body_identity_eof, s_chunk_data, s_chunk_data_almost_done} \<Longrightarrow> marks m = (\<lambda>_. None)"
proof
  fix k assume "owned m" "hp_state (hp m) \<notin> url_states" "hp_state (hp m) \<notin> {s_header_field, s_header_value, s_body_identity,
    s_body_identity_eof, s_chunk_data, s_chunk_data_almost_done}"
  then show "marks m k = None" by (cases k) (auto simp: owned_def)
qed

lemma marks_only: "owned m \<Longrightarrow> hp_state (hp m) \<in> owner FOR \<Longrightarrow> \<forall>k. k \<noteq> FOR \<longrightarrow> marks m k = None"
proof (intro allI impI)
  fix k assume "owned m" "hp_state (hp m) \<in> owner FOR" "k \<noteq> FOR"
  then show "marks m k = None" by (cases k; cases FOR) (auto simp: owned_def url_states_def)
qed

lemma owned_only: "\<forall>k. k \<noteq> FOR \<longrightarrow> marks m k = None \<Longrightarrow> hp_state (hp m) \<in> owner FOR \<Longrightarrow> owned m"
  unfolding owned_def by metis

lemmas orderly_simps = orderly_def owned_def placed_def counted_def sane_def url_states_def

lemma orderly_unmarked:
  assumes "hp_state (hp m) \<notin> url_states" "hp_state (hp m) = s_chunk_size_start \<Longrightarrow> \<not> again \<and> nread m = 0" "http_errno (hp m) = CHPE_OK"
    "marks m = (\<lambda>_. None)" "sane (hp m)"
  shows "orderly split again m"
  using assms by (auto simp: orderly_def owned_def placed_def counted_def)

text \<open>What a callback leaves.\<close>

definition called :: "'u machine \<Rightarrow> 'u machine \<Rightarrow> bool" where
  "called m m2 \<longleftrightarrow> pos m2 = pos m \<and> nread m2 = nread m \<and> url_start_mark m2 = url_start_mark m \<and>
     (\<exists>s q. s \<in> {hp_state (hp m), s_start_req} \<and> hp m2 = (hp m)\<lparr>hp_state := s, hp_qs_point := q, http_errno := CHPE_OK\<rparr>)"

lemma called_trans:
  assumes "called m1 m2" "called m2 m3"
  shows "called m1 m3"
proof -
  obtain s q s' q' where s: "s \<in> {hp_state (hp m1), s_start_req}" "hp m2 = (hp m1)\<lparr>hp_state := s, hp_qs_point := q, http_errno := CHPE_OK\<rparr>"
    "s' \<in> {hp_state (hp m2), s_start_req}" "hp m3 = (hp m2)\<lparr>hp_state := s', hp_qs_point := q', http_errno := CHPE_OK\<rparr>"
    using assms unfolding called_def by blast
  then have "hp m3 = (hp m1)\<lparr>hp_state := s', hp_qs_point := q', http_errno := CHPE_OK\<rparr>" "s' \<in> {hp_state (hp m1), s_start_req}" by auto
  then show ?thesis using assms unfolding called_def by metis
qed

lemma sane_called: "called m m2 \<Longrightarrow> sane (hp m) \<Longrightarrow> sane (hp m2)"
  by (cases "hp_state (hp m)") (auto simp: called_def sane_def has_length_def)

lemma orderly_called:
  assumes "called m m2" "marks m2 = (\<lambda>_. None)" "http_errno (hp m) = CHPE_OK" "sane (hp m)" "hp_state (hp m) \<notin> url_states"
    "hp_state (hp m) \<noteq> s_chunk_size_start"
  shows "orderly split again m2"
  using assms sane_called [OF assms(1)]
  by (auto simp: orderly_def owned_def placed_def counted_def called_def url_states_def)

subsection \<open>The parts of the switch\<close>

lemma field_switch_name:
  assumes "header_state h \<in> name_states" "header_state h \<noteq> h_general"
  shows "\<exists>h1. field_switch ch c h = Some h1 \<and> header_state h1 \<in> name_states \<and> hp_state h1 = hp_state h \<and> http_errno h1 = http_errno h"
  using assms by (cases "header_state h") (auto simp: field_switch_def field_next_def field_match_def match_word_def name_states_def Let_def)

lemma field_loop_name:
  assumes "header_state h \<in> name_states"
  shows "\<exists>p' h'. field_loop data p h = Some (p', h') \<and> header_state h' \<in> name_states \<and> hp_state h' = hp_state h \<and> http_errno h' = http_errno h"
proof -
  let ?J = "\<lambda>h'. header_state h' \<in> name_states \<and> hp_state h' = hp_state h \<and> http_errno h' = http_errno h"
  have step: "?J h2" if "?J h1" "field_switch ch c h1 = Some h2" for h1 h2 ch c
    using that field_switch_name [of h1 ch c] by (cases "header_state h1 = h_general") (auto simp: field_switch_def)
  have *: "case field_loop data p h of
      None \<Rightarrow> \<exists>(p :: nat) h ch c. ?J h \<and> header_state h \<noteq> h_general \<and> field_switch ch c h = None
    | Some (p', h') \<Rightarrow> ?J h'"
    by (rule field_loop_rule [of "\<lambda>_. ?J"], erule step, assumption) (use assms in simp_all)
  show ?thesis
  proof (cases "field_loop data p h")
    case None
    with * obtain h1 ch c where "?J h1" "header_state h1 \<noteq> h_general" "field_switch ch c h1 = None" by auto
    with field_switch_name [of h1 ch c] show ?thesis by simp
  qed (use * in auto)
qed

lemma value_switch_state:
  assumes "value_switch ch c h hs = Some (Inr (h1, hs1))" "hs \<in> value_states"
  shows "hs1 \<in> value_states \<and> (hp_state h = s_header_value \<longrightarrow> hp_state h1 = s_header_value) \<and> http_errno h1 = http_errno h"
  using assms by (cases hs)
    (auto simp: value_switch_def length_digit_def value_match_def match_word_def value_states_def Let_def split: if_splits)

lemma value_switch_total: "hs \<in> value_states \<Longrightarrow> value_switch ch c h hs \<noteq> None"
  by (cases hs) (auto simp: value_switch_def length_digit_def value_match_def value_states_def split: prod.split)

lemma value_loop_state:
  assumes "hs \<in> value_states" "hp_state h = s_header_value"
  obtains e p' h' hs' where "value_loop data p h hs = Some (e, p', h', hs')" "hs' \<in> value_states" "hp_state h' = s_header_value"
    "http_errno h' = http_errno h" "\<And>x. e = V_error x \<Longrightarrow> x \<noteq> CHPE_OK"
proof -
  let ?J = "\<lambda>(h' :: http_parser) hs'. hs' \<in> value_states \<and> hp_state h' = s_header_value \<and> http_errno h' = http_errno h"
  have step: "?J h2 hs2" if "?J h1 hs1" "q < length data" "value_switch (data ! q) (LOWER (data ! q)) h1 hs1 = Some (Inr (h2, hs2))"
    for q h1 hs1 h2 hs2 using value_switch_state [OF that(3)] that(1) by simp
  have ends: "case value_loop data p h hs of
      None \<Rightarrow> \<exists>(p :: nat) h hs ch c. ?J h hs \<and> value_switch ch c h hs = None
    | Some (e, p', h', hs') \<Rightarrow>
        (case e of V_end \<Rightarrow> length data \<le> p' \<and> ?J h' hs'
         | V_error x \<Rightarrow> x \<noteq> CHPE_OK \<and> p' < length data \<and> (\<exists>p0 h0 s. p0 \<le> p' \<and> ?J h0 hs' \<and> (h' = h0 \<or> h' = h0\<lparr>header_state := s\<rparr>))
         | _ \<Rightarrow> p' < length data \<and> ?J h' hs')"
    by (rule value_loop_rule [of "\<lambda>_. ?J"], erule step, assumption, assumption) (use assms in simp_all)
  have "value_loop data p h hs \<noteq> None"
  proof
    assume "value_loop data p h hs = None"
    with ends obtain h1 hs1 ch c where "hs1 \<in> value_states" "value_switch ch c h1 hs1 = None" by auto
    then show False using value_switch_total by blast
  qed
  then obtain e p' h' hs' where loop: "value_loop data p h hs = Some (e, p', h', hs')" by auto
  from ends [unfolded loop] show ?thesis by (intro that [OF loop]; cases e) auto
qed

lemma LOWER_space: "LOWER ch = CHR '' '' \<Longrightarrow> ch = NUL \<or> ch = CHR '' ''" "LOWER ch \<noteq> TAB"
proof -
  have 32: "bit (32 :: nat) n \<longleftrightarrow> n = 5" for n using bit_exp_iff [of 5 n, where ?'a = nat] by simp
  have "code (LOWER ch) = take_bit 8 (code ch OR 32)" by (simp add: LOWER_def code_chr take_bit_eq_mod)
  then have bits: "bit (code (LOWER ch)) n \<longleftrightarrow> n < 8 \<and> (bit (code ch) n \<or> n = 5)" for n
    by (auto simp: bit_take_bit_iff bit_or_iff 32)
  from bits [of 5] show "LOWER ch \<noteq> TAB" by auto
  assume "LOWER ch = CHR '' ''"
  then have "code (LOWER ch) = 32" by simp
  then have five: "bit (code ch) n \<Longrightarrow> n < 8 \<Longrightarrow> n = 5" for n using bits [of n] 32 [of n] by metis
  have "take_bit 8 (code ch) = code ch" by (simp add: take_bit_nat_eq_self)
  then have less: "bit (code ch) n \<Longrightarrow> n < 8" for n by (metis bit_take_bit_iff)
  have "code ch = 32" if "bit (code ch) 5" by (rule bit_eqI) (metis five less 32 that)
  moreover have "code ch = 0" if "\<not> bit (code ch) 5" by (rule bit_eqI) (metis five less that bit_0_eq bot_apply bot_bool_def)
  ultimately have "code ch = code (CHR '' '') \<or> code ch = code NUL" by (cases "bit (code ch) 5") simp_all
  then show "ch = NUL \<or> ch = CHR '' ''" unfolding code_inject by blast
qed

lemma method_branch_length: "list_all (\<lambda>((m, i, c), new). i < length (method_strings ! method_num new)) method_branches"
  by code_simp

lemma next_method_length:
  assumes "next_method m i ch = Some new" "ch \<noteq> NUL"
  shows "i < length (method_strings ! new)"
proof (cases "ch = at (method_strings ! m) i")
  case True
  with assms show ?thesis by (auto simp: next_method_def at_def split: if_splits)
next
  case False
  then obtain meth where "map_of method_branches (m, i, ch) = Some meth" "new = method_num meth"
    using assms(1) by (auto simp: next_method_def split: if_splits)
  then show ?thesis using method_branch_length by (auto dest!: map_of_SomeD simp: list_all_iff)
qed

lemma parse_url_char_state:
  assumes "s \<in> url_states \<union> {s_req_spaces_before_url}"
  shows "case parse_url_char s ch um p of Inl e \<Rightarrow> um = None \<and> e = UB ''distance from a null pointer'' | Inr (s', q) \<Rightarrow> s' \<in> insert s_dead url_states"
  using assms by (cases s) (auto simp: parse_url_char_def query_at_def url_states_def split: option.splits)

lemma sane_url: "hp_state h \<in> url_states \<Longrightarrow> sane h"
  by (auto simp: sane_def url_states_def)

lemma has_length_rest:
  assumes "has_length h" "r \<le> content_length h" "content_length h - r \<noteq> 0"
  shows "has_length (h\<lparr>content_length := content_length h - r\<rparr>)"
proof -
  have "content_length h - r \<le> content_length h" using assms(2) by (simp add: word_sub_le)
  with assms show ?thesis by (auto simp: has_length_def ULLONG_MAX_def word_order.extremum_unique)
qed

lemma unhex_bounds: "unhex ch \<noteq> - 1 \<Longrightarrow> 0 \<le> unhex ch \<and> unhex ch < 16"
  by (auto simp: unhex_def digit_val_def is_digit_code split: if_splits)

text \<open>A chunk size never reaches the value that stands for no length.\<close>

lemma chunk_size_bounded:
  assumes "unhex ch \<noteq> - 1"
  shows "word_of_int (unhex ch) \<noteq> ULLONG_MAX"
    "\<not> (ULLONG_MAX - 16) div 16 < n \<Longrightarrow> n * 16 + word_of_int (unhex ch) \<noteq> ULLONG_MAX"
proof -
  obtain d where d: "unhex ch = int d" "d < 16" using unhex_bounds [OF assms] nonneg_int_cases [of "unhex ch"] by auto
  have small: "of_nat k \<noteq> ULLONG_MAX" if "k < 2 ^ 64 - 1" for k
  proof
    assume "of_nat k = ULLONG_MAX"
    then have "(of_nat (k + 1) :: u64) = 0" by (simp add: ULLONG_MAX_def)
    then have "2 ^ 64 dvd k + 1" by (simp only: word_of_nat_eq_0_iff) simp
    with that show False by (auto dest: dvd_imp_le)
  qed
  from small [of d] d show "word_of_int (unhex ch) \<noteq> ULLONG_MAX" by simp
  assume "\<not> (ULLONG_MAX - 16) div 16 < n"
  then have "unat n \<le> 1152921504606846974" by (simp add: ULLONG_MAX_def word_less_nat_alt unat_div)
  moreover have "n * 16 + word_of_int (unhex ch) = of_nat (unat n * 16 + d)" using d by simp
  ultimately show "n * 16 + word_of_int (unhex ch) \<noteq> ULLONG_MAX" using small [of "unat n * 16 + d"] d(2) by simp
qed

subsection \<open>Callbacks that leave the fields\<close>

locale steady_callbacks = tame_callbacks +
  assumes keeps_fields: "cb ev h u = Some (Inr (h', u', rc)) \<Longrightarrow> \<exists>s q e. h' = h\<lparr>hp_state := s, hp_qs_point := q, http_errno := e\<rparr>"
    and fails: "cb ev h u = Some (Inl x) \<Longrightarrow> x = UB ''callback failed''"
begin

lemma callback_cases:
  obtains "cb ev (hp m) (usr m) = Some (Inl (UB ''callback failed''))"
  | h u rc where "cb ev (hp m) (usr m) = Some (Inr (h, u, rc))" "http_errno h \<noteq> CHPE_OK"
  | h u rc where "cb ev (hp m) (usr m) = Some (Inr (h, u, rc))" "http_errno h = CHPE_OK"
      "http_errno (hp m) = CHPE_OK \<longrightarrow> called m (m\<lparr>hp := h, usr := u\<rparr>)"
proof (cases "cb ev (hp m) (usr m)")
  case None
  with returns show ?thesis by blast
next
  case (Some r)
  show ?thesis
  proof (cases r)
    case (Inl x)
    with Some fails that(1) show ?thesis by blast
  next
    case (Inr y)
    obtain h u rc where y: "y = (h, u, rc)" by (cases y)
    note cb = Some [unfolded Inr y]
    have "hp_state h \<in> {hp_state (hp m), s_start_req}" using keeps_state [OF cb] .
    moreover obtain s q e where "h = (hp m)\<lparr>hp_state := s, hp_qs_point := q, http_errno := e\<rparr>" using keeps_fields [OF cb] by blast
    ultimately have "called m (m\<lparr>hp := h, usr := u\<rparr>)" if "http_errno h = CHPE_OK" "http_errno (hp m) = CHPE_OK"
      using that by (auto simp: called_def intro!: exI [of _ s] exI [of _ q])
    with that(2,3) [OF cb] show ?thesis by blast
  qed
qed

lemma safe_notify:
  assumes "http_errno (hp m) = CHPE_OK" "\<And>m2. called m m2 \<Longrightarrow> marks m2 = marks m \<Longrightarrow> safe split (k m2)"
  shows "safe split (CALLBACK_NOTIFY_RET cb ev er m k)"
proof (cases rule: callback_cases [of ev m])
  case 1
  with assms(1) show ?thesis by (simp add: CALLBACK_NOTIFY_RET_def then_do_def safe_end_def)
next
  case (2 h u rc)
  with assms(1) show ?thesis
    by (simp add: CALLBACK_NOTIFY_RET_def then_do_def Let_def safe_end_def SET_ERRNO_def cb_errno_error)
next
  case (3 h u rc)
  with assms show ?thesis
    by (simp add: CALLBACK_NOTIFY_RET_def then_do_def Let_def safe_end_def SET_ERRNO_def cb_errno_error)
qed

lemma safe_data:
  assumes "http_errno (hp m) = CHPE_OK" "\<forall>k. k \<noteq> FOR \<longrightarrow> marks m k = None"
    "\<And>m2. called m m2 \<Longrightarrow> marks m2 = (\<lambda>_. None) \<Longrightarrow> safe split (k m2)"
  shows "safe split (CALLBACK_DATA_RET cb data FOR fin er m k)"
proof (cases "marks m FOR")
  case None
  have "marks m k = None" for k using None assms(2) by (cases "k = FOR") auto
  then have "marks m = (\<lambda>_. None)" by (simp add: fun_eq_iff)
  moreover have "called m m" using assms(1)
    by (auto simp: called_def intro!: exI [of _ "hp_state (hp m)"] exI [of _ "hp_qs_point (hp m)"])
  ultimately show ?thesis using None assms(1,3) by (simp add: CALLBACK_DATA_RET_def)
next
  case (Some a)
  have "safe split (k (m2\<lparr>marks := (marks m2)(FOR := None)\<rparr>))" if "called m m2" "marks m2 = marks m" for m2
  proof (rule assms(3))
    show "called m (m2\<lparr>marks := (marks m2)(FOR := None)\<rparr>)" using that(1) by (auto simp: called_def)
    show "marks (m2\<lparr>marks := (marks m2)(FOR := None)\<rparr>) = (\<lambda>_. None)" using assms(2) that(2) by auto
  qed
  then have "safe split (CALLBACK_NOTIFY_RET cb (mark_cb FOR (take (fin - a) (drop a data))) er m
      (\<lambda>m1. k (m1\<lparr>marks := (marks m1)(FOR := None)\<rparr>)))"
    by (rule safe_notify [OF assms(1)])
  with Some assms(1) show ?thesis by (simp add: CALLBACK_DATA_RET_def)
qed

lemma safe_method:
  assumes "dispatchable split m" "hp_state (hp m) = s_req_method"
  shows "safe split (step_req_method cb ch m)"
proof -
  have none: "marks m = (\<lambda>_. None)" using assms by (intro marks_none) (auto simp: dispatchable_def url_states_def)
  have "orderly split False (upd_hp (\<lambda>h. h\<lparr>hp_index := (hp_index h + 1) mod 32\<rparr>) m2)"
    if "called m1 m2" "marks m2 = (\<lambda>_. None)" "http_errno (hp m1) = CHPE_OK"
      "hp_state (hp m1) = s_req_method \<and> hp_index (hp m1) < length (method_strings ! hp_method (hp m1)) \<or> hp_state (hp m1) = s_req_spaces_before_url"
    for m1 m2 :: "'a machine"
    using that mod_less_eq_dividend [of "Suc (hp_index (hp m1))" 32]
    by (auto simp: called_def orderly_def owned_def placed_def counted_def url_states_def sane_def)
  with assms none next_method_length show ?thesis
    by (auto simp: step_req_method_def Let_def dispatchable_def split: option.split intro!: safe_notify)
qed

lemma safe_field:
  assumes "dispatchable split m" "hp_state (hp m) = s_header_field"
  shows "safe split (step_field cb data m)"
proof -
  have m: "http_errno (hp m) = CHPE_OK" "\<forall>k. k \<noteq> M_header_field \<longrightarrow> marks m k = None"
    using assms marks_only [of m M_header_field] by (simp_all add: dispatchable_def)
  obtain p h where loop: "field_loop data (pos m) (hp m) = Some (p, h)" "header_state h \<in> name_states" "hp_state h = s_header_field"
    "http_errno h = CHPE_OK"
    using field_loop_name [of "hp m" data "pos m"] assms by (auto simp: dispatchable_def sane_def)
  have "orderly split False (m\<lparr>hp := h, pos := q, nread := n\<rparr>)" for q n
    using loop m(2) assms(1) by (auto simp: orderly_def dispatchable_def sane_def owned_def placed_def counted_def assms(2) url_states_def)
  moreover have "safe split (CALLBACK_DATA cb data M_header_field (to_state s_header_value_discard_ws (m\<lparr>hp := h, pos := q, nread := n\<rparr>)) go)" for q n
    using loop(4) m(2) by (intro safe_data) (auto intro!: orderly_called simp: sane_def url_states_def)
  ultimately show ?thesis using loop(1) by (auto simp: step_field_def intro!: safe_count)
qed

lemma safe_value:
  assumes "dispatchable split m" "hp_state (hp m) = s_header_value"
  shows "safe split (step_value cb data m)"
proof -
  have m: "http_errno (hp m) = CHPE_OK" "\<forall>k. k \<noteq> M_header_value \<longrightarrow> marks m k = None" "header_state (hp m) \<in> value_states"
    using assms marks_only [of m M_header_value] by (simp_all add: dispatchable_def sane_def)
  obtain e p h hs where loop: "value_loop data (pos m) (hp m) (header_state (hp m)) = Some (e, p, h, hs)" "hs \<in> value_states"
    "hp_state h = s_header_value" "http_errno h = CHPE_OK" "\<forall>x. e = V_error x \<longrightarrow> x \<noteq> CHPE_OK"
    using value_loop_state [OF m(3) assms(2), of data "pos m"] m(1) by metis
  have done_with: "orderly split again (m2\<lparr>nread := n\<rparr>)" "orderly split again m2"
    if "called m1 m2" "marks m2 = (\<lambda>_. None)" "hp_state (hp m1) = s_header_almost_done" "header_state (hp m1) = hs" for again n m1 and m2 :: "'a machine"
    using that loop(2) by (auto simp: called_def orderly_def sane_def owned_def placed_def counted_def url_states_def)
  have again_set: "upd_hp (\<lambda>h. h\<lparr>header_state := hs\<rparr>) m2 = m2" if "called m1 m2" "header_state (hp m1) = hs" for m1 and m2 :: "'a machine"
    using that by (auto simp: called_def upd_hp_def)
  show ?thesis
  proof (cases e)
    case V_end
    with loop m(2) assms show ?thesis
      by (auto simp: step_value_def orderly_def dispatchable_def sane_def owned_def placed_def counted_def url_states_def intro!: safe_count)
  next
    case V_cr
    have cr: "safe split (CALLBACK_DATA_RET cb data M_header_value fin er m1 (\<lambda>m1. COUNT_HEADER_SIZE v (upd_hp (\<lambda>h. h\<lparr>header_state := hs\<rparr>) m1) go))"
      if "http_errno (hp m1) = CHPE_OK" "marks m1 = marks m" "hp_state (hp m1) = s_header_almost_done" "header_state (hp m1) = hs" for m1 v fin er
      using that m(2) by (intro safe_data safe_count) (simp_all add: again_set done_with)
    show ?thesis using V_cr loop by (auto simp: step_value_def intro!: cr)
  next
    case V_lf
    have lf: "safe split (CALLBACK_DATA_RET cb data M_header_value fin er m1 reexecute)"
      if "http_errno (hp m1) = CHPE_OK" "marks m1 = marks m" "hp_state (hp m1) = s_header_almost_done" "header_state (hp m1) = hs" for m1 fin er
      using that m(2) by (intro safe_data) (simp_all add: done_with)
    show ?thesis using V_lf loop by (auto simp: step_value_def intro!: safe_count lf)
  next
    case (V_error x)
    with loop show ?thesis by (simp add: step_value_def)
  qed
qed

lemma safe_body:
  assumes "dispatchable split m"
  shows "hp_state (hp m) = s_body_identity \<Longrightarrow> safe split (step_body_identity cb data m)"
    "hp_state (hp m) = s_chunk_data \<Longrightarrow> safe split (step_chunk_data data m)"
proof -
  let ?m = "take_body data m" and ?r = "min (content_length (hp m)) (of_nat (length data - pos m))"
  have hp: "hp ?m = (hp m)\<lparr>content_length := content_length (hp m) - ?r\<rparr>" "nread ?m = nread m" "url_start_mark ?m = url_start_mark m"
    "marks ?m = (if marks m M_body = None then (marks m)(M_body := Some (pos m)) else marks m)"
    by (simp_all add: take_body_def Let_def)
  have m: "http_errno (hp m) = CHPE_OK" using assms by (simp add: dispatchable_def)
  have rest: "has_length (hp ?m)" if "has_length (hp m)" "content_length (hp ?m) \<noteq> 0"
    using has_length_rest [of "hp m" ?r] that hp by simp
  have body: "\<forall>k. k \<noteq> M_body \<longrightarrow> marks ?m k = None" if "hp_state (hp m) \<in> {s_body_identity, s_chunk_data}"
    using marks_only [of m M_body] that assms hp by (auto simp: dispatchable_def)
  show "safe split (step_body_identity cb data m)" if s: "hp_state (hp m) = s_body_identity"
  proof -
    have "has_length (hp m)" using assms s by (simp add: dispatchable_def sane_def)
    moreover have "orderly split False ?m" if "content_length (hp ?m) \<noteq> 0"
      using rest that calculation m s hp owned_only [OF body]
      by (auto simp: orderly_def sane_def placed_def counted_def url_states_def)
    moreover have "safe split (CALLBACK_DATA_RET cb data M_body fin er (to_state s_message_done ?m) reexecute)" for fin er
      using body s m hp by (intro safe_data) (auto intro!: orderly_called simp: sane_def url_states_def)
    ultimately show ?thesis by (simp add: step_body_identity_def Let_def)
  qed
  show "safe split (step_chunk_data data m)" if s: "hp_state (hp m) = s_chunk_data"
  proof -
    have c: "F_CHUNKED \<in> hp_flags (hp m)" "has_length (hp m)" using assms s by (simp_all add: dispatchable_def sane_def)
    moreover have "orderly split False ?m" if "content_length (hp ?m) \<noteq> 0"
      using rest that c m s hp owned_only [OF body] by (auto simp: orderly_def sane_def placed_def counted_def url_states_def)
    moreover have "orderly split False (to_state s_chunk_data_almost_done ?m)" if "content_length (hp ?m) = 0"
      using that c m s hp owned_only [of M_body "to_state s_chunk_data_almost_done ?m"] body
      by (auto simp: orderly_def sane_def placed_def counted_def url_states_def)
    ultimately show ?thesis by (simp add: step_chunk_data_def Let_def)
  qed
qed

lemma safe_headers_end:
  assumes "dispatchable split m" "hp_state (hp m) = s_headers_almost_done"
  shows "safe split (step_headers_almost_done cb ch m)"
proof -
  have m: "http_errno (hp m) = CHPE_OK" "marks m = (\<lambda>_. None)"
    using assms marks_none [of m] by (simp_all add: dispatchable_def url_states_def)
  have complete: "safe split (then_do (cb CB_headers_complete h1 u1) (\<lambda>(h2, u2, rc). k h2 u2 rc))"
    if "\<And>h2 u2 rc. hp_state h2 \<in> {hp_state h1, s_start_req} \<Longrightarrow> safe split (k h2 u2 rc)" for h1 u1 k
    using that returns [of CB_headers_complete h1 u1] keeps_state [of CB_headers_complete h1 u1] fails [of CB_headers_complete h1 u1]
    by (auto simp: then_do_def split: option.split sum.split)
  have plain: "orderly split again m2"
    if "http_errno (hp m2) = CHPE_OK" "marks m2 = (\<lambda>_. None)" "hp_state (hp m2) \<in> {s_headers_almost_done, s_headers_done, s_start_req}"
    for again and m2 :: "'a machine"
    using that by (auto simp: orderly_def owned_def placed_def counted_def sane_def url_states_def)
  show ?thesis
    using m assms(2) by (auto simp: step_headers_almost_done_def Let_def called_def safe_end_def SET_ERRNO_def
        intro!: safe_notify complete plain)
qed

lemma safe_url:
  assumes "http_errno (hp m) = CHPE_OK" "\<forall>k. k \<noteq> M_url \<longrightarrow> marks m k = None" "split \<or> url_start_mark m \<noteq> None"
    "hp_state (hp m) \<in> url_states \<union> {s_req_spaces_before_url}"
  shows "safe split (advance_url ch m)"
proof (cases "parse_url_char (hp_state (hp m)) ch (url_start_mark m) (pos m)")
  case (Inl e)
  with parse_url_char_state [OF assms(4), where ch = ch and um = "url_start_mark m" and p = "pos m"] assms(3) show ?thesis by (simp add: advance_url_def)
next
  case (Inr x)
  obtain s q where x: "x = (s, q)" by fastforce
  have "s \<in> insert s_dead url_states"
    using parse_url_char_state [OF assms(4), where ch = ch and um = "url_start_mark m" and p = "pos m"] Inr x by simp
  moreover have "orderly split False (to_state s (upd_hp f m))"
    if "s \<in> url_states" "http_errno (f (hp m)) = CHPE_OK" for f
    using that assms(2,3) owned_only [of M_url "to_state s (upd_hp f m)"]
    by (auto simp: orderly_def placed_def counted_def sane_url) (auto simp: url_states_def)
  ultimately show ?thesis using Inr x assms(1) by (auto simp: advance_url_def Let_def)
qed

lemma safe_value_start:
  assumes "dispatchable split m" "hp_state (hp m) = s_header_value_start \<or> hp_state (hp m) = s_header_value_discard_ws \<and> ch \<noteq> CHR '' ''" "ch \<noteq> NUL"
  shows "safe split (step_value_start data ch m)"
proof -
  have m: "http_errno (hp m) = CHPE_OK" "marks m = (\<lambda>_. None)"
    using assms marks_none [of m] by (auto simp: dispatchable_def url_states_def)
  let ?m = "to_state s_header_value (upd_hp (\<lambda>h. h\<lparr>hp_index := 0\<rparr>) (MARK M_header_value m))"
  have f: "orderly split False (upd_hp f ?m)"
    if "hp_state (f (hp ?m)) = s_header_value" "http_errno (f (hp ?m)) = CHPE_OK" "header_state (f (hp ?m)) \<in> value_states" for f
    using that m owned_only [of M_header_value "upd_hp f ?m"] by (auto simp: orderly_def sane_def placed_def counted_def url_states_def)
  have "upd_hp (\<lambda>h. h) ?m = ?m" by (simp add: upd_hp_def [of "\<lambda>h. h"] del: machine_fields machine_simps)
  then have same: "orderly split False ?m" if "header_state (hp m) \<in> value_states"
    using f [of "\<lambda>h. h"] that m by simp
  have "LOWER ch \<noteq> CHR '' ''" if "header_state (hp m) = h_connection"
    using assms that LOWER_space(1) [of ch] by (auto simp: dispatchable_def sane_def value_states_def)
  with m same show ?thesis
    by (auto simp: step_value_start_def Let_def LOWER_space(2) value_states_def split: header_states.split intro!: f)
qed

lemma safe_url_states:
  assumes "dispatchable split m" "hp_state (hp m) \<in> url_states"
  shows "safe split (step_url cb data ch m)" "safe split (step_url_start ch m)"
proof -
  have m: "http_errno (hp m) = CHPE_OK" "\<forall>k. k \<noteq> M_url \<longrightarrow> marks m k = None" "split \<or> url_start_mark m \<noteq> None"
    using assms marks_only [of m M_url] by (auto simp: dispatchable_def placed_def)
  have "safe split (advance_url ch m)" using m assms(2) by (intro safe_url) auto
  moreover have "safe split (CALLBACK_DATA_RET cb data M_url fin er m1 go)"
    if "http_errno (hp m1) = CHPE_OK" "marks m1 = marks m" "hp_state (hp m1) \<in> {s_req_http_start, s_req_line_almost_done, s_header_field_start}"
    for m1 fin er
    using that m(2) by (intro safe_data) (auto intro!: orderly_called simp: sane_def url_states_def)
  ultimately show "safe split (step_url cb data ch m)" "safe split (step_url_start ch m)"
    using m(1) by (auto simp: step_url_def step_url_start_def)
qed

lemma safe_spaces:
  assumes "dispatchable split m" "hp_state (hp m) = s_req_spaces_before_url"
  shows "safe split (step_spaces_before_url ch m)"
proof -
  have m: "http_errno (hp m) = CHPE_OK" "marks m = (\<lambda>_. None)"
    using assms marks_none [of m] by (auto simp: dispatchable_def url_states_def)
  then show ?thesis using assms(2)
    by (auto simp: step_spaces_before_url_def Let_def orderly_simps intro!: safe_url)
qed

lemma safe_notify_end:
  assumes "http_errno (hp m) = CHPE_OK" "marks m = (\<lambda>_. None)" "sane (hp m)" "hp_state (hp m) \<notin> insert s_chunk_size_start url_states"
  shows "safe split (CALLBACK_NOTIFY_RET cb ev er m go)"
  using assms by (intro safe_notify) (auto intro!: orderly_called)

lemma safe_data_end:
  assumes "http_errno (hp m) = CHPE_OK" "\<forall>k. k \<noteq> FOR \<longrightarrow> marks m k = None" "sane (hp m)" "hp_state (hp m) \<notin> insert s_chunk_size_start url_states"
  shows "safe split (CALLBACK_DATA_RET cb data FOR fin er m go)" "safe split (CALLBACK_DATA_RET cb data FOR fin er m reexecute)"
  using assms by (intro safe_data; auto intro!: orderly_called)+

lemma safe_request_line:
  assumes "dispatchable split m" "marks m = (\<lambda>_. None)"
    "hp_state (hp m) \<in> {s_dead, s_start_req, s_req_http_start, s_req_http_H, s_req_http_HT, s_req_http_HTT, s_req_http_HTTP, s_req_http_I,
      s_req_http_IC, s_req_http_major, s_req_http_dot, s_req_http_minor, s_req_http_end, s_req_line_almost_done}"
  shows "safe split (dispatch_state cb data ch m)"
proof -
  have m: "http_errno (hp m) = CHPE_OK" "sane (hp m)" using assms(1) by (simp_all add: dispatchable_def)
  have names: "1 \<le> length (method_strings ! method_num meth)" for meth by (cases meth) (simp_all add: method_strings_def)
  show ?thesis
  proof (cases "hp_state (hp m) = s_start_req")
    case True
    with m(1) assms(2) names show ?thesis
      by (auto simp: dispatch_state_def step_start_req_def Let_def sane_def url_states_def split: option.split
          intro!: safe_notify_end orderly_unmarked)
  next
    case False
    with m assms(2,3) show ?thesis
      by (auto simp: dispatch_state_def step_dead_def step_http_start_def step_expect_def step_http_major_def step_http_dot_def
          step_http_minor_def step_http_end_def step_line_almost_done_def sane_def url_states_def intro!: orderly_unmarked)
  qed
qed

lemma safe_header:
  assumes "dispatchable split m" "marks m = (\<lambda>_. None)" "ch \<noteq> NUL"
    "hp_state (hp m) \<in> {s_header_field_start, s_header_value_discard_ws, s_header_value_discard_ws_almost_done, s_header_value_discard_lws,
      s_header_value_lws, s_header_almost_done, s_headers_done, s_message_done}"
  shows "safe split (dispatch_state cb data ch m)"
proof -
  have m: "http_errno (hp m) = CHPE_OK" "sane (hp m)" using assms(1) by (simp_all add: dispatchable_def)
  have name: "first_header_state c \<in> name_states" for c by (simp add: first_header_state_def name_states_def)
  have val: "safe split (step_value_start data ch m)" if "hp_state (hp m) = s_header_value_discard_ws" "ch \<noteq> CHR '' ''"
    using safe_value_start [OF assms(1) _ assms(3)] that by blast
  have field: "orderly split False (to_state s_header_field (upd_hp f (MARK M_header_field m)))"
    if "http_errno (f (hp m)) = CHPE_OK" "header_state (f (hp m)) \<in> name_states" for f
    using that assms(2) by (auto simp: orderly_simps)
  from assms(4) consider "hp_state (hp m) = s_header_field_start" | "hp_state (hp m) = s_header_value_discard_lws"
    | "hp_state (hp m) = s_headers_done" | "hp_state (hp m) \<in> {s_header_value_discard_ws, s_header_value_discard_ws_almost_done,
        s_header_value_lws, s_header_almost_done, s_message_done}" by blast
  then show ?thesis
  proof cases
    case 1
    then show ?thesis using m assms(2) name
      by (auto simp: dispatch_state_def step_field_start_def Let_def sane_def url_states_def intro!: orderly_unmarked field)
  next
    case 2
    then show ?thesis using m assms(2)
      by (auto simp: dispatch_state_def step_value_discard_lws_def sane_def url_states_def intro!: orderly_unmarked safe_data_end)
  next
    case 3
    have upgrade: "safe split (CALLBACK_NOTIFY_RET cb CB_message_complete er m1 (\<lambda>m2. Some (Inr (Return (upd_hp (\<lambda>h. h\<lparr>hp_nread := nread m2\<rparr>) m2) (Suc (pos m2))))))"
      if "http_errno (hp m1) = CHPE_OK" "hp_state (hp m1) = s_headers_done" for er m1
      using that by (intro safe_notify) (auto simp: called_def safe_end_def sane_def counted_def)
    have "safe split (step_headers_done cb ch m)"
      unfolding step_headers_done_def Let_def safe_check using 3 m(1) assms(2)
      by (simp add: upgrade safe_notify_end orderly_unmarked sane_def url_states_def has_length_def safe_error SET_ERRNO_def)
    with 3 show ?thesis by (simp add: dispatch_state_def)
  next
    case 4
    then show ?thesis using m assms(2) val
      by (auto simp: dispatch_state_def step_value_discard_ws_def step_value_lws_def step_header_almost_done_def step_message_done_def
          finish_header_def sane_def url_states_def value_states_def intro!: orderly_unmarked safe_notify_end split: header_states.splits)
  qed
qed

lemma safe_chunk:
  assumes "dispatchable split m" "marks m = (\<lambda>_. None)"
    "hp_state (hp m) \<in> {s_chunk_size_start, s_chunk_size, s_chunk_parameters, s_chunk_size_almost_done, s_chunk_data_done}"
  shows "safe split (dispatch_state cb data ch m)"
proof -
  have m: "http_errno (hp m) = CHPE_OK" "sane (hp m)" "counted 1 (hp m) (nread m)" using assms(1) by (simp_all add: dispatchable_def)
  with assms(2,3) chunk_size_bounded show ?thesis
    by (auto simp: dispatch_state_def step_chunk_size_start_def step_chunk_size_def step_chunk_parameters_def step_chunk_size_almost_done_def
        step_chunk_data_done_def Let_def sane_def counted_def url_states_def has_length_def intro!: orderly_unmarked)
qed

lemma safe_dispatch:
  assumes "dispatchable split m" "ch \<noteq> NUL"
  shows "safe split (dispatch_state cb data ch m)"
proof -
  have m: "http_errno (hp m) = CHPE_OK" using assms by (simp add: dispatchable_def)
  show ?thesis
  proof (cases "hp_state (hp m) \<in> url_states")
    case True
    then show ?thesis using safe_url_states [OF assms(1)] by (auto simp: dispatch_state_def url_states_def)
  next
    case False
    consider "hp_state (hp m) \<in> {s_header_field, s_header_value, s_body_identity, s_chunk_data, s_req_method, s_req_spaces_before_url,
        s_headers_almost_done, s_header_value_start}"
      | "hp_state (hp m) = s_body_identity_eof" | "hp_state (hp m) = s_chunk_data_almost_done"
      | "hp_state (hp m) \<notin> {s_header_field, s_header_value, s_body_identity, s_chunk_data, s_req_method, s_req_spaces_before_url,
        s_headers_almost_done, s_header_value_start, s_body_identity_eof, s_chunk_data_almost_done}" by blast
    then show ?thesis
    proof cases
      case 1
      then show ?thesis
        using safe_field [OF assms(1)] safe_value [OF assms(1)] safe_body [OF assms(1)] safe_method [OF assms(1)] safe_spaces [OF assms(1)]
          safe_headers_end [OF assms(1)] safe_value_start [OF assms(1) _ assms(2)]
        by (auto simp: dispatch_state_def)
    next
      case 2
      have "owned (MARK M_body m)" using marks_only [of m M_body] assms(1) 2 by (intro owned_only [of M_body]) (auto simp: dispatchable_def)
      then have "orderly split False (MARK M_body m)" using m 2 by (simp add: orderly_def placed_def counted_def sane_def url_states_def)
      with 2 show ?thesis by (simp add: dispatch_state_def step_body_identity_eof_def)
    next
      case 3
      then show ?thesis using m marks_only [of m M_body] assms(1)
        by (auto simp: dispatch_state_def step_chunk_data_almost_done_def dispatchable_def sane_def url_states_def intro!: safe_data orderly_called)
    next
      case 4
      have none: "marks m = (\<lambda>_. None)" using 4 False assms(1) by (intro marks_none) (auto simp: dispatchable_def)
      from 4 False show ?thesis
        using safe_request_line [OF assms(1) none] safe_header [OF assms(1) none assms(2)] safe_chunk [OF assms(1) none]
        by (cases "hp_state (hp m)") (simp_all add: url_states_def)
    qed
  qed
qed

lemma safe_round:
  assumes "orderly split again m" "pos m < length data" "NUL \<notin> set data"
  shows "safe split (round cb data again m)"
proof -
  have ch: "data ! pos m \<noteq> NUL" using assms(2,3) by (metis nth_mem)
  have "dispatchable split (m\<lparr>nread := nread m + 1\<rparr>)" if "\<not> again"
    using assms(1) that by (auto simp: orderly_def dispatchable_def owned_def placed_def counted_def)
  moreover have "dispatchable split m" if "again \<or> \<not> PARSING_HEADER (hp_state (hp m))"
    using assms(1) that by (auto simp: orderly_def dispatchable_def counted_def PARSING_HEADER_def)
  ultimately show ?thesis using safe_dispatch [OF _ ch] by (auto simp: round_def intro!: safe_count)
qed

lemma safe_leftover:
  assumes "orderly split False m"
  shows "safe split (leftover cb data m)"
proof -
  obtain F where F: "\<forall>k. k \<noteq> F \<longrightarrow> marks m k = None"
    using assms marks_only by (metis orderly_def owned_def)
  have m: "http_errno (hp m) = CHPE_OK" "sane (hp m)" "counted 0 (hp m) (nread m)" using assms by (simp_all add: orderly_def)
  have ret: "safe split (Some (Inr (Return (upd_hp (\<lambda>h. h\<lparr>hp_nread := nread m2\<rparr>) m2) n)))" if "called m m2" for m2 n
    using sane_called [OF that m(2)] that m(3) by (auto simp: safe_end_def sane_nread counted_def called_def)
  have self: "called m m" using m(1)
    by (auto simp: called_def intro!: exI [of _ "hp_state (hp m)"] exI [of _ "hp_qs_point (hp m)"])
  have skip: "CALLBACK_DATA_RET cb data k fin er m2 f = f m2" if "marks m2 k = None" "http_errno (hp m2) = CHPE_OK"
    for k fin er m2 and f :: "'a machine \<Rightarrow> 'a run"
    using that by (simp add: CALLBACK_DATA_RET_def assertion_def)
  have ok: "http_errno (hp m2) = CHPE_OK" if "called m1 m2" for m1 and m2 :: "'a machine" using that by (auto simp: called_def)
  have "length (filter (\<lambda>k. marks m k \<noteq> None) [M_header_field, M_header_value, M_url, M_body]) \<le> 1" using F by (cases F) simp_all
  then show ?thesis unfolding leftover_def safe_check using F m(1)
    by (cases F) (auto simp: skip ok intro!: safe_data ret intro: called_trans)
qed

theorem execute_safe:
  assumes "parser_ok h" "NUL \<notin> set data" "length data < 2 ^ 64"
  shows "\<exists>r. http_parser_execute cb data h u = Some r \<and> (case r of
      Inl e \<Rightarrow> e = UB ''callback failed'' \<or> hp_state h \<in> url_states \<and> e = UB ''distance from a null pointer''
    | Inr (h', u', n) \<Rightarrow> http_errno h' = CHPE_OK \<longrightarrow> parser_ok h')"
proof -
  let ?m = "\<lparr>hp = h, usr = u, pos = 0, nread = hp_nread h, marks = initial_marks (hp_state h), url_start_mark = None\<rparr>"
  consider "http_errno h \<noteq> CHPE_OK" | "http_errno h = CHPE_OK" "data \<noteq> []" | "http_errno h = CHPE_OK" "data = []" by blast
  then show ?thesis
  proof cases
    case 1
    then show ?thesis by (simp add: http_parser_execute_def)
  next
    case 2
    have "owned ?m" by (auto simp: owned_def initial_marks_def url_states_def split: if_splits)
    then have "orderly (hp_state h \<in> url_states) False ?m" using assms(1) 2 by (simp add: orderly_def parser_ok_def placed_def)
    then obtain r where "http_loop cb data False ?m = Some r" "safe_end (hp_state h \<in> url_states) r"
      using loop_rule [of "orderly (hp_state h \<in> url_states)" data "safe_end (hp_state h \<in> url_states)" False ?m] assms(2,3)
        safe_round safe_leftover by auto
    then show ?thesis using 2
      by (cases r) (auto simp: http_parser_execute_def then_do_def safe_end_def parser_ok_def)
  next
    case 3
    have eof: "safe False (CALLBACK_NOTIFY_RET cb CB_message_complete 0 ?m (\<lambda>m1. Some (Inr (Return m1 0))))"
      if "hp_state h = s_body_identity_eof"
      using 3 that by (intro safe_notify) (auto simp: called_def safe_end_def sane_def counted_def)
    have "ended (CALLBACK_NOTIFY_RET cb CB_message_complete 0 ?m (\<lambda>m1. Some (Inr (Return m1 0))))"
      by (rule notify_rule [of ended]) (simp_all add: ended_def)
    with eof 3 show ?thesis
      by (auto simp: http_parser_execute_def then_do_def ended_def follows_def safe_end_def parser_ok_def Let_def SET_ERRNO_def assms(1) [unfolded parser_ok_def]
          split: option.splits sum.splits flow.splits)
  qed
qed

end

sublocale steady_callbacks \<subseteq> typed_callbacks
proof
  fix ev h u h' u' rc
  assume "cb ev h u = Some (Inr (h', u', rc))" "typed h"
  then show "typed h'" using keeps_fields by fastforce
qed

end
