(* ===== verification/Wire.thy ===== *)
theory Wire
  imports Session Http_Message Http_Safe
begin

text \<open>
  The connection on bytes: the callbacks of \<open>crow/parser.h\<close> as the settings of the byte-level parser,
  \<open>HTTPParser::feed\<close> and the read loop on buffers. The parser's client is interpreted on the connection,
  which gives the step from the texts of requests to the events that the connection handles.
\<close>

subsection \<open>Callbacks\<close>

text \<open>What \<open>set_connection_parameters\<close> reads from the parser.\<close>

definition line_of :: "nat \<Rightarrow> nat \<Rightarrow> http_connection_flags set \<Rightarrow> bool \<Rightarrow> request_line" where
  "line_of a b fl up = \<lparr>http_major = a, http_minor = b, f_connection_keep_alive = (F_CONNECTION_KEEP_ALIVE \<in> fl),
     f_connection_close = (F_CONNECTION_CLOSE \<in> fl), f_upgrade = up\<rparr>"

fun http_event :: "callback \<Rightarrow> http_parser \<Rightarrow> event option" where
  "http_event CB_message_begin h = None"
| "http_event CB_method h = Some (OnMethod (hp_method h))"
| "http_event (CB_url t) h = Some (OnUrl t (hp_qs_point h))"
| "http_event (CB_header_field t) h = Some (OnHeaderField t)"
| "http_event (CB_header_value t) h = Some (OnHeaderValue t)"
| "http_event CB_headers_complete h = Some (OnHeadersComplete (line_of (hp_major h) (hp_minor h) (hp_flags h) (hp_upgrade h)))"
| "http_event (CB_body t) h = Some (OnBody t)"
| "http_event CB_message_complete h = Some OnMessageComplete"

text \<open>
  \<open>HTTPParser\<close> derives from \<open>http_parser\<close>, so that \<open>clear\<close> and \<open>done\<close> inside a callback work on the object
  that is being executed: \<open>clear\<close> sends it back to the start of a message, \<open>done\<close> leaves its error.
\<close>

definition parser_after :: "http_parser \<Rightarrow> ('d, 'r) conn \<Rightarrow> http_parser" where
  "parser_after h c =
     (let h1 = (if parse_error c then h\<lparr>http_errno := CHPE_INVALID_EOF_STATE\<rparr> else h)
      in if between_messages c then h1\<lparr>hp_qs_point := 0, hp_state := s_start_req\<rparr> else h1)"

definition conn_callbacks :: "settings \<Rightarrow> ('d, 'r) conn router \<Rightarrow> ('d, 'r) cs callbacks" where
  "conn_callbacks S R ev h cr = (case http_event ev h of
     None \<Rightarrow> Some (Inr (h, cr, 0))
   | Some e \<Rightarrow> then_do (conn_event S R e cr) (\<lambda>cr'. Some (Inr (parser_after h (fst cr'), cr', 0))))"

subsection \<open>Buffers\<close>

type_synonym ('d, 'r) wire_state = "http_parser \<times> ('d, 'r) cs"

definition feed_bytes ::
  "settings \<Rightarrow> ('d, 'r) conn router \<Rightarrow> string \<Rightarrow> ('d, 'r) wire_state \<Rightarrow> (bool \<times> ('d, 'r) wire_state) result option" where
  "feed_bytes S R data st = (case st of (h, cr) \<Rightarrow>
     if message_complete (fst cr) then Some (Inr (True, st))
     else then_do (http_parser_execute (conn_callbacks S R) data h cr) (\<lambda>(h1, cr1, n).
            Some (Inr (http_errno h1 = CHPE_OK \<and> n = length data, h1, cr1))))"

text \<open>\<open>done()\<close> is a feed of nothing; it closes the parser on the two ways out of the loop.\<close>

fun do_read_bytes :: "('d, 's, 'r) deps \<Rightarrow> settings \<Rightarrow> (inputs \<times> string) list \<Rightarrow> ('d, 'r) wire_state \<Rightarrow>
    (next_read \<times> ('d, 'r) wire_state) result option" where
  "do_read_bytes D S [] st = Some (Inr (Reading, st))"
| "do_read_bytes D S ((i, data) # reads) st =
     then_do (app_router D i) (\<lambda>R.
       then_do (feed_bytes S R data st) (\<lambda>(ret, h, c, res).
         if \<not> ret \<or> \<not> is_open c
         then then_do (feed_bytes S R [] (h, c, res)) (\<lambda>(_, h1, c1, res1). Some (Inr (Closed, h1, close_socket c1, res1)))
         else if close_conn c
         then then_do (feed_bytes S R [] (h, c, res)) (\<lambda>(_, h1, c1, res1). Some (Inr (Stopped, h1, c1, res1)))
         else if \<not> need_to_call_after_handlers c then do_read_bytes D S reads (h, c, res)
         else Some (Inr (Waiting, h, c\<lparr>need_to_start_read_after_complete := True\<rparr>, res))))"

subsection \<open>The connection as a client of the parser\<close>

text \<open>In the middle of a message the callbacks leave the parser alone.\<close>

definition mid_message :: "('d, 'r) cs \<Rightarrow> bool" where
  "mid_message cr \<longleftrightarrow> \<not> parse_error (fst cr) \<and> \<not> between_messages (fst cr)"

definition conn_url :: "settings \<Rightarrow> ('d, 'r) conn router \<Rightarrow> string \<Rightarrow> nat \<Rightarrow> ('d, 'r) cs \<Rightarrow> ('d, 'r) cs" where
  "conn_url S R t q cr = handle_url S R (on_url_request t q (fst cr), snd cr)"

definition conn_head :: "nat \<Rightarrow> nat \<Rightarrow> http_connection_flags set \<Rightarrow> bool \<Rightarrow> ('d, 'r) cs \<Rightarrow> ('d, 'r) cs" where
  "conn_head a b fl up cr = handle_header (on_headers_complete_request (line_of a b fl up) (fst cr), snd cr)"

definition conn_end :: "settings \<Rightarrow> ('d, 'r) conn router \<Rightarrow> ('d, 'r) cs \<Rightarrow> ('d, 'r) cs result option" where
  "conn_end S R cr = handle S R ((fst cr)\<lparr>message_complete := True\<rparr>, snd cr)"

lemma conn_event_simps:
  "conn_event S R (OnMethod m) cr = Some (Inr (on_method m (fst cr), snd cr))"
  "conn_event S R (OnUrl t q) cr = Some (Inr (conn_url S R t q cr))"
  "conn_event S R (OnHeaderField t) cr = Some (Inr (on_header_field t (fst cr), snd cr))"
  "conn_event S R (OnHeaderValue t) cr = Some (Inr (on_header_value t (fst cr), snd cr))"
  "conn_event S R (OnHeadersComplete (line_of a b fl up)) cr = Some (Inr (conn_head a b fl up cr))"
  "conn_event S R (OnBody t) cr = Some (Inr (on_body t (fst cr), snd cr))"
  "conn_event S R OnMessageComplete cr = conn_end S R cr"
  by (cases cr; simp add: conn_event_def conn_url_def conn_head_def conn_end_def)+

lemma parser_after_mid: "mid_message cr \<Longrightarrow> parser_after h (fst cr) = h"
  by (simp add: mid_message_def parser_after_def)

lemma callback_mid:
  assumes "http_event ev h = Some e" "conn_event S R e cr = Some (Inr cr')" "mid_message cr'"
  shows "conn_callbacks S R ev h cr = Some (Inr (h, cr', 0))"
  using assms by (simp add: conn_callbacks_def then_do_def parser_after_mid)

lemma on_header_mid [simp]:
  "parse_error (on_header_field t c) = parse_error c" "between_messages (on_header_field t c) = between_messages c"
  "parse_error (on_header_value t c) = parse_error c" "between_messages (on_header_value t c) = between_messages c"
  "parse_error (on_body t c) = parse_error c" "between_messages (on_body t c) = between_messages c"
  "parse_error (on_headers_complete_request l c) = parse_error c"
  "between_messages (on_headers_complete_request l c) = between_messages c"
  by (simp_all add: on_header_field_def on_header_value_def on_body_def on_headers_complete_request_def Let_def)

lemma conn_head_mid: "mid_message cr \<Longrightarrow> mid_message (conn_head a b fl up cr)"
  by (simp add: mid_message_def conn_head_def handle_header_def do_write_sync_def send_def Let_def)

interpretation client: parser_client "conn_callbacks S R" "\<lambda>m cr. (on_method m (fst cr), snd cr)" "conn_url S R"
    "\<lambda>t q cr. mid_message (conn_url S R t q cr)" "\<lambda>t cr. (on_header_field t (fst cr), snd cr)"
    "\<lambda>t cr. (on_header_value t (fst cr), snd cr)" conn_head "\<lambda>t cr. (on_body t (fst cr), snd cr)" "conn_end S R"
    "\<lambda>cr. \<not> parse_error (fst cr)" mid_message "\<lambda>cr. \<not> parse_error (fst cr) \<and> between_messages (fst cr)" for S and R :: "('d, 'r) conn router"
proof
  fix u u' :: "('d, 'r) cs" and h t m a b q fl up
  show "conn_callbacks S R CB_message_begin h u = Some (Inr (h, u, 0))" by (simp add: conn_callbacks_def)
  show "conn_callbacks S R CB_method h u = Some (Inr (h, (on_method (hp_method h) (fst u), snd u), 0))" if "\<not> parse_error (fst u)"
    using that by (intro callback_mid) (simp add: mid_message_def conn_event_simps on_method_def)+
  show "mid_message (on_method m (fst u), snd u)" if "\<not> parse_error (fst u)"
    using that by (simp add: mid_message_def on_method_def)
  show "\<not> parse_error (fst u)" if "mid_message u" using that by (simp add: mid_message_def)
  show "(on_method a (fst (on_method b (fst u), snd u)), snd (on_method b (fst u), snd u)) = (on_method a (fst u), snd u)"
    by (simp add: on_method_def)
  show "conn_callbacks S R (CB_url t) h u = Some (Inr (h, conn_url S R t (hp_qs_point h) u, 0))"
    if "mid_message (conn_url S R t (hp_qs_point h) u)"
    using that by (intro callback_mid) (simp add: conn_event_simps)+
  show "conn_callbacks S R (CB_header_field t) h u = Some (Inr (h, (on_header_field t (fst u), snd u), 0))" if "mid_message u"
    using that by (intro callback_mid) (simp add: conn_event_simps mid_message_def)+
  show "mid_message (on_header_field t (fst u), snd u)" if "mid_message u" using that by (simp add: mid_message_def)
  show "conn_callbacks S R (CB_header_value t) h u = Some (Inr (h, (on_header_value t (fst u), snd u), 0))" if "mid_message u"
    using that by (intro callback_mid) (simp add: conn_event_simps mid_message_def)+
  show "mid_message (on_header_value t (fst u), snd u)" if "mid_message u" using that by (simp add: mid_message_def)
  show "conn_callbacks S R CB_headers_complete h u =
      Some (Inr (h, conn_head (hp_major h) (hp_minor h) (hp_flags h) (hp_upgrade h) u, 0))" if "mid_message u"
    using conn_head_mid [OF that] by (intro callback_mid) (simp add: conn_event_simps)+
  show "mid_message (conn_head a b fl up u)" if "mid_message u" using that by (rule conn_head_mid)
  show "conn_callbacks S R (CB_body t) h u = Some (Inr (h, (on_body t (fst u), snd u), 0))" if "mid_message u"
    using that by (intro callback_mid) (simp add: conn_event_simps mid_message_def)+
  show "mid_message (on_body t (fst u), snd u)" if "mid_message u" using that by (simp add: mid_message_def)
  show "conn_callbacks S R CB_message_complete h u = Some (Inr (h\<lparr>hp_qs_point := 0, hp_state := s_start_req\<rparr>, u', 0))"
    if "conn_end S R u = Some (Inr u')" "\<not> parse_error (fst u') \<and> between_messages (fst u')"
    using that by (simp add: conn_callbacks_def conn_event_simps then_do_def parser_after_def)
qed simp_all

subsection \<open>From texts to events\<close>

text \<open>The message that a request spells, with the query position \<open>q\<close>.\<close>

definition message_at :: "nat \<Rightarrow> wire \<Rightarrow> message" where
  "message_at q r = \<lparr>m_method = w_method r, m_url = w_url r, m_qs = q, m_headers = w_headers r,
     m_line = line_of (w_major r) (w_minor r) (header_flags (w_headers r)) False, m_body = w_body r\<rparr>"

definition message_of :: "wire \<Rightarrow> message" where
  "message_of r = message_at (query_point (w_url r)) r"

lemma message_at_simps [simp]:
  "m_method (message_at q r) = w_method r" "m_url (message_at q r) = w_url r" "m_qs (message_at q r) = q"
  "m_headers (message_at q r) = w_headers r" "m_body (message_at q r) = w_body r"
  by (simp_all add: message_at_def)

lemma header_fold:
  "fold (\<lambda>(f, v) a. (on_header_value v (on_header_field f (fst a)), snd a)) hs cr = (all_headers hs (fst cr), snd cr)"
  by (induction hs arbitrary: cr) (auto simp: all_headers_def header_events_def)

lemma run_events_step:
  assumes "\<not> parse_error (fst cr)" "conn_event S R e cr = Some (Inr cr')"
  shows "run_events S R (e # es) cr = run_events S R es cr'"
  using assms by (simp add: then_do_def)

lemma all_headers_between [simp]: "between_messages (all_headers hs c) = between_messages c"
  by (induction hs arbitrary: c) (simp_all add: all_headers_def header_events_def split_beta)

lemma events_taken:
  assumes cr: "\<not> parse_error (fst cr)" and url: "mid_message (conn_url S R (w_url r) q (on_method (w_method r) (fst cr), snd cr))"
  shows "run_events S R (message_events (message_at q r)) cr = conn_end S R (client.request_taken S R r q cr)"
proof -
  let ?a = "(on_method (w_method r) (fst cr), snd cr)"
  let ?b = "conn_url S R (w_url r) q ?a"
  let ?c = "(all_headers (w_headers r) (fst ?b), snd ?b)"
  let ?d = "conn_head (w_major r) (w_minor r) (header_flags (w_headers r)) False ?c"
  let ?l = "OnHeadersComplete (line_of (w_major r) (w_minor r) (header_flags (w_headers r)) False)"
  let ?tail = "(if w_body r = [] then [] else [OnBody (w_body r)]) @ [OnMessageComplete]"
  have c: "\<not> parse_error (fst ?a)" "\<not> parse_error (fst ?b)" "\<not> parse_error (fst ?c)" "\<not> parse_error (fst ?d)"
    using cr url conn_head_mid [of ?c] by (simp_all add: on_method_def mid_message_def)
  have "run_events S R (message_events (message_at q r)) cr =
      run_events S R (OnMethod (w_method r) # OnUrl (w_url r) q # header_pair_events (w_headers r) @ ?l # ?tail) cr"
    by (simp add: message_events_def message_at_def)
  also have "\<dots> = run_events S R (header_pair_events (w_headers r) @ ?l # ?tail) ?b"
    using run_events_step [OF cr conn_event_simps(1)] run_events_step [OF c(1) conn_event_simps(2)] by simp
  also have "\<dots> = run_events S R (?l # ?tail) ?c"
    using run_header_events [of "fst ?b" S R "w_headers r" "?l # ?tail" "snd ?b"] c(2) by simp
  also have "\<dots> = run_events S R ?tail ?d" using run_events_step [OF c(3) conn_event_simps(5)] .
  also have "\<dots> = conn_end S R (client.request_taken S R r q cr)"
    using run_message_end [of "fst ?d" S R "w_body r" "snd ?d"] c(4)
    by (cases "w_body r = []") (simp_all add: client.request_taken_def header_fold conn_end_def on_body_empty Let_def)
  finally show ?thesis .
qed

text \<open>A request that the events handle is taken by the callbacks, its url as soon as the line is read.\<close>

lemma url_taken:
  assumes "w_method r < internal_method_count" "idle (c, res)" "app_router D i = Some (Inr R)"
    "endpoint_of (w_method r) (url (message_start (message_at q r))) = Some ep"
  shows "mid_message (conn_url S R (w_url r) q (on_method (w_method r) c, res))"
proof -
  have "conn_url S R (w_url r) q (on_method (w_method r) c, res) = (line_received R (message_at q r) c, res)"
    using url_routed [OF assms(3) _ _ assms(2), of "message_at q r" ep S] assms(1,4) by (simp add: conn_url_def)
  then show ?thesis using assms(2) by (simp add: mid_message_def idle_def)
qed

lemma request_takes:
  assumes r: "wire_ok r" and c: "idle (c, res)"
    and app: "app_router D i = Some (Inr R)" "endpoint_of (w_method r) (url (message_start (message_at q r))) = Some ep"
    and fed: "feed S R (message_events (message_at q r)) (c, res) = Some (Inr (c', res'))" "idle (c', res')"
  shows "mid_message (conn_url S R (w_url r) q (on_method (w_method r) c, res))"
    "conn_end S R (client.request_taken S R r q (c, res)) = Some (Inr (c', res'))" "\<not> parse_error c'" "between_messages c'"
proof -
  have c': "\<not> parse_error c" "\<not> message_complete c" using c idle_fields(5) [OF c] by (simp_all add: idle_def)
  show mid: "mid_message (conn_url S R (w_url r) q (on_method (w_method r) c, res))"
    using r by (intro url_taken [OF _ c app]) (simp add: wire_ok_def)
  show "conn_end S R (client.request_taken S R r q (c, res)) = Some (Inr (c', res'))"
    using events_taken [of "(c, res)" S R r q] mid c' fed(1) by (simp add: feed_def)
  show "\<not> parse_error c'" "between_messages c'" using fed(2) idle_fields(6) [OF fed(2)] by (simp_all add: idle_def)
qed

text \<open>The text of requests that the callbacks take, one after the other, is fed as a whole.\<close>

lemma requests_fed:
  assumes takes: "client.takes S R None 0 rs (c, res) (c', res')" and len: "length (concat (map wire_text rs)) \<le> max_header_size"
    and st: "waiting h" "hp_nread h = 0" "idle (c, res)"
  obtains h' where "waiting h'" "hp_nread h' = 0" "feed_bytes S R (concat (map wire_text rs)) (h, c, res) = Some (Inr (True, h', c', res'))"
proof -
  have c: "\<not> parse_error c" "\<not> message_complete c" using st(3) idle_fields(5) [OF st(3)] by (simp_all add: idle_def)
  obtain h' where "waiting h'" "hp_nread h' = 0" "http_parser_execute (conn_callbacks S R) (concat (map wire_text rs)) h (c, res) =
      Some (Inr (h', (c', res'), length (concat (map wire_text rs))))"
    using client.buffer_taken [OF takes st(1,2) _ len] c(1) by auto
  then show thesis by (intro that [of h']) (simp_all add: feed_bytes_def then_do_def c(2) waiting_def)
qed

subsection \<open>Sessions\<close>

text \<open>A request that fits into the buffer of the connection.\<close>

definition one_read :: "wire \<Rightarrow> bool" where
  "one_read r \<longleftrightarrow> wire_ok r \<and> length (wire_text r) \<le> 4096"

lemma do_read_bytes_answers:
  "waiting h \<Longrightarrow> hp_nread h = 0 \<Longrightarrow> idle (c, res) \<Longrightarrow> list_all (\<lambda>(i, r). one_read r \<and> answerable D S (i, message_of r)) rs \<Longrightarrow>
   list_all (\<lambda>(i, r). admitted (message_request S (message_of r)) (svc_in c)) rs \<Longrightarrow>
   \<exists>h' c' res' out. do_read_bytes D S (map (\<lambda>(i, r). (i, wire_text r)) rs) (h, c, res) = Some (Inr (Reading, h', c', res')) \<and>
     waiting h' \<and> idle (c', res') \<and> exchanges D S (map (\<lambda>(i, r). (i, message_of r)) rs) (c_world c) out (c_world c') \<and> sent c' = sent c @ out"
proof (induction rs arbitrary: h c res)
  case Nil
  then show ?case by (auto intro: exchanges.none)
next
  case (Cons x rs)
  obtain i r where x: "x = (i, r)" by (cases x)
  have q: "answerable D S (i, message_of r)" "admitted (message_request S (message_of r)) (svc_in c)" "one_read r"
    using Cons.prems(4,5) by (simp_all add: x)
  obtain R c1 res1 t where s: "app_router D i = Some (Inr R)" "feed S R (message_events (message_of r)) (c, res) = Some (Inr (c1, res1))"
    "idle (c1, res1)" "\<not> close_conn c1" "\<forall>req. admitted req (svc_in c1) \<longleftrightarrow> admitted req (svc_in c)" "sent c1 = sent c @ t"
    "\<forall>qs out w'. exchanges D S qs (c_world c1) out w' \<longrightarrow> exchanges D S ((i, message_of r) # qs) (c_world c) (t @ out) w'"
    using message_exchanged [OF Cons.prems(3) q(1,2)] .
  obtain ep where ep: "endpoint_of (w_method r) (url (message_start (message_of r))) = Some ep"
    using q(1) by (auto simp: answerable_def message_of_def)
  have "client.takes S R None 0 [r] (c, res) (c1, res1)"
    using request_takes [OF _ Cons.prems(3) s(1) _ _ s(3), of r "query_point (w_url r)" ep S] q(3) ep s(2)
    by (intro client.takes.takes_one [where ?u1.0 = "(c1, res1)"] client.takes.takes_none) (simp_all add: one_read_def message_of_def)
  then obtain h1 where h1: "waiting h1" "hp_nread h1 = 0" "feed_bytes S R (wire_text r) (h, c, res) = Some (Inr (True, h1, c1, res1))"
    using requests_fed [OF _ _ Cons.prems(1-3), of S R "[r]" c1 res1] q(3) by (auto simp: one_read_def max_header_size_def)
  have open1: "is_open c1" "\<not> need_to_call_after_handlers c1" using s(3) by (simp_all add: idle_def)
  obtain h' c' res' out where rest: "do_read_bytes D S (map (\<lambda>(i, r). (i, wire_text r)) rs) (h1, c1, res1) = Some (Inr (Reading, h', c', res'))"
    "waiting h'" "idle (c', res')" "exchanges D S (map (\<lambda>(i, r). (i, message_of r)) rs) (c_world c1) out (c_world c')" "sent c' = sent c1 @ out"
    using Cons.IH [OF h1(1,2) s(3)] Cons.prems(4,5) s(5) by auto
  moreover have "do_read_bytes D S (map (\<lambda>(i, r). (i, wire_text r)) (x # rs)) (h, c, res) = Some (Inr (Reading, h', c', res'))"
    using rest(1) by (simp add: x then_do_def s(1,4) h1(3) open1)
  ultimately show ?case using s(6,7) by (auto simp: x)
qed

text \<open>
  Two requests in one buffer. The query of the second one is looked for at a position that counts
  from the url of the first one.
\<close>

lemma pipelined_answers:
  assumes r: "wire_ok r1" "wire_ok r2" "length (wire_text r1 @ wire_text r2) \<le> 4096"
    and st: "waiting h" "hp_nread h = 0" "idle (c, res)"
    and q: "q = stored_query (Some (url_start r1 0)) (url_start r2 (length (wire_text r1))) (w_url r2)"
    and m: "answerable D S (i, message_of r1)" "answerable D S (i, message_at q r2)"
      "admitted (message_request S (message_of r1)) (svc_in c)" "admitted (message_request S (message_at q r2)) (svc_in c)"
  shows "\<exists>h' c' res' out. do_read_bytes D S [(i, wire_text r1 @ wire_text r2)] (h, c, res) = Some (Inr (Reading, h', c', res')) \<and>
    idle (c', res') \<and> exchanges D S [(i, message_of r1), (i, message_at q r2)] (c_world c) out (c_world c') \<and> sent c' = sent c @ out"
proof -
  obtain R c1 res1 t where s: "app_router D i = Some (Inr R)" "feed S R (message_events (message_of r1)) (c, res) = Some (Inr (c1, res1))"
    "idle (c1, res1)" "\<forall>req. admitted req (svc_in c1) \<longleftrightarrow> admitted req (svc_in c)" "sent c1 = sent c @ t"
    "\<forall>qs out w'. exchanges D S qs (c_world c1) out w' \<longrightarrow> exchanges D S ((i, message_of r1) # qs) (c_world c) (t @ out) w'"
    using message_exchanged [OF st(3) m(1,3)] by metis
  obtain R' c2 res2 t2 where s2: "app_router D i = Some (Inr R')" "feed S R' (message_events (message_at q r2)) (c1, res1) = Some (Inr (c2, res2))"
    "idle (c2, res2)" "\<not> close_conn c2" "sent c2 = sent c1 @ t2"
    "\<forall>qs out w'. exchanges D S qs (c_world c2) out w' \<longrightarrow> exchanges D S ((i, message_at q r2) # qs) (c_world c1) (t2 @ out) w'"
    using message_exchanged [OF s(3) m(2)] s(4) m(4) by metis
  have R: "R' = R" using s(1) s2(1) by simp
  obtain ep1 ep2 where ep: "endpoint_of (w_method r1) (url (message_start (message_of r1))) = Some ep1"
    "endpoint_of (w_method r2) (url (message_start (message_at q r2))) = Some ep2"
    using m(1,2) by (auto simp: answerable_def message_of_def)
  note t1 = request_takes [OF r(1) st(3) s(1) ep(1) [unfolded message_of_def] s(2) [unfolded message_of_def] s(3)]
  note t2 = request_takes [OF r(2) s(3) s(1) ep(2) s2(2) [unfolded R] s2(3)]
  have second: "client.takes S R (Some (url_start r1 0)) (length (wire_text r1)) [r2] (c1, res1) (c2, res2)"
    using t2 r(2) by (intro client.takes.takes_one [where ?u1.0 = "(c2, res2)"] client.takes.takes_none) (simp_all add: q)
  have "client.takes S R None 0 [r1, r2] (c, res) (c2, res2)"
    by (rule client.takes.takes_one [where ?u1.0 = "(c1, res1)"]) (use t1 r(1) second in \<open>simp_all add: url_origin_def\<close>)
  then obtain h' where "feed_bytes S R (wire_text r1 @ wire_text r2) (h, c, res) = Some (Inr (True, h', c2, res2))"
    using requests_fed [OF _ _ st, of S R "[r1, r2]" c2 res2] r(3) by (auto simp: max_header_size_def)
  moreover have "exchanges D S [(i, message_of r1), (i, message_at q r2)] (c_world c) (t @ t2 @ []) (c_world c2)"
    using s(6) s2(6) exchanges.none by blast
  moreover have "is_open c2" "\<not> need_to_call_after_handlers c2" using s2(3) by (simp_all add: idle_def)
  ultimately show ?thesis using s(1,5) s2(3-5) by (auto simp: then_do_def)
qed

subsection \<open>The loop of the parser\<close>

lemma conn_callbacks_parser:
  assumes "conn_callbacks S R ev h cr = Some (Inr (h', cr', rc))"
  shows "h' = h \<or> h' = parser_after h (fst cr')"
  using assms by (auto simp: conn_callbacks_def then_do_def split: option.splits sum.splits)

interpretation watched: steady_callbacks "observed (conn_callbacks S R)" for S and R :: "('d, 'r) conn router"
proof
  fix ev h h' rc x and u u' :: "('d, 'r) cs"
  show "observed (conn_callbacks S R) ev h u \<noteq> None" by (rule observed_returns)
  show "x = UB ''callback failed''" if "observed (conn_callbacks S R) ev h u = Some (Inl x)" using that by (rule observed_Inl)
  assume "observed (conn_callbacks S R) ev h u = Some (Inr (h', u', rc))"
  then have h': "h' = h \<or> h' = parser_after h (fst u')" using conn_callbacks_parser by (simp add: observed_Inr)
  then show "hp_state h' \<in> {hp_state h, s_start_req}" by (auto simp: parser_after_def Let_def)
  from h' have "h' = h\<lparr>hp_state := hp_state h', hp_qs_point := hp_qs_point h', http_errno := http_errno h'\<rparr>"
    by (cases h) (auto simp: parser_after_def Let_def)
  then show "\<exists>s q e. h' = h\<lparr>hp_state := s, hp_qs_point := q, http_errno := e\<rparr>" by blast
qed

text \<open>A zero byte in a connection header ends the process, for every request line that the router knows.\<close>

lemma zero_byte_aborts:
  assumes st: "waiting h" "hp_nread h = 0" "idle (c, res)" and r: "wire_ok r" "length (line_text r) + 13 \<le> max_header_size"
    and app: "app_router D i = Some (Inr R)" "endpoint_of (w_method r) (url (message_start (message_of r))) = Some ep"
    and x: "IS_HEADER_CHAR x" "x \<noteq> CR" "x \<noteq> LF"
  shows "do_read_bytes D S ((i, line_text r @ ''Connection:'' @ [NUL, x] @ rest) # reads) (h, c, res) = Some (Inl (UB ''assertion failed''))"
proof -
  let ?data = "line_text r @ ''Connection:'' @ [NUL, x] @ rest"
  have c: "\<not> parse_error c" "\<not> message_complete c" using st(3) idle_fields(5) [OF st(3)] by (simp_all add: idle_def)
  have "mid_message (conn_url S R (w_url r) (stored_query None (url_start r 0) (w_url r)) (on_method (w_method r) c, res))"
    using r(1) app(2) by (intro url_taken [OF _ st(3) app(1)]) (simp_all add: wire_ok_def message_of_def)
  moreover have "has ?data 0 (line_text r @ ''Connection:'' @ [NUL, x])" by (simp add: has_def)
  ultimately have "http_parser_execute (conn_callbacks S R) ?data h (c, res) = Some (Inl (UB ''assertion failed''))"
    using st(1,2) c(1) r x by (intro client.nul_in_connection) simp_all
  then show ?thesis using app(1) c(2) by (simp add: feed_bytes_def then_do_def)
qed

end
