(* ===== verification/Task_Timer.thy ===== *)
theory Task_Timer
  imports Prelude
begin

text \<open>
  \<open>task_timer.h\<close>: tasks that run once after a number of ticks. The \<open>std::map\<close> of tasks is an association list in
  the order of its keys, a point of time of the steady clock is an \<open>int\<close> of nanoseconds, and a task is a
  value that a function \<open>run\<close> turns into its effect. The loop over the tasks calls them while it iterates
  over the map; the tasks of the connections do not touch the timer, so \<open>run\<close> has no access to it. What a
  user of the timer relies on is the locale \<open>timer_contract\<close>.
\<close>

subsection \<open>Ordered maps\<close>

text \<open>\<open>std::map::insert\<close> leaves an entry that is there already; \<open>erase\<close> of an absent key does nothing.\<close>

fun map_insert :: "'k :: linorder \<Rightarrow> 'v \<Rightarrow> ('k \<times> 'v) list \<Rightarrow> ('k \<times> 'v) list" where
  "map_insert k v [] = [(k, v)]"
| "map_insert k v ((j, u) # m) =
     (if k < j then (k, v) # (j, u) # m else if k = j then (j, u) # m else (j, u) # map_insert k v m)"

definition map_erase :: "'k \<Rightarrow> ('k \<times> 'v) list \<Rightarrow> ('k \<times> 'v) list" where
  "map_erase k m = filter (\<lambda>(j, _). j \<noteq> k) m"

definition ordered :: "('k :: linorder \<times> 'v) list \<Rightarrow> bool" where
  "ordered m \<longleftrightarrow> sorted_wrt (<) (map fst m)"

lemma ordered_simps [simp]:
  "ordered []"
  "ordered ((k, v) # m) \<longleftrightarrow> (\<forall>j \<in> fst ` set m. k < j) \<and> ordered m"
  by (simp_all add: ordered_def)

lemma ordered_filter: "ordered m \<Longrightarrow> ordered (filter P m)"
  by (induction m) auto

lemma map_insert_keys: "fst ` set (map_insert k v m) = insert k (fst ` set m)"
  by (induction k v m rule: map_insert.induct) (auto simp: insert_commute simp del: image_iff)

lemma map_insert_ordered: "ordered m \<Longrightarrow> ordered (map_insert k v m)"
  by (induction k v m rule: map_insert.induct) (auto simp: map_insert_keys simp del: image_iff dest: less_trans)

lemma map_insert_new: "map_of m k = None \<Longrightarrow> map_of (map_insert k v m) = (map_of m)(k \<mapsto> v)"
  by (induction k v m rule: map_insert.induct) (simp_all add: fun_upd_twist split: if_splits)

lemma map_insert_old: "ordered m \<Longrightarrow> map_of m k = Some u \<Longrightarrow> map_insert k v m = m"
  by (induction k v m rule: map_insert.induct)
    (force split: if_splits dest: map_of_SomeD)+

lemma map_erase_lookup: "map_of (map_erase k m) = (map_of m)(k := None)"
  by (induction m) (auto simp: map_erase_def fun_eq_iff)

lemma map_erase_ordered: "ordered m \<Longrightarrow> ordered (map_erase k m)"
  by (simp add: map_erase_def ordered_filter)

lemma map_erase_all: "fold map_erase ks m = filter (\<lambda>(j, _). j \<notin> set ks) m"
  by (induction ks arbitrary: m) (auto simp: map_erase_def intro: filter_cong)

lemma ordered_distinct: "ordered m \<Longrightarrow> distinct (map fst m)"
  by (induction m) force+

lemma ordered_filter_lookup:
  "ordered m \<Longrightarrow> map_of (filter (\<lambda>(k, v). P v) m) k = (case map_of m k of None \<Rightarrow> None | Some v \<Rightarrow> if P v then Some v else None)"
  by (induction m) (fastforce simp: map_of_eq_None_iff image_iff split: option.splits dest: map_of_SomeD)+

subsection \<open>The timer\<close>

record 'a task_timer =
  tasks :: "(u64 \<times> int \<times> 'a) list"
  highest_id :: u64
  tick_length_ms :: int
  default_timeout :: "8 word"
  expiry :: int

definition ms :: int where "ms = 1000000"

definition new_timer :: "int \<Rightarrow> int \<Rightarrow> 'a task_timer" where
  "new_timer now tick =
     \<lparr>tasks = [], highest_id = 0, tick_length_ms = tick, default_timeout = 5, expiry = now + tick * ms\<rparr>"

definition cancel :: "u64 \<Rightarrow> 'a task_timer \<Rightarrow> 'a task_timer" where
  "cancel k t = t\<lparr>tasks := map_erase k (tasks t)\<rparr>"

definition schedule_after :: "int \<Rightarrow> 'a \<Rightarrow> 8 word \<Rightarrow> 'a task_timer \<Rightarrow> u64 \<times> 'a task_timer" where
  "schedule_after now a timeout t =
     (let k = highest_id t + 1
      in (k, t\<lparr>highest_id := k,
               tasks := map_insert k (now + uint timeout * tick_length_ms t * ms, a) (tasks t)\<rparr>))"

definition set_default_timeout :: "8 word \<Rightarrow> 'a task_timer \<Rightarrow> 'a task_timer" where
  "set_default_timeout timeout t = t\<lparr>default_timeout := timeout\<rparr>"

definition get_default_timeout :: "'a task_timer \<Rightarrow> 8 word" where
  "get_default_timeout t = default_timeout t"

definition get_tick_length :: "'a task_timer \<Rightarrow> int" where
  "get_tick_length t = tick_length_ms t"

definition schedule :: "int \<Rightarrow> 'a \<Rightarrow> 'a task_timer \<Rightarrow> u64 \<times> 'a task_timer" where
  "schedule now a t = schedule_after now a (get_default_timeout t) t"

fun call_due :: "('a \<Rightarrow> 'w \<Rightarrow> 'w) \<Rightarrow> int \<Rightarrow> (u64 \<times> int \<times> 'a) list \<Rightarrow> u64 list \<Rightarrow> 'w \<Rightarrow> u64 list \<times> 'w" where
  "call_due run now [] finished w = (finished, w)"
| "call_due run now ((k, d, a) # ts) finished w =
     (if d < now then call_due run now ts (finished @ [k]) (run a w) else call_due run now ts finished w)"

definition process_tasks :: "('a \<Rightarrow> 'w \<Rightarrow> 'w) \<Rightarrow> int \<Rightarrow> 'a task_timer \<Rightarrow> 'w \<Rightarrow> 'a task_timer \<times> 'w" where
  "process_tasks run now t w =
     (let (finished, w') = call_due run now (tasks t) [] w;
          rest = fold map_erase finished (tasks t)
      in (t\<lparr>tasks := rest, highest_id := (if rest = [] then 0 else highest_id t)\<rparr>, w'))"

text \<open>The handler of a tick gets an error when the timer is destroyed; then it does not wait again.\<close>

definition tick_handler :: "('a \<Rightarrow> 'w \<Rightarrow> 'w) \<Rightarrow> bool \<Rightarrow> int \<Rightarrow> 'a task_timer \<Rightarrow> 'w \<Rightarrow> 'a task_timer \<times> 'w" where
  "tick_handler run ec now t w =
     (if ec then (t, w)
      else let (t', w') = process_tasks run now t w in (t'\<lparr>expiry := now + tick_length_ms t' * ms\<rparr>, w'))"

subsection \<open>Invariant and behaviour\<close>

text \<open>The identifiers in the map lie between one and the highest one that was issued.\<close>

definition timer_ok :: "'a task_timer \<Rightarrow> bool" where
  "timer_ok t \<longleftrightarrow> ordered (tasks t) \<and> (\<forall>k \<in> fst ` set (tasks t). 0 < k \<and> k \<le> highest_id t)"

definition scheduled :: "'a task_timer \<Rightarrow> u64 \<Rightarrow> (int \<times> 'a) option" where
  "scheduled t = map_of (tasks t)"

definition issued :: "'a task_timer \<Rightarrow> nat" where
  "issued t = unat (highest_id t)"

definition delay :: "'a task_timer \<Rightarrow> int" where
  "delay t = uint (default_timeout t) * tick_length_ms t * ms"

definition due :: "int \<Rightarrow> 'a task_timer \<Rightarrow> 'a list" where
  "due now t = map (snd \<circ> snd) (filter (\<lambda>(k, d, a). d < now) (tasks t))"

lemma new_timer_ok: "timer_ok (new_timer now tick)" "scheduled (new_timer now tick) = Map.empty"
  by (simp_all add: timer_ok_def new_timer_def scheduled_def)

lemma call_due_eq:
  "call_due run now ts finished w =
     (finished @ map fst (filter (\<lambda>(k, d, a). d < now) ts),
      fold run (map (snd \<circ> snd) (filter (\<lambda>(k, d, a). d < now) ts)) w)"
  by (induction run now ts finished w rule: call_due.induct) auto

lemma finished_erased:
  assumes "ordered ts"
  shows "fold map_erase (map fst (filter (\<lambda>x. P (snd x)) ts)) ts = filter (\<lambda>x. \<not> P (snd x)) ts"
  unfolding map_erase_all
proof (rule filter_cong [OF refl])
  fix x assume x: "x \<in> set ts"
  have same: "y = x" if "y \<in> set ts" "fst y = fst x" for y
    using that x ordered_distinct [OF assms] by (metis eq_key_imp_eq_value prod.collapse)
  have "fst x \<in> set (map fst (filter (\<lambda>x. P (snd x)) ts)) \<longleftrightarrow> P (snd x)"
  proof
    assume "fst x \<in> set (map fst (filter (\<lambda>x. P (snd x)) ts))"
    then obtain y where "y \<in> set ts" "P (snd y)" "fst y = fst x" by force
    with same [of y] show "P (snd x)" by simp
  qed (use x in force)
  then show "(case x of (j, _) \<Rightarrow> j \<notin> set (map fst (filter (\<lambda>x. P (snd x)) ts))) = (\<not> P (snd x))"
    by (simp add: case_prod_beta)
qed

lemma process_tasks_eq:
  assumes "timer_ok t"
  shows "process_tasks run now t w =
    (let rest = filter (\<lambda>(k, d, a). \<not> d < now) (tasks t)
     in (t\<lparr>tasks := rest, highest_id := (if rest = [] then 0 else highest_id t)\<rparr>, fold run (due now t) w))"
  using assms finished_erased [of "tasks t" "\<lambda>v. fst v < now"]
  by (simp add: process_tasks_def call_due_eq due_def timer_ok_def case_prod_unfold del: map_map)

lemma timer_ok_zero: "timer_ok t \<Longrightarrow> scheduled t 0 = None"
  by (force simp: timer_ok_def scheduled_def map_of_eq_None_iff)

lemma cancel_ok: "timer_ok t \<Longrightarrow> timer_ok (cancel k t)"
  by (auto simp: timer_ok_def cancel_def map_erase_ordered) (auto simp: map_erase_def)

lemma cancel_scheduled: "scheduled (cancel k t) = (scheduled t)(k := None)"
  by (simp add: scheduled_def cancel_def map_erase_lookup)

lemma cancel_issued: "issued (cancel k t) = issued t" "delay (cancel k t) = delay t"
  by (simp_all add: issued_def delay_def cancel_def)

lemma schedule_result:
  assumes "timer_ok t" "Suc (issued t) < 2 ^ 64" "schedule now a t = (k, t')"
  shows "0 < k \<and> scheduled t k = None" "scheduled t' = (scheduled t)(k \<mapsto> (now + delay t, a))"
    "timer_ok t'" "issued t' = Suc (issued t)"
proof -
  have k: "k = highest_id t + 1" and t': "t' = t\<lparr>highest_id := k, tasks := map_insert k (now + delay t, a) (tasks t)\<rparr>"
    using assms(3) by (auto simp: schedule_def schedule_after_def get_default_timeout_def delay_def Let_def)
  have u: "unat k = Suc (issued t)"
    using assms(2) by (simp add: k issued_def unat_word_ariths)
  then have pos: "0 < k" by (simp add: word_gt_0 unat_gt_0 flip: unat_gt_0)
  have below: "j < k" if "j \<in> fst ` set (tasks t)" for j
    using assms(1) that u by (auto simp: timer_ok_def issued_def word_less_nat_alt word_le_nat_alt)
  then have new: "scheduled t k = None"
    by (auto simp: scheduled_def map_of_eq_None_iff)
  with pos show "0 < k \<and> scheduled t k = None" ..
  from new show "scheduled t' = (scheduled t)(k \<mapsto> (now + delay t, a))"
    by (simp add: scheduled_def t' map_insert_new)
  show "timer_ok t'"
    using assms(1) pos below by (auto simp: timer_ok_def t' map_insert_ordered map_insert_keys simp del: image_iff dest: less_imp_le)
  show "issued t' = Suc (issued t)" using u by (simp add: issued_def t')
qed

lemma process_ok: "timer_ok t \<Longrightarrow> timer_ok (fst (process_tasks run now t w))"
  by (auto simp: process_tasks_eq Let_def timer_ok_def ordered_filter filter_empty_conv)

lemma process_scheduled:
  "timer_ok t \<Longrightarrow> scheduled (fst (process_tasks run now t w)) k =
    (case scheduled t k of None \<Rightarrow> None | Some (d, a) \<Rightarrow> if d < now then None else Some (d, a))"
  using ordered_filter_lookup [of "tasks t" "\<lambda>v. \<not> fst v < now"]
  by (auto simp: process_tasks_eq Let_def scheduled_def timer_ok_def case_prod_unfold split: option.splits)

lemma process_runs: "timer_ok t \<Longrightarrow> snd (process_tasks run now t w) = fold run (due now t) w"
  by (simp add: process_tasks_eq Let_def)

lemma due_scheduled:
  assumes "timer_ok t"
  shows "set (due now t) = {a. \<exists>k d. scheduled t k = Some (d, a) \<and> d < now}"
proof -
  have "scheduled t k = Some v \<longleftrightarrow> (k, v) \<in> set (tasks t)" for k v
    using assms ordered_distinct [of "tasks t"] by (simp add: scheduled_def timer_ok_def)
  then show ?thesis by (force simp: due_def)
qed

lemma process_issued: "timer_ok t \<Longrightarrow> issued (fst (process_tasks run now t w)) \<le> issued t"
  by (simp add: process_tasks_eq Let_def issued_def)

subsection \<open>The contract\<close>

text \<open>
  What the users of a timer rely on: an identifier names at most one task, a new one is not in use, a
  cancellation removes the task it names and no other, and a tick runs exactly the tasks that are due
  and forgets them. Identifiers have 64 bits; as long as fewer
  have been issued since the last reset they do not wrap around.
\<close>

locale timer_contract =
  fixes invar :: "'t \<Rightarrow> bool"
    and content :: "'t \<Rightarrow> u64 \<Rightarrow> (int \<times> 'a) option"
    and used :: "'t \<Rightarrow> nat"
    and wait :: "'t \<Rightarrow> int"
    and add :: "int \<Rightarrow> 'a \<Rightarrow> 't \<Rightarrow> u64 \<times> 't"
    and remove :: "u64 \<Rightarrow> 't \<Rightarrow> 't"
    and tick :: "('a \<Rightarrow> 'w \<Rightarrow> 'w) \<Rightarrow> int \<Rightarrow> 't \<Rightarrow> 'w \<Rightarrow> 't \<times> 'w"
    and calls :: "int \<Rightarrow> 't \<Rightarrow> 'a list"
  assumes no_zero: "invar t \<Longrightarrow> content t 0 = None"
    and remove_invar: "invar t \<Longrightarrow> invar (remove k t)"
    and remove_content: "content (remove k t) = (content t)(k := None)"
    and remove_used: "used (remove k t) = used t"
    and add_invar: "invar t \<Longrightarrow> Suc (used t) < 2 ^ 64 \<Longrightarrow> add now a t = (k, t') \<Longrightarrow> invar t'"
    and add_fresh: "invar t \<Longrightarrow> Suc (used t) < 2 ^ 64 \<Longrightarrow> add now a t = (k, t') \<Longrightarrow> 0 < k \<and> content t k = None"
    and add_content: "invar t \<Longrightarrow> Suc (used t) < 2 ^ 64 \<Longrightarrow> add now a t = (k, t') \<Longrightarrow>
      content t' = (content t)(k \<mapsto> (now + wait t, a))"
    and add_used: "invar t \<Longrightarrow> Suc (used t) < 2 ^ 64 \<Longrightarrow> add now a t = (k, t') \<Longrightarrow> used t' = Suc (used t)"
    and tick_invar: "invar t \<Longrightarrow> invar (fst (tick run now t w))"
    and tick_content: "invar t \<Longrightarrow> content (fst (tick run now t w)) k =
      (case content t k of None \<Rightarrow> None | Some (d, a) \<Rightarrow> if d < now then None else Some (d, a))"
    and tick_used: "invar t \<Longrightarrow> used (fst (tick run now t w)) \<le> used t"
    and tick_calls: "invar t \<Longrightarrow> snd (tick run now t w) = fold run (calls now t) w"
    and calls_due: "invar t \<Longrightarrow> set (calls now t) = {a. \<exists>k d. content t k = Some (d, a) \<and> d < now}"
begin

text \<open>A task waits for its time, is called by the first tick after it, and is gone then.\<close>

lemma waits: "invar t \<Longrightarrow> content t k = Some (d, a) \<Longrightarrow> now \<le> d \<Longrightarrow> content (fst (tick run now t w)) k = Some (d, a)"
  by (simp add: tick_content)

lemma fires:
  "invar t \<Longrightarrow> content t k = Some (d, a) \<Longrightarrow> d < now \<Longrightarrow>
    a \<in> set (calls now t) \<and> content (fst (tick run now t w)) k = None"
  by (auto simp: tick_content calls_due)

lemma never_early: "invar t \<Longrightarrow> (\<And>k d. content t k = Some (d, a) \<Longrightarrow> now \<le> d) \<Longrightarrow> a \<notin> set (calls now t)"
  by (force simp: calls_due)

text \<open>Starting a task anew: the old identifier is cancelled, the task gets a new one.\<close>

lemma restart:
  assumes "invar t" "Suc (used t) < 2 ^ 64" "add now a (remove j t) = (k, t')" "wait (remove j t) = wait t"
  shows "invar t'" "used t' = Suc (used t)" "0 < k"
    "content t' = (content t)(j := None, k \<mapsto> (now + wait t, a))" "content t k = None \<or> k = j"
  using add_invar [OF remove_invar [OF assms(1)] _ assms(3)] add_used [OF remove_invar [OF assms(1)] _ assms(3)]
    add_fresh [OF remove_invar [OF assms(1)] _ assms(3)] add_content [OF remove_invar [OF assms(1)] _ assms(3)] assms(2,4)
  by (auto simp: remove_used remove_content split: if_splits)

end

interpretation timers: timer_contract timer_ok scheduled issued delay schedule cancel process_tasks due
  by unfold_locales
    (fact timer_ok_zero cancel_ok cancel_scheduled cancel_issued schedule_result process_ok process_scheduled
      process_issued process_runs due_scheduled)+

end
