(* ===== verification/Deadlines.thy ===== *)
theory Deadlines
  imports Task_Timer Connection
begin

text \<open>
  The connections of one event loop and the timer they share (\<open>http_connection.h\<close>, \<open>http_server.h\<close>). A
  handler runs to its end before the next one starts, so an execution is a sequence of handler calls
  with their times: ticks of the timer, new connections, ends of reads. What a read brings is an
  argument of its handler (\<open>read_result\<close>); \<open>Connection\<close> and \<open>Wire\<close> compute it from the bytes. The clock does not
  advance while a handler runs.
\<close>

subsection \<open>State and handlers\<close>

text \<open>
  Where the read loop of a connection stands: accepted and posted to the loop, a read is under way, the
  response is completed later, the loop is over, or its handler left with an exception.
\<close>

datatype read_phase = Posted | Pending | Suspended | Over | Broken

record link =
  task_id :: u64
  socket_open :: bool
  reading :: read_phase

record io_loop =
  timer :: "nat task_timer"
  links :: "link list"
  clock :: int

definition new_link :: link where
  "new_link = \<lparr>task_id = 0, socket_open = True, reading = Posted\<rparr>"

definition update_link :: "nat \<Rightarrow> (link \<Rightarrow> link) \<Rightarrow> io_loop \<Rightarrow> io_loop" where
  "update_link i f s = s\<lparr>links := (links s)[i := f (links s ! i)]\<rparr>"

definition close_link :: "link \<Rightarrow> link" where
  "close_link l = l\<lparr>socket_open := False\<rparr>"

definition enter :: "read_phase \<Rightarrow> link \<Rightarrow> link" where
  "enter p l = l\<lparr>reading := p\<rparr>"

definition cancel_deadline_timer :: "nat \<Rightarrow> io_loop \<Rightarrow> io_loop" where
  "cancel_deadline_timer i s = s\<lparr>timer := cancel (task_id (links s ! i)) (timer s)\<rparr>"

text \<open>The task of a deadline: close the socket when it is open.\<close>

definition deadline_task :: "nat \<Rightarrow> link list \<Rightarrow> link list" where
  "deadline_task i ls = (if \<not> socket_open (ls ! i) then ls else ls[i := close_link (ls ! i)])"

definition start_deadline :: "nat \<Rightarrow> io_loop \<Rightarrow> io_loop" where
  "start_deadline i s =
     (let s1 = cancel_deadline_timer i s;
          (k, t) = schedule (clock s) i (timer s1)
      in update_link i (\<lambda>l. l\<lparr>task_id := k\<rparr>) (s1\<lparr>timer := t\<rparr>))"

definition start_link :: "nat \<Rightarrow> io_loop \<Rightarrow> io_loop" where
  "start_link i s = update_link i (enter Pending) (start_deadline i s)"

text \<open>
  The end of a read: an error, or bytes for the parser. \<open>Thrown n\<close>: \<open>handle\<close> (and the writing of a long
  response) cancelled the deadline \<open>n\<close> times, and an exception left the handler of the read.
  \<open>Fed n ret still close later\<close>: after \<open>n\<close> cancellations \<open>feed\<close> returned \<open>ret\<close>, the socket was \<open>still\<close> not closed by
  a write, and \<open>close_connection_\<close> and \<open>need_to_call_after_handlers_\<close> have the values \<open>close\<close> and \<open>later\<close>.
\<close>

datatype read_result = Failed | Thrown nat | Fed nat bool bool bool bool

definition after_messages :: "nat \<Rightarrow> nat \<Rightarrow> io_loop \<Rightarrow> io_loop" where
  "after_messages n i s = (cancel_deadline_timer i ^^ n) s"

definition finish_read :: "nat \<Rightarrow> io_loop \<Rightarrow> io_loop" where
  "finish_read i s = update_link i (enter Over) (cancel_deadline_timer i s)"

definition read_handler :: "nat \<Rightarrow> read_result \<Rightarrow> io_loop \<Rightarrow> io_loop" where
  "read_handler i r s =
     (case r of
        Failed \<Rightarrow> update_link i close_link (finish_read i s)
      | Thrown n \<Rightarrow> update_link i (enter Broken) (after_messages n i s)
      | Fed n ret still close later \<Rightarrow>
          let s1 = after_messages n i s;
              s2 = (if still then s1 else update_link i close_link s1)
          in if \<not> (ret \<and> socket_open (links s2 ! i)) then update_link i close_link (finish_read i s2)
             else if close then finish_read i s2
             else if \<not> later then start_link i s2
             else update_link i (enter Suspended) s2)"

text \<open>
  A response that is completed later: a short one is written and the read loop goes on, before a long
  one the deadline is cancelled and nothing is read any more.
\<close>

definition complete_later :: "nat \<Rightarrow> bool \<Rightarrow> io_loop \<Rightarrow> io_loop" where
  "complete_later i long s = (if long then finish_read i s else start_link i s)"

datatype io_event = Tick | Connect | Begin nat | ReadEnd nat read_result | Complete nat bool

definition ready :: "read_phase \<Rightarrow> nat \<Rightarrow> io_loop \<Rightarrow> bool" where
  "ready p i s \<longleftrightarrow> i < length (links s) \<and> reading (links s ! i) = p"

text \<open>An event at a time; the steady clock does not go back, and a tick does not come early.\<close>

definition tick_event :: "io_loop \<Rightarrow> io_loop" where
  "tick_event s =
     (let (t, ls) = tick_handler deadline_task False (clock s) (timer s) (links s) in s\<lparr>timer := t, links := ls\<rparr>)"

definition handle_event :: "io_event \<Rightarrow> io_loop \<Rightarrow> io_loop option" where
  "handle_event e s =
     (case e of
        Tick \<Rightarrow> if clock s < expiry (timer s) then None else Some (tick_event s)
      | Connect \<Rightarrow> Some (s\<lparr>links := links s @ [new_link]\<rparr>)
      | Begin i \<Rightarrow> if ready Posted i s then Some (start_link i s) else None
      | ReadEnd i r \<Rightarrow> if ready Pending i s then Some (read_handler i r s) else None
      | Complete i long \<Rightarrow> if ready Suspended i s then Some (complete_later i long s) else None)"

fun io_step :: "int \<times> io_event \<Rightarrow> io_loop \<Rightarrow> io_loop option" where
  "io_step (now, e) s = (if now < clock s then None else handle_event e (s\<lparr>clock := now\<rparr>))"

fun io_run :: "(int \<times> io_event) list \<Rightarrow> io_loop \<Rightarrow> io_loop option" where
  "io_run [] s = Some s"
| "io_run (e # es) s = (case io_step e s of None \<Rightarrow> None | Some s' \<Rightarrow> io_run es s')"

text \<open>A worker of the server: a timer with ticks of a second and the time-out of the application.\<close>

definition new_loop :: "int \<Rightarrow> 8 word \<Rightarrow> io_loop" where
  "new_loop now timeout =
     \<lparr>timer = set_default_timeout timeout (new_timer now 1000), links = [], clock = now\<rparr>"

definition of_link :: "io_event \<Rightarrow> nat option" where
  "of_link e = (case e of Begin i \<Rightarrow> Some i | ReadEnd i r \<Rightarrow> Some i | Complete i l \<Rightarrow> Some i | _ \<Rightarrow> None)"

subsection \<open>Agreement with the read loop of a connection\<close>

definition phase_after :: "next_read \<Rightarrow> read_phase" where
  "phase_after n = (case n of Closed \<Rightarrow> Over | Stopped \<Rightarrow> Over | Reading \<Rightarrow> Pending | Waiting \<Rightarrow> Suspended)"

lemma update_link_simps [simp]:
  "timer (update_link i f s) = timer s"
  "length (links (update_link i f s)) = length (links s)"
  "clock (update_link i f s) = clock s"
  "i < length (links s) \<Longrightarrow> links (update_link i f s) ! i = f (links s ! i)"
  "j \<noteq> i \<Longrightarrow> links (update_link i f s) ! j = links s ! j"
  by (simp_all add: update_link_def)

lemma link_simps [simp]:
  "reading (enter p l) = p" "task_id (enter p l) = task_id l" "socket_open (enter p l) = socket_open l"
  "reading (close_link l) = reading l" "task_id (close_link l) = task_id l" "\<not> socket_open (close_link l)"
  by (simp_all add: enter_def close_link_def)

lemma cancel_deadline_simps [simp]:
  "links (cancel_deadline_timer i s) = links s" "clock (cancel_deadline_timer i s) = clock s"
  by (simp_all add: cancel_deadline_timer_def)

lemma after_messages_simps [simp]:
  "links (after_messages n i s) = links s" "clock (after_messages n i s) = clock s"
  by (induction n) (simp_all add: after_messages_def)

lemma finish_read_simps [simp]:
  "length (links (finish_read i s)) = length (links s)" "clock (finish_read i s) = clock s"
  by (simp_all add: finish_read_def)

lemma start_link_simps [simp]:
  "length (links (start_link i s)) = length (links s)" "clock (start_link i s) = clock s"
  by (simp_all add: start_link_def start_deadline_def case_prod_beta Let_def)

lemma start_link_reading: "i < length (links s) \<Longrightarrow> reading (links (start_link i s) ! i) = Pending"
  by (simp add: start_link_def start_deadline_def case_prod_beta Let_def)

text \<open>The branches of the handler are those of \<open>after_read\<close>, on the connection that \<open>feed\<close> leaves.\<close>

lemma read_handler_agrees:
  assumes "i < length (links s)" "socket_open (links s ! i)"
  shows "reading (links (read_handler i (Fed n (\<not> parse_error c) (is_open c) (close_conn c) (need_to_call_after_handlers c)) s) ! i)
    = phase_after (fst (after_read c))"
  using assms
  by (simp add: read_handler_def after_read_def phase_after_def start_link_reading finish_read_def Let_def)

subsection \<open>The invariant of the loop\<close>

definition TICK :: int where "TICK = 1000 * ms"

text \<open>
  Every task of the timer belongs to a connection that knows its identifier, so a connection has at
  most one; its read loop has begun and is not over; and the deadline is neither further away than the
  time-out nor was it over at the last tick.
\<close>

definition task_ok :: "io_loop \<Rightarrow> u64 \<Rightarrow> int \<Rightarrow> nat \<Rightarrow> bool" where
  "task_ok s k d i \<longleftrightarrow> i < length (links s) \<and> task_id (links s ! i) = k \<and> reading (links s ! i) \<notin> {Posted, Over} \<and>
     expiry (timer s) - TICK \<le> d \<and> d \<le> clock s + delay (timer s)"

definition timing_ok :: "8 word \<Rightarrow> io_loop \<Rightarrow> bool" where
  "timing_ok timeout s \<longleftrightarrow> default_timeout (timer s) = timeout \<and> tick_length_ms (timer s) = 1000 \<and>
     expiry (timer s) - TICK \<le> clock s"

definition loop_ok :: "8 word \<Rightarrow> nat \<Rightarrow> io_loop \<Rightarrow> bool" where
  "loop_ok timeout n s \<longleftrightarrow> timer_ok (timer s) \<and> issued (timer s) \<le> n \<and> timing_ok timeout s \<and>
     (\<forall>k d i. scheduled (timer s) k = Some (d, i) \<longrightarrow> task_ok s k d i)"

lemma one_task:
  "loop_ok timeout n s \<Longrightarrow> scheduled (timer s) k = Some (d, i) \<Longrightarrow> scheduled (timer s) k' = Some (d', i) \<Longrightarrow> k' = k \<and> d' = d"
  unfolding loop_ok_def task_ok_def by (metis option.inject prod.inject)

lemma new_loop_ok: "loop_ok timeout 0 (new_loop now timeout)"
  by (simp add: loop_ok_def new_loop_def set_default_timeout_def new_timer_def timer_ok_def issued_def
      timing_ok_def scheduled_def TICK_def ms_def)

lemma advance_ok: "loop_ok timeout n s \<Longrightarrow> clock s \<le> now \<Longrightarrow> loop_ok timeout n (s\<lparr>clock := now\<rparr>)"
  by (force simp: loop_ok_def timing_ok_def task_ok_def)

lemma cancel_fields [simp]:
  "default_timeout (cancel k t) = default_timeout t" "tick_length_ms (cancel k t) = tick_length_ms t"
  "expiry (cancel k t) = expiry t"
  by (simp_all add: cancel_def)

lemma cancel_deadline_ok: "loop_ok timeout n s \<Longrightarrow> loop_ok timeout n (cancel_deadline_timer i s)"
  by (auto simp: loop_ok_def cancel_deadline_timer_def timing_ok_def task_ok_def cancel_ok cancel_issued
      cancel_scheduled split: if_splits)

lemma after_messages_ok: "loop_ok timeout n s \<Longrightarrow> loop_ok timeout n (after_messages m i s)"
  by (induction m) (simp_all add: after_messages_def cancel_deadline_ok)

lemma update_link_task:
  "task_ok s k d j \<Longrightarrow> (\<And>l. task_id (f l) = task_id l) \<Longrightarrow> (j = i \<Longrightarrow> reading (f (links s ! i)) \<notin> {Posted, Over}) \<Longrightarrow>
    task_ok (update_link i f s) k d j"
  by (cases "j = i") (simp_all add: task_ok_def)

lemma update_link_ok:
  assumes "loop_ok timeout n s" "\<And>l. task_id (f l) = task_id l"
    "\<And>k d. scheduled (timer s) k = Some (d, i) \<Longrightarrow> reading (f (links s ! i)) \<notin> {Posted, Over}"
  shows "loop_ok timeout n (update_link i f s)"
  using assms unfolding loop_ok_def timing_ok_def by (auto intro!: update_link_task)

lemma close_link_ok: "loop_ok timeout n s \<Longrightarrow> loop_ok timeout n (update_link i close_link s)"
  by (rule update_link_ok) (auto simp: loop_ok_def task_ok_def)

lemma enter_ok: "loop_ok timeout n s \<Longrightarrow> p \<notin> {Posted, Over} \<Longrightarrow> loop_ok timeout n (update_link i (enter p) s)"
  by (rule update_link_ok) auto

lemma finish_read_ok:
  assumes "loop_ok timeout n s"
  shows "loop_ok timeout n (finish_read i s)"
  unfolding finish_read_def
  using assms
  by (intro update_link_ok cancel_deadline_ok)
    (auto simp: loop_ok_def task_ok_def cancel_deadline_timer_def cancel_scheduled split: if_splits)

text \<open>A new deadline: the old task of the connection is gone, the new one has an identifier of its own.\<close>

lemma start_deadline_result:
  assumes ok: "loop_ok timeout n s" and n: "Suc n < 2 ^ 64" and i: "i < length (links s)"
  obtains k t where "start_deadline i s = s\<lparr>timer := t, links := (links s)[i := (links s ! i)\<lparr>task_id := k\<rparr>]\<rparr>"
    "timer_ok t" "issued t = Suc (issued (timer s))" "0 < k"
    "scheduled t = (scheduled (timer s))(task_id (links s ! i) := None, k \<mapsto> (clock s + delay (timer s), i))"
    "scheduled (timer s) k = None \<or> k = task_id (links s ! i)"
    "default_timeout t = default_timeout (timer s)" "tick_length_ms t = tick_length_ms (timer s)" "expiry t = expiry (timer s)"
proof -
  let ?j = "task_id (links s ! i)"
  obtain k t where sch: "schedule (clock s) i (cancel ?j (timer s)) = (k, t)" by fastforce
  have room: "timer_ok (timer s)" "Suc (issued (timer s)) < 2 ^ 64" using ok n by (auto simp: loop_ok_def)
  note r = timers.restart [OF room sch cancel_issued(2)]
  have "start_deadline i s = s\<lparr>timer := t, links := (links s)[i := (links s ! i)\<lparr>task_id := k\<rparr>]\<rparr>"
    using sch by (simp add: start_deadline_def cancel_deadline_timer_def update_link_def)
  moreover have "default_timeout t = default_timeout (timer s)" "tick_length_ms t = tick_length_ms (timer s)" "expiry t = expiry (timer s)"
    using sch by (auto simp: schedule_def schedule_after_def Let_def)
  ultimately show thesis using r by (intro that)
qed

lemma start_link_ok:
  assumes ok: "loop_ok timeout n s" and n: "Suc n < 2 ^ 64" and i: "i < length (links s)"
  shows "loop_ok timeout (Suc n) (start_link i s)"
proof -
  obtain k t where s': "start_deadline i s = s\<lparr>timer := t, links := (links s)[i := (links s ! i)\<lparr>task_id := k\<rparr>]\<rparr>"
    and t: "timer_ok t" "issued t = Suc (issued (timer s))"
    and sch: "scheduled t = (scheduled (timer s))(task_id (links s ! i) := None, k \<mapsto> (clock s + delay (timer s), i))"
    and fields: "default_timeout t = default_timeout (timer s)" "tick_length_ms t = tick_length_ms (timer s)" "expiry t = expiry (timer s)"
    by (rule start_deadline_result [OF ok n i]) blast
  have delay: "delay t = delay (timer s)" by (simp add: delay_def fields)
  have "0 \<le> delay (timer s)" using ok by (simp add: loop_ok_def timing_ok_def delay_def ms_def)
  then have "task_ok (start_link i s) j d h" if "scheduled t j = Some (d, h)" for j d h
    using that ok i unfolding sch loop_ok_def timing_ok_def
    by (cases "h = i")
      (auto simp: start_link_def s' task_ok_def fields delay update_link_def split: if_splits)
  then show ?thesis
    using ok t by (auto simp: loop_ok_def timing_ok_def start_link_def s' fields)
qed

lemma read_handler_ok:
  assumes "loop_ok timeout n s" "Suc n < 2 ^ 64" "i < length (links s)"
  shows "loop_ok timeout (Suc n) (read_handler i r s)"
proof -
  have "loop_ok timeout (Suc n) s" using assms(1) by (simp add: loop_ok_def)
  with assms show ?thesis
    by (auto simp: read_handler_def Let_def split: read_result.splits
        intro!: close_link_ok finish_read_ok enter_ok after_messages_ok start_link_ok)
qed

lemma tick_fields:
  assumes "tick_handler deadline_task False now t ls = (t', ls')"
  shows "t' = (fst (process_tasks deadline_task now t ls))\<lparr>expiry := now + tick_length_ms t * ms\<rparr>"
    "ls' = snd (process_tasks deadline_task now t ls)"
    "default_timeout t' = default_timeout t" "tick_length_ms t' = tick_length_ms t" "expiry t' = now + tick_length_ms t * ms"
  using assms by (auto simp: tick_handler_def process_tasks_def case_prod_beta Let_def)

lemma expiry_irrelevant [simp]:
  "timer_ok (t\<lparr>expiry := x\<rparr>) = timer_ok t" "scheduled (t\<lparr>expiry := x\<rparr>) = scheduled t"
  "issued (t\<lparr>expiry := x\<rparr>) = issued t" "delay (t\<lparr>expiry := x\<rparr>) = delay t"
  by (simp_all add: timer_ok_def scheduled_def issued_def delay_def)

lemma deadline_task_nth:
  "length (deadline_task i ls) = length ls"
  "j < length ls \<Longrightarrow> deadline_task i ls ! j = (if j = i then close_link (ls ! j) else ls ! j)"
  by (auto simp: deadline_task_def nth_list_update close_link_def)

lemma deadline_tasks:
  "length (fold deadline_task is ls) = length ls"
  "j < length ls \<Longrightarrow> fold deadline_task is ls ! j = (if j \<in> set is then close_link (ls ! j) else ls ! j)"
  by (induction "is" arbitrary: ls) (auto simp: deadline_task_nth close_link_def)

text \<open>A tick closes exactly the connections whose deadline is over, and takes their tasks out.\<close>

lemma tick_event_result:
  assumes "timer_ok (timer s)"
  shows "timer_ok (timer (tick_event s))" "issued (timer (tick_event s)) \<le> issued (timer s)"
    "scheduled (timer (tick_event s)) k =
       (case scheduled (timer s) k of None \<Rightarrow> None | Some (d, i) \<Rightarrow> if d < clock s then None else Some (d, i))"
    "links (tick_event s) = fold deadline_task (due (clock s) (timer s)) (links s)"
    "clock (tick_event s) = clock s" "default_timeout (timer (tick_event s)) = default_timeout (timer s)"
    "tick_length_ms (timer (tick_event s)) = tick_length_ms (timer s)"
    "expiry (timer (tick_event s)) = clock s + tick_length_ms (timer s) * ms"
proof -
  obtain t ls where h: "tick_handler deadline_task False (clock s) (timer s) (links s) = (t, ls)" by fastforce
  note f = tick_fields [OF h] and e = tick_event_def [of s, unfolded h Let_def, simplified]
  show "timer_ok (timer (tick_event s))" "issued (timer (tick_event s)) \<le> issued (timer s)"
    "scheduled (timer (tick_event s)) k =
       (case scheduled (timer s) k of None \<Rightarrow> None | Some (d, i) \<Rightarrow> if d < clock s then None else Some (d, i))"
    "links (tick_event s) = fold deadline_task (due (clock s) (timer s)) (links s)"
    using assms by (simp_all add: e f(1,2) timers.tick_invar timers.tick_used timers.tick_content timers.tick_calls)
  show "clock (tick_event s) = clock s" "default_timeout (timer (tick_event s)) = default_timeout (timer s)"
    "tick_length_ms (timer (tick_event s)) = tick_length_ms (timer s)"
    "expiry (timer (tick_event s)) = clock s + tick_length_ms (timer s) * ms"
    by (simp_all add: e f(3-5))
qed

lemma tick_event_ok:
  assumes "loop_ok timeout n s"
  shows "loop_ok timeout n (tick_event s)"
proof -
  have ok: "timer_ok (timer s)" using assms by (simp add: loop_ok_def)
  note r = tick_event_result [OF ok]
  have "task_ok (tick_event s) k d i" if "scheduled (timer (tick_event s)) k = Some (d, i)" for k d i
  proof -
    from that have "scheduled (timer s) k = Some (d, i)" "\<not> d < clock s"
      by (auto simp: r(3) split: option.splits if_splits)
    with assms show ?thesis
      by (auto simp: loop_ok_def timing_ok_def task_ok_def r(4-8) deadline_tasks delay_def TICK_def)
  qed
  with assms r(1,2) show ?thesis
    by (auto simp: loop_ok_def timing_ok_def r(5-8) TICK_def)
qed

lemma connect_ok: "loop_ok timeout n s \<Longrightarrow> loop_ok timeout n (s\<lparr>links := links s @ [new_link]\<rparr>)"
  by (force simp: loop_ok_def timing_ok_def task_ok_def nth_append)

lemma handle_event_ok:
  assumes "loop_ok timeout n s" "Suc n < 2 ^ 64" "handle_event e s = Some s'"
  shows "loop_ok timeout (Suc n) s'"
proof -
  have "loop_ok timeout (Suc n) s" using assms(1) by (simp add: loop_ok_def)
  with assms show ?thesis
    by (auto simp: handle_event_def ready_def complete_later_def split: io_event.splits if_splits
        intro!: tick_event_ok connect_ok read_handler_ok start_link_ok finish_read_ok)
qed

lemma io_step_ok:
  "loop_ok timeout n s \<Longrightarrow> Suc n < 2 ^ 64 \<Longrightarrow> io_step e s = Some s' \<Longrightarrow> loop_ok timeout (Suc n) s'"
  by (cases e) (auto split: if_splits elim!: handle_event_ok [rotated 2] intro!: advance_ok)

lemma io_run_ok:
  "loop_ok timeout n s \<Longrightarrow> n + length es < 2 ^ 64 - 1 \<Longrightarrow> io_run es s = Some s' \<Longrightarrow> loop_ok timeout (n + length es) s'"
proof (induction es arbitrary: n s)
  case (Cons e es)
  then obtain s1 where s1: "io_step e s = Some s1" "io_run es s1 = Some s'" by (auto split: option.splits)
  have "loop_ok timeout (Suc n) s1" using Cons.prems s1(1) by (intro io_step_ok) auto
  from Cons.IH [OF this _ s1(2)] Cons.prems(2) show ?case by simp
qed simp

subsection \<open>Every read has its deadline\<close>

lemma start_link_deadline:
  assumes "loop_ok timeout n s" "Suc n < 2 ^ 64" "i < length (links s)"
  shows "scheduled (timer (start_link i s)) (task_id (links (start_link i s) ! i)) = Some (clock s + delay (timer s), i)"
  by (rule start_deadline_result [OF assms]) (use assms(3) in \<open>simp add: start_link_def\<close>)

lemma cancel_deadline_delay [simp]: "delay (timer (cancel_deadline_timer i s)) = delay (timer s)"
  by (simp add: cancel_deadline_timer_def cancel_issued)

lemma after_messages_delay [simp]: "delay (timer (after_messages n i s)) = delay (timer s)"
  by (induction n) (simp_all add: after_messages_def)

lemma finish_read_reading: "i < length (links s) \<Longrightarrow> reading (links (finish_read i s) ! i) = Over"
  by (simp add: finish_read_def)

lemma read_handler_deadline:
  assumes "loop_ok timeout n s" "Suc n < 2 ^ 64" "i < length (links s)" "reading (links (read_handler i r s) ! i) = Pending"
  shows "scheduled (timer (read_handler i r s)) (task_id (links (read_handler i r s) ! i)) = Some (clock s + delay (timer s), i)"
proof -
  from assms(3,4) obtain m where "read_handler i r s = start_link i (after_messages m i s)"
    by (auto simp: read_handler_def finish_read_reading Let_def split: read_result.splits if_splits)
  with assms show ?thesis
    using start_link_deadline [OF after_messages_ok [OF assms(1)] assms(2), of i m i] by simp
qed

lemma own_event_deadline:
  assumes "loop_ok timeout n s" "Suc n < 2 ^ 64" "handle_event e s = Some s'" "of_link e = Some i"
    "reading (links s' ! i) = Pending"
  shows "scheduled (timer s') (task_id (links s' ! i)) = Some (clock s + delay (timer s), i)"
  using assms
  by (auto simp: handle_event_def of_link_def ready_def complete_later_def finish_read_reading
      split: io_event.splits if_splits intro: start_link_deadline read_handler_deadline)

lemma io_step_deadline:
  assumes "loop_ok timeout n s" "Suc n < 2 ^ 64" "io_step (now, e) s = Some s'" "of_link e = Some i"
    "reading (links s' ! i) = Pending"
  shows "scheduled (timer s') (task_id (links s' ! i)) = Some (now + uint timeout * TICK, i)"
proof -
  from assms(3) have "clock s \<le> now" "handle_event e (s\<lparr>clock := now\<rparr>) = Some s'" by (auto split: if_splits)
  from own_event_deadline [OF advance_ok [OF assms(1) this(1)] assms(2) this(2) assms(4,5)] assms(1) show ?thesis
    by (simp add: loop_ok_def timing_ok_def delay_def TICK_def)
qed

subsection \<open>What the other connections do to a deadline\<close>

text \<open>
  A handler of the connection \<open>j\<close> leaves the task \<open>k\<close> and the other connections alone, unless \<open>j\<close> holds
  the identifier \<open>k\<close>.
\<close>

definition undisturbed :: "u64 \<Rightarrow> nat \<Rightarrow> io_loop \<Rightarrow> io_loop \<Rightarrow> bool" where
  "undisturbed k j s s' \<longleftrightarrow> task_id (links s ! j) \<noteq> k \<longrightarrow>
     scheduled (timer s') k = scheduled (timer s) k \<and> length (links s') = length (links s) \<and>
     (\<forall>h. h \<noteq> j \<longrightarrow> links s' ! h = links s ! h) \<and> task_id (links s' ! j) \<noteq> k"

lemma undisturbed_refl: "undisturbed k j s s"
  by (simp add: undisturbed_def)

lemma undisturbed_trans [trans]: "undisturbed k j s s1 \<Longrightarrow> undisturbed k j s1 s2 \<Longrightarrow> undisturbed k j s s2"
  by (auto simp: undisturbed_def)

lemma cancel_undisturbed: "undisturbed k j s (cancel_deadline_timer j s)"
  by (simp add: undisturbed_def cancel_deadline_timer_def cancel_scheduled)

lemma after_messages_undisturbed: "undisturbed k j s (after_messages n j s)"
  by (induction n) (auto simp: after_messages_def undisturbed_refl intro: undisturbed_trans cancel_undisturbed)

lemma update_link_undisturbed: "(\<And>l. task_id (f l) = task_id l) \<Longrightarrow> undisturbed k j s (update_link j f s)"
  by (cases "j < length (links s)") (auto simp: undisturbed_def update_link_def list_update_beyond not_less)

lemma finish_read_undisturbed: "undisturbed k j s (finish_read j s)"
  unfolding finish_read_def by (rule undisturbed_trans [OF cancel_undisturbed update_link_undisturbed]) simp

lemma start_link_undisturbed:
  assumes "loop_ok timeout n s" "Suc n < 2 ^ 64" "j < length (links s)" "scheduled (timer s) k \<noteq> None"
  shows "undisturbed k j s (start_link j s)"
proof -
  have "undisturbed k j s (start_deadline j s)"
    by (rule start_deadline_result [OF assms(1-3)]) (use assms(3,4) in \<open>auto simp: undisturbed_def\<close>)
  then show ?thesis
    unfolding start_link_def by (rule undisturbed_trans) (rule update_link_undisturbed, simp)
qed

lemma messages_start_undisturbed:
  assumes "loop_ok timeout n s" "Suc n < 2 ^ 64" "j < length (links s)" "scheduled (timer s) k \<noteq> None"
  shows "undisturbed k j s (start_link j (after_messages m j s))"
proof (cases "task_id (links s ! j) = k")
  case False
  then have "scheduled (timer (after_messages m j s)) k \<noteq> None"
    using after_messages_undisturbed [of k j s m] assms(4) by (simp add: undisturbed_def)
  then show ?thesis
    using assms by (intro undisturbed_trans [OF after_messages_undisturbed start_link_undisturbed] after_messages_ok) auto
qed (simp add: undisturbed_def)

lemma close_undisturbed: "undisturbed k j s (update_link j close_link s)"
  by (rule update_link_undisturbed) simp

lemma enter_undisturbed: "undisturbed k j s (update_link j (enter p) s)"
  by (rule update_link_undisturbed) simp

lemma read_handler_undisturbed:
  assumes "loop_ok timeout n s" "Suc n < 2 ^ 64" "j < length (links s)" "scheduled (timer s) k \<noteq> None"
  shows "undisturbed k j s (read_handler j r s)"
proof -
  note steps = after_messages_undisturbed finish_read_undisturbed close_undisturbed enter_undisturbed
  have still: "undisturbed k j s (if b then after_messages m j s else update_link j close_link (after_messages m j s))" for b m
    by (auto intro: undisturbed_trans steps)
  show ?thesis
    using messages_start_undisturbed [OF assms] still assms(3)
    by (cases r) (auto simp: read_handler_def Let_def intro: steps undisturbed_trans [OF _ steps(2)]
        undisturbed_trans [OF _ steps(3)] undisturbed_trans [OF _ steps(4)])
qed

lemma own_event_undisturbed:
  assumes "loop_ok timeout n s" "Suc n < 2 ^ 64" "handle_event e s = Some s'" "of_link e = Some j"
    "scheduled (timer s) k \<noteq> None"
  shows "undisturbed k j s s'"
  using assms
  by (auto simp: handle_event_def of_link_def ready_def complete_later_def
      split: io_event.splits if_splits intro: start_link_undisturbed read_handler_undisturbed finish_read_undisturbed)

text \<open>
  One event that is neither the connection's own nor one of a connection with the same identifier: a
  tick after the deadline closes the socket, anything else leaves the deadline and the socket alone.
\<close>

definition harmless :: "nat \<Rightarrow> u64 \<Rightarrow> io_loop \<Rightarrow> io_event \<Rightarrow> bool" where
  "harmless i k s e \<longleftrightarrow> (case of_link e of None \<Rightarrow> True | Some j \<Rightarrow> j \<noteq> i \<and> (j < length (links s) \<longrightarrow> task_id (links s ! j) \<noteq> k))"

lemma harmless_clock [simp]: "harmless i k (s\<lparr>clock := now\<rparr>) e = harmless i k s e"
  by (simp add: harmless_def split: option.splits)

lemma handle_event_harmless:
  assumes ok: "loop_ok timeout n s" and n: "Suc n < 2 ^ 64" and st: "handle_event e s = Some s'"
    and k: "scheduled (timer s) k = Some (d, i)" and h: "harmless i k s e"
  shows "if e = Tick \<and> d < clock s then \<not> socket_open (links s' ! i)
    else scheduled (timer s') k = Some (d, i) \<and> socket_open (links s' ! i) = socket_open (links s ! i)"
proof (cases "of_link e")
  case (Some j)
  with st h have "task_id (links s ! j) \<noteq> k" "j \<noteq> i" "e \<noteq> Tick"
    by (auto simp: harmless_def handle_event_def of_link_def ready_def split: io_event.splits if_splits)
  with own_event_undisturbed [OF ok n st Some, of k] k show ?thesis by (auto simp: undisturbed_def)
next
  case None
  then consider "e = Tick" "s' = tick_event s" | "e = Connect" "s' = s\<lparr>links := links s @ [new_link]\<rparr>"
    using st by (auto simp: of_link_def handle_event_def split: io_event.splits if_splits)
  then show ?thesis
  proof cases
    case 1
    have t: "timer_ok (timer s)" and i: "i < length (links s)" using ok k by (auto simp: loop_ok_def task_ok_def)
    have "i \<in> set (due (clock s) (timer s)) \<longleftrightarrow> d < clock s"
      unfolding timers.calls_due [OF t] using one_task [OF ok k] k by blast
    with 1 k i show ?thesis by (simp add: tick_event_result [OF t] deadline_tasks)
  next
    case 2
    then show ?thesis using ok k by (auto simp: loop_ok_def task_ok_def nth_append)
  qed
qed

lemma harmless_stays:
  assumes ok: "loop_ok timeout n s" and n: "Suc n < 2 ^ 64" and st: "handle_event e s = Some s'"
    and k: "scheduled (timer s) k = Some (d, i)" and h: "harmless i k s e" and h': "harmless i k s e'"
  shows "harmless i k s' e'"
proof (cases "of_link e")
  case (Some j)
  with st h have "task_id (links s ! j) \<noteq> k" "j < length (links s)"
    by (auto simp: harmless_def handle_event_def of_link_def ready_def split: io_event.splits if_splits)
  with own_event_undisturbed [OF ok n st Some, of k] k h' show ?thesis
    by (auto simp: undisturbed_def harmless_def split: option.splits)
next
  case None
  have t: "timer_ok (timer s)" using ok by (simp add: loop_ok_def)
  then have "k \<noteq> 0" using k timers.no_zero by force
  with None st h' show ?thesis
    by (auto simp: of_link_def handle_event_def harmless_def tick_event_result [OF t] deadline_tasks nth_append
        new_link_def split: io_event.splits if_splits option.splits)
qed

text \<open>A closed socket stays closed.\<close>

lemma start_link_socket: "j < length (links s) \<Longrightarrow> socket_open (links (start_link i s) ! j) = socket_open (links s ! j)"
  by (cases "j = i") (simp_all add: start_link_def start_deadline_def case_prod_beta Let_def)

lemma finish_read_socket: "j < length (links s) \<Longrightarrow> socket_open (links (finish_read i s) ! j) = socket_open (links s ! j)"
  by (cases "j = i") (simp_all add: finish_read_def)

lemma update_link_socket:
  "j < length (links s) \<Longrightarrow> socket_open (links (update_link i f s) ! j) =
    (if j = i then socket_open (f (links s ! j)) else socket_open (links s ! j))"
  by simp

lemma read_handler_socket:
  "j < length (links s) \<Longrightarrow> \<not> socket_open (links s ! j) \<Longrightarrow> \<not> socket_open (links (read_handler i r s) ! j)"
  by (auto simp: read_handler_def Let_def start_link_socket finish_read_socket update_link_socket
      simp del: update_link_simps(4,5) split: read_result.splits)

lemma tick_event_links: "links (tick_event s) = snd (process_tasks deadline_task (clock s) (timer s) (links s))"
  by (simp add: tick_event_def tick_handler_def case_prod_beta Let_def)

lemma tick_event_nth:
  "length (links (tick_event s)) = length (links s)"
  "j < length (links s) \<Longrightarrow> links (tick_event s) ! j = (if j \<in> set (due (clock s) (timer s)) then close_link (links s ! j) else links s ! j)"
  by (simp_all add: tick_event_links process_tasks_def call_due_eq due_def [symmetric] deadline_tasks Let_def)

lemma handle_event_length: "handle_event e s = Some s' \<Longrightarrow> length (links s) \<le> length (links s')"
  by (auto simp: handle_event_def complete_later_def tick_event_nth read_handler_def Let_def
      split: io_event.splits if_splits read_result.splits)

lemma handle_event_closed:
  "handle_event e s = Some s' \<Longrightarrow> j < length (links s) \<Longrightarrow> \<not> socket_open (links s ! j) \<Longrightarrow> \<not> socket_open (links s' ! j)"
  by (auto simp: handle_event_def complete_later_def tick_event_nth read_handler_socket start_link_socket finish_read_socket
      nth_append split: io_event.splits if_splits)

lemma io_step_handle: "io_step (now, e) s = Some s' \<Longrightarrow> clock s \<le> now \<and> handle_event e (s\<lparr>clock := now\<rparr>) = Some s'"
  by (simp split: if_splits)

lemma io_run_closed:
  "io_run es s = Some s' \<Longrightarrow> j < length (links s) \<Longrightarrow> \<not> socket_open (links s ! j) \<Longrightarrow> \<not> socket_open (links s' ! j)"
proof (induction es arbitrary: s)
  case (Cons e es)
  then obtain s1 where s1: "io_step e s = Some s1" "io_run es s1 = Some s'" by (auto split: option.splits)
  obtain now ev where e: "e = (now, ev)" by fastforce
  from io_step_handle [OF s1(1) [unfolded e]] Cons.prems(2,3) show ?case
    using handle_event_closed [of ev "s\<lparr>clock := now\<rparr>" s1 j] handle_event_length [of ev "s\<lparr>clock := now\<rparr>" s1]
    by (intro Cons.IH [OF s1(2)]) auto
qed simp

text \<open>
  A connection that has nothing to do is closed by the first tick after its deadline, and not before.
\<close>

lemma idle_closed:
  assumes "loop_ok timeout n s" "n + length es < 2 ^ 64 - 1" "scheduled (timer s) k = Some (d, i)"
    "io_run es s = Some s'" "list_all (\<lambda>(_, e). harmless i k s e) es"
  shows "socket_open (links s' ! i) \<longleftrightarrow> socket_open (links s ! i) \<and> \<not> (\<exists>t. (t, Tick) \<in> set es \<and> d < t)"
  using assms
proof (induction es arbitrary: n s)
  case (Cons x es)
  obtain now e where x: "x = (now, e)" by fastforce
  from Cons.prems(4) obtain s1 where s1: "io_step (now, e) s = Some s1" "io_run es s1 = Some s'"
    unfolding x by (auto split: option.splits simp del: io_step.simps)
  let ?s = "s\<lparr>clock := now\<rparr>"
  from io_step_handle [OF s1(1)] have le: "clock s \<le> now" and ev: "handle_event e ?s = Some s1" by auto
  have ok: "loop_ok timeout n ?s" and n: "Suc n < 2 ^ 64" using Cons.prems(1,2) le by (auto intro: advance_ok)
  have k: "scheduled (timer ?s) k = Some (d, i)" using Cons.prems(3) by simp
  have h: "harmless i k ?s e" and hs: "list_all (\<lambda>(_, e'). harmless i k ?s e') es"
    using Cons.prems(5) by (simp_all add: x)
  note hh = handle_event_harmless [OF ok n ev k h]
  show ?case
  proof (cases "e = Tick \<and> d < now")
    case True
    have "i < length (links s)" using Cons.prems(1,3) by (auto simp: loop_ok_def task_ok_def)
    with True hh handle_event_length [OF ev] io_run_closed [OF s1(2), of i] show ?thesis by (auto simp: x)
  next
    case False
    with hh have k1: "scheduled (timer s1) k = Some (d, i)" and so: "socket_open (links s1 ! i) = socket_open (links s ! i)"
      by (auto split: if_splits)
    have "list_all (\<lambda>(_, e'). harmless i k s1 e') es"
      using hs harmless_stays [OF ok n ev k h] by (auto simp: list_all_iff)
    from Cons.IH [OF handle_event_ok [OF ok n ev] _ k1 s1(2) this] Cons.prems(2) so False show ?thesis by (auto simp: x)
  qed
qed simp

subsection \<open>A connection without a deadline\<close>

text \<open>Only the connection itself can give it a deadline; without one no tick closes it.\<close>

definition owners :: "io_loop \<Rightarrow> nat set" where
  "owners s = (snd \<circ> snd) ` set (tasks (timer s))"

definition alone :: "nat \<Rightarrow> io_loop \<Rightarrow> io_loop \<Rightarrow> bool" where
  "alone i s s' \<longleftrightarrow> owners s' \<subseteq> owners s \<union> - {i} \<and> length (links s') = length (links s) \<and> links s' ! i = links s ! i"

lemma alone_refl: "alone i s s"
  by (simp add: alone_def)

lemma alone_trans: "alone i s s1 \<Longrightarrow> alone i s1 s2 \<Longrightarrow> alone i s s2"
  by (auto simp: alone_def)

lemma cancel_alone: "alone i s (cancel_deadline_timer j s)"
  by (auto simp: alone_def owners_def cancel_deadline_timer_def cancel_def map_erase_def)

lemma update_link_alone: "j \<noteq> i \<Longrightarrow> alone i s (update_link j f s)"
  by (simp add: alone_def owners_def)

lemma map_insert_set: "set (map_insert k v m) \<subseteq> insert (k, v) (set m)"
  by (induction k v m rule: map_insert.induct) auto

lemma schedule_alone: "schedule now j t = (k, t') \<Longrightarrow> j \<noteq> i \<Longrightarrow> alone i s (s\<lparr>timer := t'\<rparr>)" if "timer s = t"
  using that map_insert_set unfolding schedule_def schedule_after_def alone_def owners_def Let_def by fastforce

lemma start_link_alone: "j \<noteq> i \<Longrightarrow> alone i s (start_link j s)"
  unfolding start_link_def start_deadline_def Let_def case_prod_beta
  by (rule alone_trans [OF cancel_alone [of i s j]], rule alone_trans [OF schedule_alone [OF refl prod.collapse [symmetric]]])
    (auto intro: alone_trans [OF update_link_alone update_link_alone])

lemma after_messages_alone: "alone i s (after_messages n j s)"
  by (induction n) (auto simp: after_messages_def alone_refl intro: alone_trans cancel_alone)

lemma finish_read_alone: "j \<noteq> i \<Longrightarrow> alone i s (finish_read j s)"
  unfolding finish_read_def by (rule alone_trans [OF cancel_alone update_link_alone])

lemma close_finish_alone: "j \<noteq> i \<Longrightarrow> alone i s (update_link j close_link (finish_read j s))"
  by (rule alone_trans [OF finish_read_alone update_link_alone])

lemma read_handler_alone:
  assumes j: "j \<noteq> i"
  shows "alone i s (read_handler j r s)"
proof (cases r)
  case (Fed m ret still close later)
  let ?s = "if still then after_messages m j s else update_link j close_link (after_messages m j s)"
  have "alone i s ?s"
    using j by (simp add: after_messages_alone alone_trans [OF after_messages_alone update_link_alone])
  moreover have "alone i ?s (read_handler j r s)"
    using j by (simp add: Fed read_handler_def Let_def close_finish_alone finish_read_alone start_link_alone update_link_alone)
  ultimately show ?thesis by (rule alone_trans)
qed (use j in \<open>simp_all add: read_handler_def close_finish_alone alone_trans [OF after_messages_alone update_link_alone]\<close>)

lemma tick_event_alone: "i < length (links s) \<Longrightarrow> i \<notin> owners s \<Longrightarrow> alone i s (tick_event s)"
  by (auto simp: alone_def tick_event_nth) (auto simp: owners_def tick_event_def tick_handler_def process_tasks_def
      map_erase_all due_def case_prod_beta Let_def)

lemma handle_event_alone:
  assumes "handle_event e s = Some s'" "of_link e \<noteq> Some i" "i < length (links s)" "i \<notin> owners s"
  shows "i < length (links s') \<and> i \<notin> owners s' \<and> links s' ! i = links s ! i"
proof (cases "e = Connect")
  case True
  with assms show ?thesis by (auto simp: handle_event_def owners_def nth_append)
next
  case False
  with assms have "alone i s s'"
    by (auto simp: handle_event_def of_link_def complete_later_def split: io_event.splits if_splits
        intro: tick_event_alone start_link_alone read_handler_alone finish_read_alone)
  with assms show ?thesis by (auto simp: alone_def)
qed

lemma io_run_alone:
  "io_run es s = Some s' \<Longrightarrow> list_all (\<lambda>(_, e). of_link e \<noteq> Some i) es \<Longrightarrow> i < length (links s) \<Longrightarrow> i \<notin> owners s \<Longrightarrow>
    links s' ! i = links s ! i"
proof (induction es arbitrary: s)
  case (Cons x es)
  obtain now e where x: "x = (now, e)" by fastforce
  from Cons.prems(1) obtain s1 where s1: "io_step (now, e) s = Some s1" "io_run es s1 = Some s'"
    unfolding x by (auto split: option.splits simp del: io_step.simps)
  from io_step_handle [OF s1(1)] have ev: "handle_event e (s\<lparr>clock := now\<rparr>) = Some s1" by simp
  have "i < length (links s1) \<and> i \<notin> owners s1 \<and> links s1 ! i = links s ! i"
    using handle_event_alone [OF ev, of i] Cons.prems(2-4) by (simp add: x owners_def)
  with Cons.IH [OF s1(2)] Cons.prems(2) show ?case by (simp add: x)
qed simp

text \<open>
  The identifiers start anew when the timer runs empty. Here the deadline of the first connection is
  over, the tick closes it, the second connection starts and gets the same identifier, and then the
  handler of the aborted read of the first one cancels the task of the second.
\<close>

definition stolen_run :: "(int \<times> io_event) list" where
  "stolen_run = [(0, Connect), (0, Begin 0), (6 * TICK, Tick), (6 * TICK, Connect), (6 * TICK, Begin 1),
     (6 * TICK, ReadEnd 0 Failed)]"

lemmas loop_evaluation = new_loop_def set_default_timeout_def new_timer_def handle_event_def ready_def start_link_def
  start_deadline_def cancel_deadline_timer_def cancel_def map_erase_def schedule_def schedule_after_def get_default_timeout_def
  update_link_def enter_def close_link_def new_link_def tick_event_def tick_handler_def process_tasks_def deadline_task_def
  read_handler_def finish_read_def TICK_def ms_def Let_def

lemma stolen_run_result:
  "\<exists>s. io_run stolen_run (new_loop 0 5) = Some s \<and> length (links s) = 2 \<and> tasks (timer s) = [] \<and>
     reading (links s ! 1) = Pending \<and> socket_open (links s ! 1) \<and> \<not> socket_open (links s ! 0)"
  by (simp add: stolen_run_def loop_evaluation)

lemma stolen_before:
  "\<exists>s. io_run (butlast stolen_run) (new_loop 0 5) = Some s \<and> scheduled (timer s) 1 = Some (11 * TICK, 1)"
  by (simp add: stolen_run_def loop_evaluation scheduled_def)

end
