(* ===== verification/Server.thy ===== *)
theory Server
  imports Prelude
begin

text \<open>
  The accept loop of \<open>http_server.h\<close> with the number of threads that \<open>app.h\<close> gives it. There is one accept
  under way at a time; its handler hands the connection to the worker that was chosen when the accept
  was started, and starts the next one. The state keeps the queue lengths of the workers, the worker
  of the accept that is under way, and the workers that connections were posted to, in their order.
\<close>

subsection \<open>Threads and workers\<close>

definition concurrency :: "u16 \<Rightarrow> u16" where
  "concurrency c = (if c < 2 then 2 else c)"

definition multithreaded :: "u32 \<Rightarrow> u16" where
  "multithreaded hardware_concurrency = concurrency (ucast hardware_concurrency)"

record server =
  queue_lengths :: "u32 list"
  under_way :: "nat option"
  posted :: "nat list"
  stopping :: bool
  stopped :: bool

definition new_server :: "u16 \<Rightarrow> server" where
  "new_server threads =
     \<lparr>queue_lengths = replicate (unat (threads - 1)) 0, under_way = None, posted = [], stopping = False, stopped = False\<rparr>"

function pick_loop :: "u32 list \<Rightarrow> nat \<Rightarrow> u16 \<Rightarrow> u16" where
  "pick_loop q i m =
     (if i < length q \<and> 0 < q ! unat m then pick_loop q (Suc i) (if q ! i < q ! unat m then of_nat i else m) else m)"
  by auto
termination
  by (relation "measure (\<lambda>(q, i, m). length q - i)") auto

declare pick_loop.simps [simp del]

definition pick_io_context_idx :: "u32 list \<Rightarrow> u16" where
  "pick_io_context_idx q = pick_loop q 1 0"

definition do_accept :: "server \<Rightarrow> server result" where
  "do_accept s =
     (if stopping s then Inr s
      else let i = unat (pick_io_context_idx (queue_lengths s))
           in if length (queue_lengths s) \<le> i then Inl (UB ''io_context_pool_ is empty'')
              else Inr (s\<lparr>queue_lengths := (queue_lengths s)[i := queue_lengths s ! i + 1], under_way := Some i\<rparr>))"

definition accept_handler :: "bool \<Rightarrow> server \<Rightarrow> server result" where
  "accept_handler ec s =
     (case under_way s of
        None \<Rightarrow> Inr s
      | Some i \<Rightarrow>
          do_accept (if \<not> ec then s\<lparr>posted := posted s @ [i], under_way := None\<rparr>
            else s\<lparr>queue_lengths := (queue_lengths s)[i := queue_lengths s ! i - 1], under_way := None\<rparr>))"

text \<open>
  \<open>stop\<close> runs on the thread of the signal watcher: it sets the flag, and then stops the loops one after
  the other. In between the handler of an accept may still run.
\<close>

datatype server_event = Accept bool | StopFlag | StopLoops

definition server_step :: "server_event \<Rightarrow> server \<Rightarrow> server result" where
  "server_step e s =
     (case e of
        Accept ec \<Rightarrow> if stopped s then Inr s else accept_handler ec s
      | StopFlag \<Rightarrow> Inr (s\<lparr>stopping := True\<rparr>)
      | StopLoops \<Rightarrow> if stopping s then Inr (s\<lparr>stopped := True\<rparr>) else Inr s)"

fun server_events :: "server_event list \<Rightarrow> server \<Rightarrow> server result" where
  "server_events [] s = Inr s"
| "server_events (e # es) s = bind_result (server_step e s) (server_events es)"

definition server_run :: "u16 \<Rightarrow> server_event list \<Rightarrow> server result" where
  "server_run threads es = bind_result (do_accept (new_server threads)) (server_events es)"

subsection \<open>The choice of a worker\<close>

lemma concurrency_bound: "2 \<le> concurrency c"
  by (simp add: concurrency_def not_less)

lemma pick_loop_least:
  assumes "unat m < length q" "length q \<le> 2 ^ 16" "\<forall>j < min i (length q). q ! unat m \<le> q ! j"
  shows "unat (pick_loop q i m) < length q \<and> (\<forall>j < length q. q ! unat (pick_loop q i m) \<le> q ! j)"
  using assms
proof (induction q i m rule: pick_loop.induct)
  case (1 q i m)
  show ?case
  proof (cases "i < length q \<and> 0 < q ! unat m")
    case True
    let ?m = "if q ! i < q ! unat m then of_nat i else m"
    have i: "unat (of_nat i :: u16) = i" using True "1.prems"(2) by (simp add: unat_of_nat)
    have "unat ?m < length q" using True "1.prems"(1) by (simp add: i)
    moreover have "\<forall>j < min (Suc i) (length q). q ! unat ?m \<le> q ! j"
      using "1.prems"(3) True by (auto simp: i less_Suc_eq)
    ultimately show ?thesis
      using "1.IH" [OF True] "1.prems"(2) True by (subst pick_loop.simps, subst (2) pick_loop.simps) simp
  next
    case False
    then show ?thesis
      using "1.prems" by (subst pick_loop.simps, subst (2) pick_loop.simps) (auto simp: not_less)
  qed
qed

lemma pick_least:
  assumes "q \<noteq> []" "length q \<le> 2 ^ 16"
  shows "unat (pick_io_context_idx q) < length q" "j < length q \<Longrightarrow> q ! unat (pick_io_context_idx q) \<le> q ! j"
  using pick_loop_least [of 0 q 1] assms by (auto simp: pick_io_context_idx_def)

subsection \<open>Balance\<close>

definition handed :: "server \<Rightarrow> nat \<Rightarrow> nat" where
  "handed s i = count_list (posted s) i"

definition balanced :: "server \<Rightarrow> bool" where
  "balanced s \<longleftrightarrow> (\<forall>i < length (queue_lengths s). \<forall>j < length (queue_lengths s). handed s i \<le> Suc (handed s j))"

text \<open>
  A queue length is the number of connections that were handed to the worker, and one more for the
  worker of the accept that is under way, which has been handed the fewest.
\<close>

definition server_ok :: "nat \<Rightarrow> nat \<Rightarrow> server \<Rightarrow> bool" where
  "server_ok w n s \<longleftrightarrow> 0 < w \<and> w < 2 ^ 16 \<and> length (queue_lengths s) = w \<and> length (posted s) \<le> n \<and>
     set (posted s) \<subseteq> {..<w} \<and> balanced s \<and>
     (\<forall>i < w. unat (queue_lengths s ! i) = handed s i + (if under_way s = Some i then 1 else 0)) \<and>
     (\<forall>p. under_way s = Some p \<longrightarrow> p < w \<and> (\<forall>j < w. handed s p \<le> handed s j))"

lemma new_server_ok:
  "2 \<le> threads \<Longrightarrow> server_ok (unat (threads - 1)) 0 (new_server threads)"
proof -
  assume t: "2 \<le> threads"
  then have "2 \<le> unat threads" by (simp add: word_le_nat_alt)
  moreover from this have "unat (threads - 1) = unat threads - 1" by (subst unat_sub) (auto simp: word_le_nat_alt)
  moreover have "unat threads < 2 ^ 16" using unsigned_less [of threads] by simp
  ultimately show ?thesis
    by (auto simp: server_ok_def new_server_def balanced_def handed_def)
qed

lemma do_accept_ok:
  assumes ok: "server_ok w n s" and n: "Suc n < 2 ^ 32" and none: "under_way s = None"
  shows "\<exists>s'. do_accept s = Inr s' \<and> server_ok w n s'"
proof (cases "stopping s")
  case False
  let ?q = "queue_lengths s"
  let ?i = "unat (pick_io_context_idx ?q)"
  have q: "?q \<noteq> []" "length ?q \<le> 2 ^ 16" and len: "length ?q = w" using ok by (auto simp: server_ok_def)
  note p = pick_least [OF q]
  have eq: "unat (?q ! j) = handed s j" if "j < w" for j using ok none that by (simp add: server_ok_def)
  have least: "handed s ?i \<le> handed s j" if "j < w" for j
    using p(2) [of j] that eq [of j] eq [of ?i] p(1) by (simp add: len word_le_nat_alt)
  have "handed s ?i \<le> n" using ok count_le_length [of "posted s" ?i] by (simp add: server_ok_def handed_def)
  then have "unat (?q ! ?i + 1) = Suc (handed s ?i)"
    using n p(1) eq [of ?i] len by (simp add: unat_word_ariths)
  with ok False p(1) eq least show ?thesis
    by (auto simp: do_accept_def Let_def server_ok_def len handed_def balanced_def nth_list_update)
qed (use ok in \<open>simp add: do_accept_def\<close>)

lemma handed_post: "handed (s\<lparr>posted := posted s @ [p], under_way := u\<rparr>) i = handed s i + (if i = p then 1 else 0)"
  by (simp add: handed_def)

lemma accept_handler_ok:
  assumes ok: "server_ok w n s" and n: "Suc (Suc n) < 2 ^ 32"
  shows "\<exists>s'. accept_handler ec s = Inr s' \<and> server_ok w (Suc n) s'"
proof (cases "under_way s")
  case (Some p)
  have p: "p < w" and least: "\<And>j. j < w \<Longrightarrow> handed s p \<le> handed s j" using ok Some by (auto simp: server_ok_def)
  show ?thesis
  proof (cases ec)
    case True
    let ?s = "s\<lparr>queue_lengths := (queue_lengths s)[p := queue_lengths s ! p - 1], under_way := None\<rparr>"
    have "unat (queue_lengths s ! p) = Suc (handed s p)" using ok p Some by (simp add: server_ok_def)
    then have "unat (queue_lengths s ! p - 1) = handed s p" by (subst unat_sub) (auto simp: word_le_nat_alt)
    then have "server_ok w (Suc n) ?s"
      using ok Some p by (auto simp: server_ok_def balanced_def handed_def nth_list_update)
    from do_accept_ok [OF this n] True Some show ?thesis by (simp add: accept_handler_def)
  next
    case False
    let ?s = "s\<lparr>posted := posted s @ [p], under_way := None\<rparr>"
    have "balanced ?s"
      using ok p least by (auto simp: server_ok_def balanced_def handed_post intro: le_SucI)
    then have "server_ok w (Suc n) ?s"
      using ok Some p by (auto simp: server_ok_def handed_post)
    from do_accept_ok [OF this n] False Some show ?thesis by (simp add: accept_handler_def)
  qed
qed (use ok in \<open>simp add: accept_handler_def server_ok_def\<close>)

lemma server_step_ok:
  assumes "server_ok w n s" "Suc (Suc n) < 2 ^ 32"
  shows "\<exists>s'. server_step e s = Inr s' \<and> server_ok w (Suc n) s'"
proof (cases e)
  case (Accept ec)
  then show ?thesis using assms accept_handler_ok [OF assms] by (simp add: server_step_def server_ok_def)
qed (use assms in \<open>simp_all add: server_step_def server_ok_def balanced_def handed_def\<close>)

lemma server_events_ok:
  "server_ok w n s \<Longrightarrow> Suc (n + length es) < 2 ^ 32 \<Longrightarrow> \<exists>s'. server_events es s = Inr s' \<and> server_ok w (n + length es) s'"
proof (induction es arbitrary: n s)
  case (Cons e es)
  obtain s1 where s1: "server_step e s = Inr s1" "server_ok w (Suc n) s1"
    using server_step_ok [OF Cons.prems(1)] Cons.prems(2) by fastforce
  with Cons.IH [OF s1(2)] Cons.prems(2) show ?case by simp
qed simp

lemma server_run_ok:
  assumes "2 \<le> threads" "Suc (length es) < 2 ^ 32"
  shows "\<exists>s. server_run threads es = Inr s \<and> server_ok (unat (threads - 1)) (length es) s"
proof -
  obtain s0 where s0: "do_accept (new_server threads) = Inr s0" "server_ok (unat (threads - 1)) 0 s0"
    using do_accept_ok [OF new_server_ok [OF assms(1)]] by (auto simp: new_server_def)
  from server_events_ok [OF s0(2)] assms(2) show ?thesis by (simp add: server_run_def s0)
qed

text \<open>After the flag is set, at most the accept that is under way hands out a connection.\<close>

definition owed :: "server \<Rightarrow> nat" where
  "owed s = length (posted s) + (if under_way s = None then 0 else 1)"

lemma stopping_event:
  assumes "server_step e s = Inr s'" "stopping s"
  shows "stopping s' \<and> owed s' \<le> owed s"
  using assms
  by (auto simp: server_step_def accept_handler_def do_accept_def owed_def split: server_event.splits if_splits option.splits)

lemma stopping_events:
  "server_events es s = Inr s' \<Longrightarrow> stopping s \<Longrightarrow> owed s' \<le> owed s"
proof (induction es arbitrary: s)
  case (Cons e es)
  then obtain s1 where "server_step e s = Inr s1" "server_events es s1 = Inr s'" by (auto simp: bind_result_eq_Inr)
  with Cons stopping_event [of e s s1] show ?case by fastforce
qed simp

end
