(* ===== verification/Spec2Isabelle.thy ===== *)
theory Spec2Isabelle
  imports Memory_Store Concurrency Wire Deadlines Server
begin

text \<open>
  An order service in C++17: an HTTP API over Crow with API-key authentication, a limit on the
  requests in flight, orders in SQLite, a read cache in Redis, probes, metrics and a graceful
  shutdown. The program's own code is in \<open>src/src\<close> and \<open>src/include\<close>; the part of the vendored Crow
  library that a request runs through is modelled, too. Crow is compiled from the single header
  \<open>src/include/crow_all.h\<close>; the models refer to the same lines in the split headers of \<open>src/crow\<close>.

  \<^bold>\<open>The parts and how they interact.\<close> A connection (\<open>http_connection.h\<close>) feeds bytes to the state
  machine of \<open>http_parser_merged.h\<close>, whose callbacks (\<open>parser.h\<close>) fill in the request. When the url is there, the router (\<open>routing.h\<close>)
  looks it up in the search tree of the method; when the message is complete, the connection runs the
  middlewares of \<open>main.cpp\<close> and \<open>auth_middleware.h\<close> forwards, then the handler, then the middlewares
  backwards, and writes the response. The handlers of \<open>order_routes.cpp\<close> parse the JSON body
  (\<open>json.h\<close>) or the query string (\<open>query_string.h\<close>), talk to SQLite and Redis and answer with JSON. The
  counters (\<open>metrics.h\<close>) and flags (\<open>service_state.h\<close>) are atomics that all threads share.

  \<^bold>\<open>Theories, in the order of their imports.\<close>
  \<^item> \<open>Prelude\<close>: exceptions as values (\<open>'a result\<close>; \<open>UB\<close> marks undefined behaviour), characters and C
    strings, decimal printing; the locales \<open>symbol_codec\<close> (a code that is undone symbol by symbol; for
    JSON escapes and percent encoding) and \<open>transition_invariant\<close> (reachable states keep an invariant;
    for the orders, the gate, the maximum and the shutdown).
  \<^item> \<open>Numbers\<close>: \<open>stoi\<close>, stream extraction and printing of integers and doubles; a double is a sign, a
    mantissa and an exponent, rounded to nearest even.
  \<^item> \<open>Json_Text\<close>, \<open>Json_Number\<close>, \<open>Json_Read\<close>, \<open>Json_Write\<close>: \<open>json.h\<close>. \<open>rvalue\<close> and \<open>wvalue\<close> are datatypes;
    \<open>std::sort\<close> and the order of an \<open>unordered_map\<close> are parameters with their contracts
    (\<open>key_sorter\<close>, \<open>json_impl_ok\<close>).
  \<^item> \<open>Query_String\<close>: \<open>query_string.h\<close>, with the buffer that is decoded in place as a list and the pairs as
    offsets into it.
  \<^item> \<open>Http\<close>: methods, requests, responses and the header multimap (locale \<open>header_container\<close>).
  \<^item> \<open>Service_State\<close>: the record \<open>svc\<close> of all counters, flags and settings, at their widths.
  \<^item> \<open>Orders\<close>: the handlers. SQLite and Redis are records of functions over abstract states, the clock
    and \<open>rand\<close> are arguments. \<open>Order_Store\<close>: the contracts of both (\<open>sqlite_ok\<close>, \<open>redis_ok\<close>), the
    abstract table of orders, the refinement of every handler to it, and the coherence of the cache.
    \<open>Memory_Store\<close>: a database and a cache in memory that keep the contracts, and concrete runs.
  \<^item> \<open>Middleware\<close>: the four middlewares and the recursion that calls them. \<open>Concurrency\<close>: the in-flight
    gate, the running maximum and the shutdown as step relations over interleaved threads.
  \<^item> \<open>Routing\<close>: the search tree, refined to a list of patterns (locale \<open>rule_store\<close>). \<open>Router\<close>: rules,
    registration, the first routing step and the call of the handler.
  \<^item> \<open>Static_Files\<close>: the route for files that \<open>run\<close> adds, with the sanitizing of file names and the media types.
  \<^item> \<open>Connection\<close>: one connection, from parser events to the bytes sent. \<open>Service\<close>: the start-up, the
    probes, the route table. \<open>Session\<close>: a request from its first event to its response.
  \<^item> \<open>Http_Parser\<close>: \<open>http_parser_merged.h\<close>, the parser object as a record and one definition per case of the
    switch in \<open>http_parser_execute\<close>; the callbacks are an argument, a failed \<open>assert\<close> is \<open>UB\<close>. \<open>Http_Text\<close>:
    the loops of the parser over the parts of a request text. \<open>Http_Message\<close>: the text of a request
    (\<open>wire_text\<close>), and what a client of the parser (locale \<open>parser_client\<close>) sees of a buffer of such texts.
    \<open>Http_Returns\<close>, \<open>Http_Typed\<close>: termination and widths on arbitrary bytes (locales \<open>tame_callbacks\<close> and
    \<open>typed_callbacks\<close>). \<open>Http_Safe\<close>: no assertion of the parser fails on bytes without zeros (locale
    \<open>steady_callbacks\<close>).
  \<^item> \<open>Wire\<close>: the connection as the client of the byte-level parser: callbacks, \<open>feed\<close>, and the read loop on
    buffers of bytes.
  \<^item> \<open>Task_Timer\<close>: \<open>task_timer.h\<close>; what its users rely on is the locale \<open>timer_contract\<close>. \<open>Deadlines\<close>: the connections
    of one event loop with the timer they share, as sequences of handler calls with their times. \<open>Server\<close>:
    the accept loop of \<open>http_server.h\<close> and the number of its workers.

  \<^bold>\<open>What the theorems show.\<close> Orders: every handler refines the abstract table on every branch; orders go
  through their life cycle only; reads are current although they come from the cache, and which
  interleavings and inputs break this. JSON and query strings: round trips, the number grammar, the
  search for keys and the in-place loops against plain definitions. Middleware and
  concurrency: the limit holds in every interleaving, the maximum is exact, the shutdown completes unless
  its signal comes while the program starts.
  Routing: the compressed tree implements first match, and the table of the program is the one it
  spells out; no url leads out of the directory of the static files. Connections: a request is answered with the bytes of its handler's response and the
  in-flight count is restored, and the two kinds of request for which it is not. Parsing: from the
  bytes of the requests to the bytes of the answers, for any number of requests on a connection; what
  becomes of two requests in one buffer; on arbitrary bytes the parser ends and keeps the widths of
  its fields, and the number of a content-length header is exact; no assertion fails on bytes other
  than zero, and one zero byte in a connection header ends the process. Server loop: every read has its
  deadline, an idle connection is closed by the first tick after it, and how a deadline can be lost;
  connections are spread evenly over the workers.

  \<^bold>\<open>Bounds and fuel.\<close> The row loop of \<open>list_orders\<close> runs as long as SQLite delivers rows; it takes fuel,
  and one step more than there are rows is enough (\<open>list_shows_rows\<close>). The loops of \<open>get_list\<close> and
  \<open>get_dict\<close> run over at most all pairs, their fuel is the number of pairs plus one
  (\<open>qs_list_loop_fuel\<close>). \<open>Trie::add\<close> gives \<open>None\<close> where the source repeats for ever. The loop of
  \<open>http_parser_execute\<close> is a partial function, since a callback may change the state; with the callbacks of
  the connection it is defined on every buffer (\<open>parser_terminates\<close>). Counters are \<open>32 word\<close>
  and \<open>64 word\<close> and wrap around. The JSON reader's depth limit of 10000 is in the model.

  Task identifiers have 64 bits; the theorems on deadlines are about runs of fewer than \<open>2 ^ 64 - 1\<close>
  handler calls, the one on the accept loop about fewer than \<open>2 ^ 32 - 1\<close> events, so that no counter wraps.

  \<^bold>\<open>Not modelled.\<close> Sockets and the event loops themselves, which are asio (when a handler runs is a
  parameter: every order that asio allows is a run of the models); the cached date string and the tick
  function of \<open>http_server.h\<close>; log lines; blueprints, catch-all rules, websockets, mustache, multipart and the
  optional middlewares of Crow, which the program does not use; asio, SQLite, Redis, spdlog and the test
  libraries, which are third-party code.
\<close>

section \<open>Inputs of the concrete instances\<close>

definition some_inputs :: inputs where
  "some_inputs = \<lparr>in_timestamp = 100, in_rand = 42, in_now = 7, in_fuel = 10,
     in_stat = (\<lambda>p. if p = ''static/a.txt'' then Some (True, 3) else None)\<rparr>"

definition some_settings :: settings where
  "some_settings = \<lparr>s_json = mem_json, server_name = ''Crow'', date_str = ''now'', peer_address = ''127.0.0.1'',
     res_stream_threshold = 1048576, hdr_order = id, file_content = (\<lambda>p. [])\<rparr>"

definition some_request :: "string \<Rightarrow> request" where
  "some_request u = empty_request\<lparr>url := u, req_headers := [(''Host'', ''localhost'')], http_ver_major := 1, http_ver_minor := 1\<rparr>"

definition upgrade_request :: request where
  "upgrade_request = (some_request ''/order/list'')\<lparr>upgrade := True,
     req_headers := [(''Host'', ''localhost''), (''Authorization'', ''1234567''), (''Upgrade'', ''websocket'')]\<rparr>"

definition some_conn :: "request \<Rightarrow> (memdb, (string \<times> string) list) conn" where
  "some_conn req = (new_conn mem_world [])\<lparr>c_req := req, between_messages := False\<rparr>"

definition some_wire :: "string \<Rightarrow> wire" where
  "some_wire u = \<lparr>w_method = 1, w_url = u, w_major = 1, w_minor = 1,
     w_headers = [(''Host'', ''localhost''), (''Authorization'', ''1234567'')], w_body = []\<rparr>"

section \<open>Orders\<close>







text \<open>
  C4. A payment that is answered with 200 leaves the order it names paid, at the time of the request,
  and it was there and unpaid before.
\<close>

theorem payment_pays:
  assumes "sqlite_ok (sq D) T" "pay_order D now req w = (w', out)" "success out" "pay_request_key D req = Some k"
  shows "(\<exists>ord. T (db w) (c_str k) = Some ord \<and> status ord \<noteq> ''PAID'') \<and>
    (\<exists>ord. T (db w') (c_str k) = Some ord \<and> status ord = ''PAID'' \<and> paid_at ord = now)"
proof
  have "effect D (CPay now req) (T (db w)) (T (db w'))" using pay_refines [OF assms(1,2)] assms(3) by simp
  with assms(4) show "\<exists>ord. T (db w) (c_str k) = Some ord \<and> status ord \<noteq> ''PAID''" by (auto simp: effect_def)
  show "\<exists>ord. T (db w') (c_str k) = Some ord \<and> status ord = ''PAID'' \<and> paid_at ord = now"
    using assms by (rule pay_success_paid)
qed

theorem payment_pays_witness:
  "\<exists>w' out. pay_order mem_deps 10 pay_request (one_order ''ORD1'') = (w', out) \<and> success out \<and>
     (\<exists>ord. mem_table (db w') ''ORD1'' = Some ord \<and> status ord = ''PAID'' \<and> paid_at ord = 10)"
proof -
  obtain w' out where run: "pay_order mem_deps 10 pay_request (one_order ''ORD1'') = (w', out)" by fastforce
  then have "success out"
    by (auto simp: pay_request_runs pay_lookup_def pay_update_def run_defs c_str_ORD world_defs)
  with payment_pays [of mem_deps mem_table, OF _ run] run show ?thesis
    by (auto simp: mem_sqlite_ok pay_request_names c_str_ORD)
qed

text \<open>
  C5. The payment of an order that is paid already is refused and changes nothing in the table.
\<close>

theorem payment_of_paid_refused:
  assumes "sqlite_ok (sq D) T" "pay_order D now req w = (w', out)" "pay_request_key D req = Some k"
    "T (db w) (c_str k) = Some ord" "status ord = ''PAID''"
  shows "\<not> success out \<and> T (db w') = T (db w)"
  using pay_paid_fails [OF assms] by blast

theorem payment_of_paid_refused_witness:
  "\<not> success (snd (pay_order mem_deps 10 pay_request paid_order)) \<and>
   mem_table (db (fst (pay_order mem_deps 10 pay_request paid_order))) = mem_table (db paid_order)"
proof -
  obtain w' out where run: "pay_order mem_deps 10 pay_request paid_order = (w', out)" by fastforce
  with payment_of_paid_refused [of mem_deps mem_table, OF _ run pay_request_names] show ?thesis
    by (simp add: mem_sqlite_ok c_str_ORD world_defs)
qed



text \<open>A deletion is complete: no read of that order number is answered with 200, although the order may have
  been cached.\<close>

lemma deleted_order_is_gone:
  assumes "sqlite_ok (sq D) T" "redis_ok (rd D) L" "dels_succeed (rd D)" "coherent D T L w" "NUL \<notin> set k"
    "delete_order D k w = (w1, out)" "success out" "get_order D k w1 = (w2, Inr res)"
  shows "rcode res \<noteq> 200"
proof
  assume "rcode res = 200"
  moreover have "coherent D T L w1"
    using assms by (intro delete_coherent [OF assms(1-4) _ assms(6)]) (simp add: plain_call_def)
  ultimately obtain ord where "T (db w1) k = Some ord" using get_order_shows assms by blast
  moreover have "effect D (CDelete k) (T (db w)) (T (db w1))" using delete_refines [OF assms(1,6)] assms(7) by simp
  ultimately show False using assms(5) by (simp add: effect_def abs_delete_def c_str_no_NUL)
qed

text \<open>
  C7. A creation that is answered with 200 stores a pending order with a positive amount under the
  generated number, which was unused, counts it once, and its answer is the JSON text of that order.
\<close>

theorem creation_stores:
  assumes "sqlite_ok (sq D) T" "create_order D ts rnd now req w = (w', Inr res)" "rcode res = 200"
  shows "T (db w) (generate_order_no ts rnd) = None \<and> orders_created (svc_of w') = orders_created (svc_of w) + 1 \<and>
    (\<exists>a. dbl_pos a \<and> T (db w') = abs_create (generate_order_no ts rnd) a now (T (db w)) \<and>
       body res = dump (json D) (order_created_value D (generate_order_no ts rnd) a now))"
proof (cases rule: create_order_dispatch [of w D ts rnd now req])
  case 1
  with assms(2,3) show ?thesis by (simp add: rejected_def)
next
  case (2 a)
  then have "insert_order D ts rnd now a w = (w', Inr res)" using assms(2) by simp
  from assms(1) this dbl_pos_not_nan [OF 2(1)] show ?thesis
    by (cases rule: insert_order_cases) (use assms(3) 2(1) in auto)
qed

theorem creation_stores_witness:
  "\<exists>w' res. create_order mem_deps 100 42 7 create_request mem_world = (w', Inr res) \<and>
     orders_created (svc_of w') = orders_created (svc_of mem_world) + 1 \<and>
     (\<exists>a. dbl_pos a \<and> mem_table (db w') = abs_create (generate_order_no 100 42) a 7 (mem_table (db mem_world)))"
proof -
  obtain w' out where run: "create_order mem_deps 100 42 7 create_request mem_world = (w', out)" by fastforce
  then obtain res where res: "out = Inr res" "rcode res = 200"
    by (auto simp: create_request_runs insert_order_def create_insert_def create_cache_def run_defs world_defs
        Let_def split: if_splits)
  with creation_stores [of mem_deps mem_table 100 42 7 create_request mem_world w' res] run show ?thesis
    by (auto simp: mem_sqlite_ok)
qed

text \<open>
  C8. The list of orders: when the statement is prepared and delivers some rows, then ends, the
  handler ends, too, and answers 200 with one JSON object per row in the order of the rows; the loop
  needs one step more than there are rows. Without rows the member \<open>orders\<close> is null and not an empty
  list.
\<close>

theorem list_shows_rows:
  assumes "qs_get (url_params req) ''status'' = Inr v" "query = (case v of Some t \<Rightarrow> t | None \<Rightarrow> [])"
    "sq_prepare (sq D) (if query = [] then sql_all else sql_filtered) (db w) = (d, Some stmt)"
    "delivers (sq D) stmt (bind_all (sq D) stmt (if query = [] then [] else [BText query]) d) rs"
    "length rs < fuel" "int (length rs) < int_max"
  shows "\<exists>w'. list_orders fuel D req w = Some (w', Inr (json_response (json D) 200
    (wv_put ''orders'' (if rs = [] then WNull else WList (map (listed_value D) rs)) WNull))) \<and>
    svc_of w' = svc_of w \<and> cache w' = cache w"
  using list_body_delivers [of D stmt "w\<lparr>db := bind_all (sq D) stmt (if query = [] then [] else [BText query]) d\<rparr>" rs fuel]
    assms by (auto simp: list_orders_def list_query_def array_of_def)

theorem list_shows_rows_witness:
  "\<exists>w'. list_orders 2 mem_deps empty_request (one_order ''ORD1'') = Some (w', Inr (json_response mem_json 200
     (wv_put ''orders'' (WList [listed_value mem_deps (''ORD1'', pending_order (Fin False 5 0) 7)]) WNull)))"
  using list_shows_rows [of empty_request None "[]" mem_deps "one_order ''ORD1''" "(db (one_order ''ORD1''))\<lparr>cur_sql := sql_all\<rparr>" "()"
      "[(''ORD1'', pending_order (Fin False 5 0) 7)]" 2]
  by (auto simp: empty_request_def empty_query_string_def qs_get_def mem_sqlite_def bind_all_def world_defs
      mem_step_list mem_scan_def listed_ok_def column_shift_def int_limits)

section \<open>JSON\<close>

text \<open>
  C12. Strings survive the round trip: what \<open>dump_string\<close> writes, the reader scans back to its end and
  no further, and undoing the escapes gives the bytes that were written, for every byte string.
\<close>

theorem json_string_round_trip:
  "decode_string (QUOTE # escape s @ QUOTE # r) = Some (escape s, (\<exists>c \<in> set s. needs_escape c), r) \<and>
   unescape (escape s) = s"
  by (simp add: decode_string_escape unescape_escape)



text \<open>
  C14. The number scanner accepts exactly the texts of its grammar, up to the first character that
  cannot continue a number: an optional minus, an integer part without leading zeros, and optionally a
  point and an exponent, each of which may lack its digits (a lone zero takes no exponent).
\<close>

theorem json_number_grammar:
  "decode_number s = Some (t, r) \<longleftrightarrow> s = t @ r \<and> g_number t \<and> \<not> number_char (cur r)"
  by (rule decode_number_grammar)

text \<open>
  C15. Looking up a key of a parsed object, which sorts the members and then searches by bisection,
  finds exactly the stored members, whatever order the sort leaves equal keys in: \<open>has\<close> says whether
  the key is there, and with distinct keys \<open>operator[]\<close> gives the value of the key or throws.
\<close>

theorem json_lookup:
  assumes "key_sorter srt" "distinct (map fst kvs)"
  shows "rv_has srt (RObject kvs False) key = Inr (key \<in> fst ` set kvs) \<and>
    rv_at srt (RObject kvs False) key =
      (case map_of kvs key of Some v \<Rightarrow> Inr v | None \<Rightarrow> Inl (RuntimeError (''cannot find key: '' @ key)))"
  using assms by (simp add: rv_has_object rv_at_distinct)

theorem json_lookup_witness:
  "rv_at insertion_sort (RObject [(''b'', RTrue), (''a'', RNull)] False) ''a'' = Inr RNull \<and>
   rv_has insertion_sort (RObject [(''b'', RTrue), (''a'', RNull)] False) ''c'' = Inr False"
  using json_lookup [OF key_sorter_insertion_sort, of "[(''b'', RTrue), (''a'', RNull)]" "''a''"]
    json_lookup [OF key_sorter_insertion_sort, of "[(''b'', RTrue), (''a'', RNull)]" "''c''"]
  by simp

section \<open>HTTP messages\<close>

text \<open>
  C16. Decoding a parameter value in place, where the write position trails the read position in the
  same buffer, gives the text that decoding a copy would give, followed by a terminator, and touches
  nothing else of the buffer.
\<close>

theorem in_place_decoding:
  "qs_decode b p = (overlay b p (url_decode (drop p b) @ [NUL]), length (url_decode (drop p b)))"
  by (rule qs_decode_overlay)

text \<open>
  C17. A parameter that a client appends percent-encoded is what \<open>get\<close> returns (up to the first NUL,
  since the value is a C string).
\<close>

theorem query_parameter_round_trip:
  assumes "plain_key key" "set path \<inter> {CHR ''?'', CHR ''#'', NUL} = {}"
  shows "qs_get (query_string_of (path @ CHR ''?'' # key @ CHR ''='' # percent_encode v) True) key = Inr (Some (c_str v))"
  using assms by (rule qs_get_single)

theorem query_parameter_round_trip_witness:
  "qs_get (query_string_of (''/order/list'' @ CHR ''?'' # ''status'' @ CHR ''='' # percent_encode ''A&B=C'') True) ''status''
     = Inr (Some ''A&B=C'')"
  using query_parameter_round_trip [of "''status''" "''/order/list''" "''A&B=C''"]
  by (simp add: plain_key_def unreserved_def c_str_def is_digit_code)


text \<open>
  The methods survive the round trip through their names, with one exception: the name of
  \<open>MSearch\<close> is not a name that is recognized.
\<close>

lemma method_names_round_trip:
  "method_from_string (method_name (method_num m)) =
     (if m = MSearch then Inl (RuntimeError ''invalid http method'') else Inr m)"
proof -
  have "method_from_string (method_name (method_num MSearch)) = Inl (RuntimeError ''invalid http method'')" by code_simp
  then show ?thesis by (cases "m = MSearch") (simp_all add: method_round_trip)
qed

section \<open>Middleware and state\<close>

text \<open>
  C19. Whatever the environment holds, a start that gets as far as serving has a cache lifetime and a
  request limit of at least one, in 32 bits, and a drain time that is not negative.
\<close>

theorem settings_positive:
  assumes "main_start ow = Serving s port drain"
  shows "1 \<le> sint (cache_ttl_seconds s) \<and> 1 \<le> sint (max_inflight_requests s) \<and> 0 \<le> drain \<and> db_ready s \<and>
    (redis_client s \<longleftrightarrow> redis_answers ow)"
proof -
  obtain s0 s1 where "init_db ow initial_svc = (s0, None)" "load_limits (env ow) s0 = Inr s1" "load_drain_ms (env ow) = Inr drain"
    and s: "s = connect_redis ow s1"
    using assms by (auto simp: main_start_def Let_def split: prod.splits option.splits sum.splits)
  moreover from this have "db_ready s1"
    by (auto simp: init_db_def load_limits_def bind_result_eq_Inr split: if_splits)
  ultimately show ?thesis
    using load_limits_positive [of "env ow" s0 s1]
    by (auto simp: connect_redis_def load_drain_ms_def bind_result_eq_Inr)
qed

theorem settings_positive_witness:
  "\<exists>s port drain. main_start \<lparr>env = [''MAX_INFLIGHT_REQUESTS'' \<mapsto> ''-3''], db_opens = True, table_created = True,
       redis_answers = False\<rparr> = Serving s port drain \<and> 1 \<le> sint (max_inflight_requests s) \<and> \<not> redis_client s"
proof -
  let ?ow = "\<lparr>env = [''MAX_INFLIGHT_REQUESTS'' \<mapsto> ''-3''], db_opens = True, table_created = True, redis_answers = False\<rparr>"
  have "\<exists>s port drain. main_start ?ow = Serving s port drain"
    by (simp add: main_start_def init_db_def load_limits_def load_port_def load_drain_ms_def get_env_def stoi_def
        strto_int_def scan_sign_def scan_digits_def digits_val_def digit_val_def is_digit_def code_def int_limits c_isspace_def
        c_str_def Let_def)
  then show ?thesis using settings_positive [of ?ow] by auto
qed

text \<open>
  The readiness probe answers 200 exactly when the service can take orders: the database is open
  and no shutdown has begun; without Redis it stays ready and says that it is degraded.
\<close>

lemma readiness_code:
  "(rcode (readiness J s) = 200 \<longleftrightarrow> db_ready s \<and> \<not> shutting_down s) \<and>
   (rcode (readiness J s) = 200 \<longleftrightarrow> readiness_status s \<in> {''ready'', ''degraded''}) \<and>
   (readiness_status s = ''ready'' \<longleftrightarrow> db_ready s \<and> \<not> shutting_down s \<and> redis_available s)"
  using is_ready_iff [of s] readiness_status_ready [of s] by (auto simp: readiness_def is_ready_def)

section \<open>Concurrency\<close>



text \<open>
  Once the shutdown has begun and the threads that had passed the check are decided, no further
  request gets in: from then on the requests inside only become fewer.
\<close>

lemma draining_admits_nobody:
  assumes "draining g" "gate_step\<^sup>*\<^sup>* g g'"
  shows "draining g' \<and> count_if is_inside (threads g') \<le> count_if is_inside (threads g)"
  using assms(2,1)
proof (induction rule: rtranclp_induct)
  case (step g1 g2)
  with draining_step [of g1 g2] show ?case by force
qed simp

text \<open>
  C21. The running maximum of the durations, which the threads raise with a compare-and-exchange loop
  that may fail at any time, is exact: when all of them are through, it is the largest of the observed
  durations and the value before.
\<close>

theorem maximum_is_exact:
  assumes "max_step\<^sup>*\<^sup>* (max_init m0 ds) s" "list_all is_done (observers s)"
  shows "sint (stored s) = Max (insert (sint m0) (sint ` set ds))"
  using max_inv_done [OF maximum.reachable [OF assms(1) max_init_inv] assms(2)] .

theorem maximum_is_exact_witness:
  "\<exists>s. max_step\<^sup>*\<^sup>* (max_init 3 [5]) s \<and> list_all is_done (observers s) \<and> sint (stored s) = 5"
proof -
  let ?s1 = "(max_init 3 [5])\<lparr>observers := [ObsLoop 5 3]\<rparr>"
  let ?s2 = "?s1\<lparr>stored := 5, observers := [ObsDone 5]\<rparr>"
  have "max_step (max_init 3 [5]) ?s1" using max_step.load_max [of 0 "max_init 3 [5]" 5] by (simp add: max_init_def)
  moreover have "max_step ?s1 ?s2" using max_step.exchanged [of 0 ?s1 5 3] by (simp add: max_init_def word_sless_alt)
  ultimately have "max_step\<^sup>*\<^sup>* (max_init 3 [5]) ?s2" by (meson converse_rtranclp_into_rtranclp rtranclp.rtrancl_refl)
  with maximum_is_exact [OF this] show ?thesis by (intro exI [of _ ?s2]) simp
qed

text \<open>
  C22. After a signal the process can always still leave in order, from every state it can be in in which
  the workers were there before the drain was over: at most four steps of its own threads (start of the
  drain, stop of the server, return of \<open>run\<close>, join of the watcher) lead to the exit, and no step of any
  thread leads away from it.
\<close>

theorem shutdown_completes:
  assumes "control_step\<^sup>*\<^sup>* initial_control c" "received c" "stop_effective c"
  shows "joined ((progress ^^ distance c) c) \<and> control_step\<^sup>*\<^sup>* c ((progress ^^ distance c) c) \<and> distance c \<le> 4 \<and>
    (\<forall>c'. control_step c c' \<longrightarrow> received c' \<and> distance c' \<le> distance c)"
proof -
  have inv: "control_inv c"
    using control.reachable [OF assms(1)] by (simp add: control_inv_def initial_control_def)
  have steps: "control_step\<^sup>*\<^sup>* c ((progress ^^ n) c) \<and> control_inv ((progress ^^ n) c) \<and> received ((progress ^^ n) c) \<and>
    stop_effective ((progress ^^ n) c)" for n
  proof (induction n)
    case (Suc n)
    then have "control_step ((progress ^^ n) c) ((progress ^^ Suc n) c)" "stop_effective ((progress ^^ Suc n) c)"
      using progress_step by simp_all
    with Suc control_step_distance control.preserved show ?case by (meson rtranclp.rtrancl_into_rtrancl)
  qed (simp add: inv assms)
  have "joined ((progress ^^ distance c) c)"
    using inv by (cases "watcher_at c") (auto simp: distance_def progress_def control_inv_def eval_nat_numeral)
  moreover have "distance c \<le> 4" by (simp add: distance_def split: watcher.split)
  ultimately show ?thesis using steps control_step_distance [OF inv assms(2)] by blast
qed

definition serving_control :: control where
  "serving_control = initial_control\<lparr>main_at := Accepting, received := True\<rparr>"

lemma serving_reachable: "control_step\<^sup>*\<^sup>* initial_control serving_control"
proof -
  have "control_step\<^sup>*\<^sup>* initial_control (initial_control\<lparr>main_at := Building\<rparr>)"
    by (rule r_into_rtranclp, rule create_server) (simp add: initial_control_def)
  also have "control_step (initial_control\<lparr>main_at := Building\<rparr>) (initial_control\<lparr>main_at := Accepting\<rparr>)"
    using build_workers [of "initial_control\<lparr>main_at := Building\<rparr>"] by simp
  also have "control_step (initial_control\<lparr>main_at := Accepting\<rparr>) serving_control"
    using control_step.signal [of "initial_control\<lparr>main_at := Accepting\<rparr>"] by (simp add: serving_control_def)
  finally show ?thesis .
qed

theorem shutdown_completes_witness:
  "control_step\<^sup>*\<^sup>* initial_control serving_control \<and> joined ((progress ^^ distance serving_control) serving_control)"
proof -
  have "received serving_control" "stop_effective serving_control"
    by (simp_all add: serving_control_def stop_effective_def initial_control_def)
  with shutdown_completes [OF serving_reachable] show ?thesis using serving_reachable by simp
qed

text \<open>
  C23. A signal while the program starts can be lost: when the drain is over before the server object
  exists, the watcher is gone without having stopped anything, and the process never leaves, whatever
  its threads do afterwards and however many signals follow.
\<close>

theorem shutdown_lost:
  "\<exists>c. control_step\<^sup>*\<^sup>* initial_control c \<and> received c \<and> down c \<and> (\<forall>c'. control_step\<^sup>*\<^sup>* c c' \<longrightarrow> \<not> joined c')"
proof -
  let ?a = "initial_control\<lparr>received := True\<rparr>" and ?b = "initial_control\<lparr>received := True, down := True, watcher_at := Draining\<rparr>"
  let ?c = "?b\<lparr>app_stopped := False, watcher_at := Gone\<rparr>"
  have "control_step\<^sup>*\<^sup>* initial_control ?a" by (rule r_into_rtranclp, rule control_step.signal)
  also have "control_step ?a ?b" using enter_drain [of ?a] by (simp add: initial_control_def)
  also have "control_step ?b ?c" using drained [of ?b] by (simp add: initial_control_def)
  finally have "control_step\<^sup>*\<^sup>* initial_control ?c" .
  moreover have "\<not> joined c'" if "control_step\<^sup>*\<^sup>* ?c c'" for c'
    using lost.reachable [OF that] by (simp add: stop_lost_def initial_control_def)
  ultimately show ?thesis by (intro exI [of _ ?c]) (simp add: initial_control_def)
qed

theorem shutdown_lost_witness:
  "\<exists>c. control_step\<^sup>*\<^sup>* initial_control c \<and> received c \<and> control_step\<^sup>*\<^sup>* c (c\<lparr>received := True\<rparr>) \<and> \<not> joined (c\<lparr>received := True\<rparr>)"
proof -
  obtain c where c: "control_step\<^sup>*\<^sup>* initial_control c" "received c" "\<And>c'. control_step\<^sup>*\<^sup>* c c' \<Longrightarrow> \<not> joined c'"
    using shutdown_lost by blast
  have again: "control_step\<^sup>*\<^sup>* c (c\<lparr>received := True\<rparr>)" using control_step.signal by blast
  from c(1,2) again c(3) [OF again] show ?thesis by blast
qed

section \<open>Routing\<close>

text \<open>
  C24. The search tree refines a list of patterns: after registering well-formed rules with distinct
  patterns, from slot 2 on, and compressing the tree, every search returns the first registered rule
  whose pattern matches the whole url, with the parameters it read, and nothing if there is none.
\<close>

theorem search_tree_first_match:
  assumes "rules_ok ss" "length ss + 2 \<le> 2 ^ 16"
  shows "\<exists>t. insert_all trie_insert ss 2 new_node = Some (Inr t) \<and> (\<forall>u. trie_search t u = first_match ss 2 u)"
proof -
  have new: "trie_wf new_node" "set (paths new_node) = {}" by (simp_all add: new_node_def paths_children)
  then obtain t where t: "insert_all trie_insert ss 2 new_node = Some (Inr t)" "trie_wf t" "set (paths t) = set (numbered ss 2)"
    using trie.insert_all_numbered [OF new(1) assms(1), of 2] assms(2) by auto
  with trie.search_first_match [OF t(2,3)] assms(2) show ?thesis by auto
qed

theorem search_tree_first_match_witness:
  "\<exists>t. insert_all trie_insert [''/a/<string>'', ''/a/list''] 2 new_node = Some (Inr t) \<and>
     map_option fst (trie_search t ''/a/list'') = Some 2"
proof -
  have "rules_ok [''/a/<string>'', ''/a/list'']"
    by (simp add: rules_ok_def rule_tokens.simps match_trait_def paramTraits_def)
  moreover have "map_option fst (first_match [''/a/<string>'', ''/a/list''] 2 ''/a/list'') = Some 2"
    by (simp add: rule_tokens.simps match_trait_def paramTraits_def param_read_def Let_def)
  ultimately show ?thesis using search_tree_first_match [of "[''/a/<string>'', ''/a/list'']"] by auto
qed



text \<open>
  C26. The route for files, which \<open>run\<close> adds to the table, gives out regular files below the directory
  \<open>static\<close> only: whatever the rest of the url is, no part of the path that is opened is two dots, it
  begins with the directory, is at most 262 characters long and holds no control character and none
  of the characters that file systems treat in their own way; nothing else is touched.
\<close>

theorem static_files_confined:
  assumes "endpoint_of m u = Some (StaticFile p)" "endpoint_handler D i (StaticFile p) req w = Some (w', Inr q)" "file_path q \<noteq> []"
  shows "m = method_num Get \<and> u = ''/static/'' @ p \<and> w' = w \<and> rcode q = 200 \<and> (\<exists>n. in_stat i (file_path q) = Some (True, n)) \<and>
    hd (segments (file_path q)) = ''static'' \<and> ''..'' \<notin> set (segments (file_path q)) \<and>
    (\<forall>c \<in> set (file_path q). \<not> forbidden c) \<and> length (file_path q) \<le> 262"
proof -
  have "m = method_num Get \<and> path_rest ''/static/'' u = Some p"
    using assms(1) by (auto simp: endpoint_of_def split: if_splits option.splits)
  then have "m = method_num Get" "u = ''/static/'' @ p" using path_rest_url [of "''/static/''" u p] by simp_all
  moreover have q: "w' = w" "q = static_response (in_stat i) p" using assms(2) by (simp_all add: endpoint_handler_def)
  moreover have "file_path q = static_path p \<and> rcode q = 200 \<and> (\<exists>n. in_stat i (static_path p) = Some (True, n))"
    using assms(3) unfolding q
    by (auto simp: static_response_def set_static_file_info_unsafe_def add_header_def Let_def split: if_splits)
  ultimately show ?thesis using static_path_confined [of p] by simp
qed

theorem static_files_confined_witness:
  "endpoint_of 1 ''/static/../../etc/passwd'' = Some (StaticFile ''../../etc/passwd'') \<and>
   ''..'' \<notin> set (segments ''static/_/_/etc/passwd'') \<and> static_path ''../../etc/passwd'' = ''static/_/_/etc/passwd''"
proof -
  let ?i = "some_inputs\<lparr>in_stat := (\<lambda>p. Some (True, 3))\<rparr>"
  have u: "endpoint_of 1 ''/static/../../etc/passwd'' = Some (StaticFile ''../../etc/passwd'')"
    by (simp add: endpoint_of_def path_argument_def path_rest_def is_prefix_def)
  have p: "static_path ''../../etc/passwd'' = ''static/_/_/etc/passwd''" by code_simp
  let ?q = "static_response (in_stat ?i) ''../../etc/passwd''"
  have q: "endpoint_handler mem_deps ?i (StaticFile ''../../etc/passwd'') (some_request ''/'') mem_world = Some (mem_world, Inr ?q)"
    by (simp add: endpoint_handler_def)
  have f: "file_path ?q = ''static/_/_/etc/passwd''"
    using static_response_file [of "in_stat ?i" "''../../etc/passwd''" 3] by (simp add: p)
  from static_files_confined [OF u q] u p show ?thesis by (simp only: f) simp
qed

section \<open>Connections\<close>

lemma some_wire_answerable:
  assumes "endpoint_of 1 (if q = 0 then u else take q u) = Some ep"
    "ep \<in> {Healthcheck, Readiness, Metrics} \<union> range GetOrder \<union> range DeleteOrder"
  shows "answerable mem_deps some_settings (some_inputs, message_at q (some_wire u))"
    "admitted (message_request some_settings (message_at q (some_wire u))) (svc_in (new_conn mem_world []))"
proof -
  let ?m = "message_at q (some_wire u)"
  have "header_kind (''Host'', ''localhost'') = Some Plain" "header_kind (''Authorization'', ''1234567'') = Some Plain" by code_simp+
  then have line: "m_line ?m = \<lparr>http_major = 1, http_minor = 1, f_connection_keep_alive = False, f_connection_close = False, f_upgrade = False\<rparr>"
    by (simp add: message_at_def some_wire_def line_of_def header_flags_def)
  have url: "url (message_start ?m) = (if q = 0 then u else take q u)" by (simp add: message_start_def some_wire_def)
  have wire: "w_method (some_wire u) = 1" "w_headers (some_wire u) = [(''Host'', ''localhost''), (''Authorization'', ''1234567'')]"
    by (simp_all add: some_wire_def)
  have up: "c_toupper (CHR ''h'') = CHR ''H''" "c_toupper (CHR ''H'') = CHR ''H''" by code_simp+
  have "proper ?m" "\<not> close_connection (message_head ?m)"
    by (simp_all add: proper_def whole_headers_def wire line message_head_def message_start_def set_connection_parameters_def
        internal_method_count_def req_add_header_def ci_count_def ci_key_eq_map empty_request_def ci_emplace_def up)
  then show "answerable mem_deps some_settings (some_inputs, ?m)"
    using assms(1) by (simp add: answerable_def url wire) (intro allI reads_return [OF assms(2)])
  show "admitted (message_request some_settings ?m) (svc_in (new_conn mem_world []))"
    by (simp add: admitted_def over_limit_def authorized_def mem_world_def initial_svc_def word_sless_alt req_get_header_value_def
        get_header_value_def message_request_def message_head_def wire line message_start_def set_connection_parameters_def
        req_add_header_def ci_count_def ci_find_def ci_key_eq_map empty_request_def ci_emplace_def new_conn_def)
qed

lemma some_endpoints: "endpoint_of 1 ''/healthcheck'' = Some Healthcheck" "endpoint_of 1 ''/order/get/A'' = Some (GetOrder ''A'')"
  "endpoint_of 1 ''/order/get/A?x'' = Some (GetOrder ''A?x'')"
  by (simp_all add: endpoint_of_def path_argument_def is_prefix_def)

text \<open>
  C27. From bytes to bytes: a connection reads the texts of any number of requests, each in one read. If
  each of them keeps to the grammar (a method, a path, headers of which at most one declares the length
  of the body), names an endpoint, is well formed, is admitted and keeps the connection alive, then each
  is handled on the database and the cache that the one before left, the answers are sent in the order
  of the requests and nothing else is, the parser and the connection are ready for the next request, all
  requests are counted, and none stays in flight.
\<close>

theorem session_answers:
  assumes "idle (c, res)" "list_all (\<lambda>(i, r). one_read r \<and> answerable D S (i, message_of r)) rs"
    "list_all (\<lambda>(i, r). admitted (message_request S (message_of r)) (svc_in c)) rs"
  shows "\<exists>h' c' res' out. do_read_bytes D S (map (\<lambda>(i, r). (i, wire_text r)) rs) (http_parser_init, c, res) =
      Some (Inr (Reading, h', c', res')) \<and> waiting h' \<and>
    idle (c', res') \<and> exchanges D S (map (\<lambda>(i, r). (i, message_of r)) rs) (c_world c) out (c_world c') \<and> sent c' = sent c @ out \<and>
    in_flight c' = in_flight c \<and> total_requests (svc_in c') = total_requests (svc_in c) + of_nat (length rs)"
proof -
  have "waiting http_parser_init" "hp_nread http_parser_init = 0" by (simp_all add: waiting_def http_parser_init_def)
  from do_read_bytes_answers [OF this assms] show ?thesis using exchanges_counters by fastforce
qed

theorem session_answers_witness:
  "\<exists>h' c' res'. do_read_bytes mem_deps some_settings
      (map (\<lambda>(i, r). (i, wire_text r)) [(some_inputs, some_wire ''/healthcheck''), (some_inputs, some_wire ''/order/get/A'')])
      (http_parser_init, new_conn mem_world [], new_response) = Some (Inr (Reading, h', c', res')) \<and>
     in_flight c' = 0 \<and> total_requests (svc_in c') = 2"
proof -
  have "one_read (some_wire ''/healthcheck'')" "one_read (some_wire ''/order/get/A'')" by code_simp+
  then have "list_all (\<lambda>(i, r). one_read r \<and> answerable mem_deps some_settings (i, message_of r))
      [(some_inputs, some_wire ''/healthcheck''), (some_inputs, some_wire ''/order/get/A'')]"
    using some_wire_answerable(1) [of 0] some_endpoints by (simp add: message_of_def query_point_def some_wire_def [of u for u])
  moreover have "list_all (\<lambda>(i, r). admitted (message_request some_settings (message_of r)) (svc_in (new_conn mem_world [])))
      [(some_inputs, some_wire ''/healthcheck''), (some_inputs, some_wire ''/order/get/A'')]"
    using some_wire_answerable(2) [of 0] some_endpoints by (simp add: message_of_def query_point_def some_wire_def [of u for u])
  ultimately show ?thesis
    using session_answers [OF idle_new, of mem_deps some_settings
        "[(some_inputs, some_wire ''/healthcheck''), (some_inputs, some_wire ''/order/get/A'')]" mem_world "[]"]
    by (auto simp: new_conn_def mem_world_def initial_svc_def)
qed



text \<open>
  C29. An unknown url is answered from the routing step, before its request has a context of its own:
  the after-handlers run on the context that the previous request of the connection left behind, and
  if that one was counted, it is taken out of the count of requests in flight a second time.
\<close>

theorem unknown_url_counts_down:
  assumes "unrouted R (c_req c)" "\<not> complete_request_handler res" "\<not> completed res" "\<not> message_complete c" "\<not> between_messages c"
  shows "in_flight (fst (handle_url S R (c, res))) = in_flight c - (if counted_inflight (c_ctx c) then 1 else 0) \<and>
    total_requests (svc_in (fst (handle_url S R (c, res)))) = total_requests (svc_in c) + 1 \<and>
    parse_error (fst (handle_url S R (c, res)))"
  using handle_url_unrouted [OF assms, of S] by simp

theorem unknown_url_counts_down_witness:
  "in_flight (fst (handle_url some_settings new_router
     ((some_conn (some_request ''/nothing''))\<lparr>c_ctx := new_context\<lparr>counted_inflight := True\<rparr>\<rparr>, new_response))) = - 1"
  by (subst unknown_url_counts_down [THEN conjunct1])
    (simp_all add: unrouted_def matches_in_def find_in_def new_router_def new_per_method_def trie_find_def new_node_def
      some_conn_def some_request_def new_conn_def empty_request_def mem_world_def initial_svc_def new_response_def)



text \<open>
  C31. Two requests in one read are both answered, in order. The start of the first url stays marked,
  however, so that the query of the second one is looked for too far to the right by the distance of the
  two urls: if the second url has a query, its path is taken to go on after the question mark.
\<close>

theorem pipelined_requests:
  assumes "wire_ok r1" "wire_ok r2" "length (wire_text r1 @ wire_text r2) \<le> 4096" "idle (c, res)"
    and q: "q = stored_query (Some (url_start r1 0)) (url_start r2 (length (wire_text r1))) (w_url r2)"
    and "answerable D S (i, message_of r1)" "answerable D S (i, message_at q r2)"
    and "admitted (message_request S (message_of r1)) (svc_in c)" "admitted (message_request S (message_at q r2)) (svc_in c)"
  shows "(\<exists>h' c' res' out. do_read_bytes D S [(i, wire_text r1 @ wire_text r2)] (http_parser_init, c, res) = Some (Inr (Reading, h', c', res')) \<and>
      idle (c', res') \<and> exchanges D S [(i, message_of r1), (i, message_at q r2)] (c_world c) out (c_world c') \<and> sent c' = sent c @ out) \<and>
    (if CHR ''?'' \<in> set (w_url r2) then query_point (w_url r2) < q else message_at q r2 = message_of r2)"
proof -
  have "waiting http_parser_init" "hp_nread http_parser_init = 0" by (simp_all add: waiting_def http_parser_init_def)
  from pipelined_answers [OF assms(1-3) this assms(4) q assms(6-9)]
  show ?thesis by (auto simp: q stored_query_def url_origin_def url_start_def wire_text_def request_head_def message_of_def query_point_def)
qed

theorem pipelined_requests_witness:
  "\<exists>h' c' res' out. do_read_bytes mem_deps some_settings [(some_inputs, wire_text (some_wire ''/healthcheck'') @ wire_text (some_wire ''/order/get/A?x''))]
      (http_parser_init, new_conn mem_world [], new_response) = Some (Inr (Reading, h', c', res')) \<and> sent c' = out \<and>
    exchanges mem_deps some_settings [(some_inputs, message_of (some_wire ''/healthcheck'')), (some_inputs, message_at 82 (some_wire ''/order/get/A?x''))]
      mem_world out (c_world c') \<and>
    endpoint_of 1 (url (message_start (message_at 82 (some_wire ''/order/get/A?x'')))) = Some (GetOrder ''A?x'')"
proof -
  let ?r1 = "some_wire ''/healthcheck''" and ?r2 = "some_wire ''/order/get/A?x''"
  have ok: "wire_ok ?r1" "wire_ok ?r2" "length (wire_text ?r1 @ wire_text ?r2) \<le> 4096" by code_simp+
  have q: "stored_query (Some (url_start ?r1 0)) (url_start ?r2 (length (wire_text ?r1))) (w_url ?r2) = 82" by code_simp
  have r1: "message_of ?r1 = message_at 0 ?r1" by (simp add: message_of_def query_point_def some_wire_def)
  have path: "(if (82::nat) = 0 then ''/order/get/A?x'' else take 82 ''/order/get/A?x'') = ''/order/get/A?x''"
    "url (message_start (message_at 82 ?r2)) = ''/order/get/A?x''" by (simp_all add: message_start_def some_wire_def)
  note m1 = some_wire_answerable [of 0 "''/healthcheck''" Healthcheck, folded r1]
    and m2 = some_wire_answerable [of 82 "''/order/get/A?x''" "GetOrder ''A?x''", unfolded path]
  have "\<exists>h' c' res' out. do_read_bytes mem_deps some_settings [(some_inputs, wire_text ?r1 @ wire_text ?r2)]
      (http_parser_init, new_conn mem_world [], new_response) = Some (Inr (Reading, h', c', res')) \<and> idle (c', res') \<and>
      exchanges mem_deps some_settings [(some_inputs, message_of ?r1), (some_inputs, message_at 82 ?r2)]
        (c_world (new_conn mem_world [])) out (c_world c') \<and> sent c' = sent (new_conn mem_world []) @ out"
    using pipelined_requests [OF ok idle_new q [symmetric], of mem_deps some_settings some_inputs mem_world "[]"] m1 m2 some_endpoints by simp
  then show ?thesis using path(2) some_endpoints(3) by (auto simp: new_conn_def simp del: do_read_bytes.simps)
qed

text \<open>
  C32. The loop of the byte-level parser ends on every buffer, in whatever state the parser and the
  connection are: unless a callback itself does not return, \<open>http_parser_execute\<close> does.
\<close>

theorem parser_terminates:
  assumes "length data < 2 ^ 64"
  shows "http_parser_execute (observed (conn_callbacks S R)) data h cr \<noteq> None"
  using assms by (rule watched.execute_returns)

theorem parser_terminates_witness:
  "http_parser_execute (observed (conn_callbacks some_settings new_router)) ''GET ?'' http_parser_init (some_conn empty_request, new_response) \<noteq> None"
  by (rule parser_terminates) simp



text \<open>
  C34. The number of a content-length header is stored exactly as it is written, or refused: there is
  no wrap-around of its 64 bits. The largest number accepted is 18446744073709551609.
\<close>

theorem content_length_exact:
  assumes "list_all is_digit (d # v)" "has data p (v @ [CR])" "content_length h = of_nat (digit_val d)"
  shows "if digits_val (d # v) \<le> 18446744073709551609
    then \<exists>h'. value_loop data p h h_content_length_num = Some (V_cr, p + length v, h', h_content_length_num) \<and>
      unat (content_length h') = digits_val (d # v)
    else \<exists>q h'. value_loop data p h h_content_length_num = Some (V_error CHPE_INVALID_CONTENT_LENGTH, q, h', h_content_length_num)"
proof -
  have "digits_val (d # v) = more_digits (digit_val d) v" by (simp add: digits_val_def more_digits_def)
  moreover have "digit_val d \<le> length_bound" using assms(1) digit_val_less [of d] by (simp add: length_bound_def)
  ultimately show ?thesis
    using length_value [of v data p h "digit_val d"] assms by (auto simp: unat_of_nat length_bound_def split: if_splits)
qed

theorem content_length_exact_witness:
  "\<exists>h'. value_loop ([CHR ''7'', CR]) 0 (http_parser_init\<lparr>content_length := 1\<rparr>) h_content_length_num = Some (V_cr, 1, h', h_content_length_num) \<and>
     unat (content_length h') = 17"
proof -
  have "digit_val (CHR ''1'') = 1" "digits_val ''17'' = 17" "is_digit (CHR ''1'')" "is_digit (CHR ''7'')" by code_simp+
  then show ?thesis
    using content_length_exact [of "CHR ''1''" "''7''" "[CHR ''7'', CR]" 0 "http_parser_init\<lparr>content_length := 1\<rparr>"] by simp
qed

text \<open>
  C35. On a buffer without zero bytes the byte-level parser fails no assertion, whatever the bytes are and
  wherever the last buffer stopped: unless a callback fails, it returns with the invariant of its
  states, or with an error number. Only a buffer that begins within a url can make it subtract a null
  pointer.
\<close>

theorem parser_never_asserts:
  assumes "parser_ok h" "NUL \<notin> set data" "length data < 2 ^ 64"
  shows "\<exists>r. http_parser_execute (observed (conn_callbacks S R)) data h cr = Some r \<and> (case r of
      Inl e \<Rightarrow> e = UB ''callback failed'' \<or> hp_state h \<in> url_states \<and> e = UB ''distance from a null pointer''
    | Inr (h', cr', n) \<Rightarrow> http_errno h' = CHPE_OK \<longrightarrow> parser_ok h')"
  using assms by (rule watched.execute_safe)

theorem parser_never_asserts_witness:
  "\<exists>r. http_parser_execute (observed (conn_callbacks some_settings new_router)) ''GET /a?b HTTP/1.1'' http_parser_init
      (some_conn empty_request, new_response) = Some r \<and> r \<noteq> Inl (UB ''assertion failed'') \<and> r \<noteq> Inl (UB ''distance from a null pointer'')"
proof -
  let ?data = "''GET /a?b HTTP/1.1''" and ?cr = "(some_conn empty_request, new_response)"
  let ?run = "http_parser_execute (observed (conn_callbacks some_settings new_router)) ?data http_parser_init ?cr"
  have ok: "parser_ok http_parser_init" "hp_state http_parser_init \<notin> url_states" "NUL \<notin> set ?data" by code_simp+
  have "length ?data < 2 ^ 64" by simp
  from parser_never_asserts [OF ok(1,3) this, of some_settings new_router ?cr]
  have "?run \<noteq> Some (Inl (UB ''assertion failed''))" "?run \<noteq> Some (Inl (UB ''distance from a null pointer''))" "?run \<noteq> None"
    using ok(2) by auto
  then show ?thesis by (cases ?run) auto
qed

text \<open>
  C36. A zero byte at the start of the value of a connection header ends the process: the comparison with
  the lower-case character takes it for a space, and the next character runs into an assertion, which
  the build leaves enabled. Neither a key nor a complete request is needed, only the line of a
  request that the router knows.
\<close>

theorem zero_byte_ends_process:
  assumes "idle (c, res)" "wire_ok r" "length (line_text r) + 13 \<le> max_header_size"
    "endpoint_of (w_method r) (url (message_start (message_of r))) = Some ep" "IS_HEADER_CHAR x" "x \<noteq> CR" "x \<noteq> LF"
  shows "do_read_bytes D S [(i, line_text r @ ''Connection:'' @ [NUL, x] @ rest)] (http_parser_init, c, res) = Some (Inl (UB ''assertion failed''))"
proof -
  have init: "waiting http_parser_init" "hp_nread http_parser_init = 0" by (simp_all add: waiting_def http_parser_init_def)
  obtain R where "app_router D i = Some (Inr R)" using app_router_ok .
  from zero_byte_aborts [OF init assms(1-3) this assms(4-7)] show ?thesis .
qed

theorem zero_byte_ends_process_witness:
  "do_read_bytes mem_deps some_settings [(some_inputs, ''GET /healthcheck HTTP/1.1'' @ [CR, LF] @ ''Connection:'' @ [NUL, CHR ''x''])]
     (http_parser_init, new_conn mem_world [], new_response) = Some (Inl (UB ''assertion failed''))"
proof -
  have ok: "wire_ok (some_wire ''/healthcheck'')" "IS_HEADER_CHAR (CHR ''x'')" "CHR ''x'' \<noteq> CR" "CHR ''x'' \<noteq> LF" by code_simp+
  have line: "line_text (some_wire ''/healthcheck'') = ''GET /healthcheck HTTP/1.1'' @ [CR, LF]"
    by (simp add: line_text_def some_wire_def method_strings_def chr_eq_CHR)
  then have short: "length (line_text (some_wire ''/healthcheck'')) + 13 \<le> max_header_size" by (simp add: max_header_size_def)
  have "endpoint_of (w_method (some_wire ''/healthcheck'')) (url (message_start (message_of (some_wire ''/healthcheck'')))) = Some Healthcheck"
    using some_endpoints by (simp add: message_of_def message_start_def query_point_def some_wire_def)
  from zero_byte_ends_process [OF idle_new ok(1) short this ok(2-4), of mem_deps some_settings some_inputs "[]" mem_world "[]"]
  show ?thesis by (simp only: line append_assoc append_Nil2)
qed

section \<open>Server loop, timers and deadlines\<close>

text \<open>
  C37. Every read has its deadline: when a handler of a connection leaves it reading, whatever happened on
  the event loop before, the timer holds exactly one task for the connection, under the identifier that
  the connection keeps and for the time-out after the time of the handler.
\<close>

theorem reads_have_deadlines:
  assumes "io_run es (new_loop t0 timeout) = Some s" "length es < 2 ^ 64 - 2"
    "io_step (now, e) s = Some s'" "of_link e = Some i" "reading (links s' ! i) = Pending"
  shows "scheduled (timer s') k = Some (d, i) \<longleftrightarrow> k = task_id (links s' ! i) \<and> d = now + uint timeout * TICK"
proof -
  have ok: "loop_ok timeout (length es) s" and n: "Suc (length es) < 2 ^ 64"
    using io_run_ok [OF new_loop_ok _ assms(1)] assms(2) by auto
  note d = io_step_deadline [OF ok n assms(3-5)]
  show ?thesis using d one_task [OF io_step_ok [OF ok n assms(3)] d, of k d] by auto
qed

theorem reads_have_deadlines_witness:
  "\<exists>s s'. io_run [(0, Connect)] (new_loop 0 5) = Some s \<and> io_step (7, Begin 0) s = Some s' \<and>
     scheduled (timer s') 1 = Some (7 + 5 * TICK, 0)"
proof -
  obtain s where s: "io_run [(0, Connect)] (new_loop 0 5) = Some s" by (simp add: loop_evaluation)
  obtain s' where s': "io_step (7, Begin 0) s = Some s'" "reading (links s' ! 0) = Pending" "task_id (links s' ! 0) = 1"
    using s by (auto simp: loop_evaluation)
  from reads_have_deadlines [OF s _ s'(1) _ s'(2), of 1 "7 + 5 * TICK"] s' s show ?thesis by (simp add: of_link_def)
qed

text \<open>
  C38. A connection that has nothing to do is closed by the first tick after its deadline and not before:
  in every continuation without an event of the connection itself or of one that holds the same
  identifier, its socket is open at the end exactly if it was open and no tick came after the deadline.
\<close>

theorem idle_connection_closed:
  assumes "io_run es0 (new_loop t0 timeout) = Some s" "length es0 + length es < 2 ^ 64 - 1"
    "scheduled (timer s) k = Some (d, i)" "io_run es s = Some s'" "list_all (\<lambda>(_, e). harmless i k s e) es"
  shows "socket_open (links s' ! i) \<longleftrightarrow> socket_open (links s ! i) \<and> \<not> (\<exists>t. (t, Tick) \<in> set es \<and> d < t)"
proof -
  have "loop_ok timeout (length es0) s" using io_run_ok [OF new_loop_ok _ assms(1)] assms(2) by simp
  from idle_closed [OF this assms(2-5)] show ?thesis .
qed

theorem idle_connection_closed_witness:
  "\<exists>s s'. io_run [(0, Connect), (0, Begin 0)] (new_loop 0 5) = Some s \<and> socket_open (links s ! 0) \<and>
     io_run [(3 * TICK, Tick), (6 * TICK, Tick)] s = Some s' \<and> \<not> socket_open (links s' ! 0)"
proof -
  obtain s where s: "io_run [(0, Connect), (0, Begin 0)] (new_loop 0 5) = Some s" by (simp add: loop_evaluation)
  then have k: "scheduled (timer s) 1 = Some (5 * TICK, 0)" "socket_open (links s ! 0)"
    by (auto simp: loop_evaluation scheduled_def)
  obtain s' where s': "io_run [(3 * TICK, Tick), (6 * TICK, Tick)] s = Some s'"
    using s by (auto simp: loop_evaluation)
  have "\<not> socket_open (links s' ! 0)"
    using idle_connection_closed [OF s _ k(1) s'] by (auto simp: harmless_def of_link_def TICK_def ms_def)
  with s s' k show ?thesis by blast
qed

text \<open>
  C39. A deadline can be lost: the identifiers of the tasks start anew when the timer is empty, and the
  handler of an aborted read cancels the identifier of the deadline that closed its connection, which by
  then may be that of another connection. This other connection then stays open whatever happens
  on the loop, as long as nothing comes from its client.
\<close>

theorem deadline_stolen:
  "\<exists>s. io_run stolen_run (new_loop 0 5) = Some s \<and> reading (links s ! 1) = Pending \<and>
     (\<forall>es s'. io_run es s = Some s' \<and> list_all (\<lambda>(_, e). of_link e \<noteq> Some 1) es \<longrightarrow> socket_open (links s' ! 1))"
proof -
  obtain s where s: "io_run stolen_run (new_loop 0 5) = Some s" "length (links s) = 2" "tasks (timer s) = []"
    "reading (links s ! 1) = Pending" "socket_open (links s ! 1)"
    using stolen_run_result by blast
  have "socket_open (links s' ! 1)" if "io_run es s = Some s'" "list_all (\<lambda>(_, e). of_link e \<noteq> Some 1) es" for es s'
    using io_run_alone [OF that] s by (simp add: owners_def)
  with s show ?thesis by blast
qed

theorem deadline_stolen_witness:
  "\<exists>s s'. io_run stolen_run (new_loop 0 5) = Some s \<and> io_run [(100 * TICK, Tick), (200 * TICK, Tick)] s = Some s' \<and>
     socket_open (links s' ! 1)"
proof -
  obtain s where s: "io_run stolen_run (new_loop 0 5) = Some s"
    "\<And>es s'. io_run es s = Some s' \<Longrightarrow> list_all (\<lambda>(_, e). of_link e \<noteq> Some 1) es \<Longrightarrow> socket_open (links s' ! 1)"
    using deadline_stolen by blast
  obtain s' where s': "io_run [(100 * TICK, Tick), (200 * TICK, Tick)] s = Some s'"
    using s(1) by (auto simp: stolen_run_def loop_evaluation)
  with s(2) [OF s'] s(1) show ?thesis by (auto simp: of_link_def)
qed

text \<open>
  C40. The accept loop always finds a worker, whatever number of threads the machine reports, and
  spreads the connections evenly: the numbers that any two workers were handed differ by at most one.
  The queue length of a worker is the number of all connections it was ever handed, and one more while
  the next one is awaited for it; connections that end are not taken off.
\<close>

theorem connections_balanced:
  assumes "Suc (length es) < 2 ^ 32"
  shows "\<exists>s. server_run (multithreaded h) es = Inr s \<and> queue_lengths s \<noteq> [] \<and> set (posted s) \<subseteq> {..<length (queue_lengths s)} \<and>
    balanced s \<and> (\<forall>i < length (queue_lengths s).
      unat (queue_lengths s ! i) = count_list (posted s) i + (if under_way s = Some i then 1 else 0))"
proof -
  have "2 \<le> multithreaded h" by (simp add: multithreaded_def concurrency_bound)
  from server_run_ok [OF this assms] show ?thesis by (auto simp: server_ok_def handed_def)
qed

theorem connections_balanced_witness:
  "\<exists>s. server_run (multithreaded 4) [Accept False, Accept True, Accept False, StopFlag, Accept False] = Inr s \<and> balanced s"
  using connections_balanced [of "[Accept False, Accept True, Accept False, StopFlag, Accept False]" 4] by auto

end
